theory Spec2Isabelle
  imports Main "HOL-Library.Word" "HOL-Library.Multiset"
begin

unbundle bit_operations_syntax

section \<open>Unsigned machine arithmetic\<close>

text \<open>
  The kernels of \<^verbatim>\<open>device_radix_sort.hpp\<close> compute sizes, offsets and counts in
  \<^verbatim>\<open>unsigned int\<close> and keep the per-digit run boundaries in \<^verbatim>\<open>unsigned short\<close>.
  These values are natural numbers here, and every operation of the source that can
  leave the range is written with its wrap-around.
\<close>

definition u32 :: "nat \<Rightarrow> nat" where
  "u32 n = n mod 4294967296"

definition u32_sub :: "nat \<Rightarrow> nat \<Rightarrow> nat" where
  "u32_sub a b = (a + (4294967296 - b mod 4294967296)) mod 4294967296"

definition u16 :: "nat \<Rightarrow> nat" where
  "u16 n = n mod 65536"

text \<open>\<^verbatim>\<open>rocprim::min\<close> of \<^verbatim>\<open>functional.hpp\<close>: \<^verbatim>\<open>a < b ? a : b\<close>.\<close>

definition rocprim_min :: "nat \<Rightarrow> nat \<Rightarrow> nat" where
  "rocprim_min a b = (if a < b then a else b)"

section \<open>Batching: the blocks of one grid position\<close>

text \<open>
  Both \<^verbatim>\<open>fill_digit_counts\<close> and \<^verbatim>\<open>sort_and_scatter\<close> start with the same lines:
  \<^verbatim>\<open>
    if(batch_id < full_batches) {
        blocks_per_batch = blocks_per_full_batch;
        block_offset = batch_id * blocks_per_batch;
    } else {
        blocks_per_batch = blocks_per_full_batch - 1;
        block_offset = batch_id * blocks_per_batch + full_batches;
    }
    block_offset *= items_per_block;
  \<close>
  \<open>batch_first_block\<close> is \<^verbatim>\<open>block_offset\<close> before the last line (a block index),
  \<open>batch_block_offset\<close> is \<^verbatim>\<open>block_offset\<close> after it (an item index).
\<close>

definition blocks_per_batch :: "nat \<Rightarrow> nat \<Rightarrow> nat \<Rightarrow> nat" where
  "blocks_per_batch blocks_per_full_batch full_batches batch_id =
     (if batch_id < full_batches then blocks_per_full_batch
      else u32_sub blocks_per_full_batch 1)"

definition batch_first_block :: "nat \<Rightarrow> nat \<Rightarrow> nat \<Rightarrow> nat" where
  "batch_first_block blocks_per_full_batch full_batches batch_id =
     (if batch_id < full_batches then u32 (batch_id * blocks_per_full_batch)
      else u32 (u32 (batch_id * u32_sub blocks_per_full_batch 1) + full_batches))"

definition batch_block_offset :: "nat \<Rightarrow> nat \<Rightarrow> nat \<Rightarrow> nat \<Rightarrow> nat" where
  "batch_block_offset items_per_block blocks_per_full_batch full_batches batch_id =
     u32 (batch_first_block blocks_per_full_batch full_batches batch_id * items_per_block)"

text \<open>
  The loop skeleton shared by both kernels:
  \<^verbatim>\<open>
    for(unsigned int bi = 0; bi < blocks_per_batch; bi++) {
        if(block_offset + items_per_block <= size) valid_count = items_per_block;
        else valid_count = size - block_offset;
        ...
        block_offset += items_per_block;
    }
  \<close>
  \<open>batch_tiles_from\<close> lists the pairs \<open>(block_offset, valid_count)\<close> of the iterations.
\<close>

definition tile_valid_count :: "nat \<Rightarrow> nat \<Rightarrow> nat \<Rightarrow> nat" where
  "tile_valid_count items_per_block size' block_offset =
     (if u32 (block_offset + items_per_block) \<le> size' then items_per_block
      else u32_sub size' block_offset)"

fun batch_tiles_from :: "nat \<Rightarrow> nat \<Rightarrow> nat \<Rightarrow> nat \<Rightarrow> (nat \<times> nat) list" where
  "batch_tiles_from items_per_block size' 0 block_offset = []"
| "batch_tiles_from items_per_block size' (Suc n) block_offset =
     (block_offset, tile_valid_count items_per_block size' block_offset) #
     batch_tiles_from items_per_block size' n (u32 (block_offset + items_per_block))"

definition batch_tiles :: "nat \<Rightarrow> nat \<Rightarrow> nat \<Rightarrow> nat \<Rightarrow> nat \<Rightarrow> (nat \<times> nat) list" where
  "batch_tiles items_per_block size' blocks_per_full_batch full_batches batch_id =
     batch_tiles_from items_per_block size'
       (blocks_per_batch blocks_per_full_batch full_batches batch_id)
       (batch_block_offset items_per_block blocks_per_full_batch full_batches batch_id)"

text \<open>The item indices a tile of the loop treats as valid.\<close>

definition tile_items :: "nat \<times> nat \<Rightarrow> nat list" where
  "tile_items tile = [fst tile ..< fst tile + snd tile]"

text \<open>
  The batching precondition of the launch: \<open>B\<close> grid positions, of which the first
  \<open>full_batches\<close> own \<open>blocks_per_full_batch\<close> blocks and the others one block less,
  own \<open>T\<close> blocks together. The equation is over the integers.
\<close>

definition batching_ok :: "nat \<Rightarrow> nat \<Rightarrow> nat \<Rightarrow> nat \<Rightarrow> bool" where
  "batching_ok T B blocks_per_full_batch full_batches \<longleftrightarrow>
     full_batches \<le> B \<and>
     int full_batches * int blocks_per_full_batch +
       (int B - int full_batches) * (int blocks_per_full_batch - 1) = int T"

text \<open>The number of tiles of \<open>items_per_block\<close> items that cover \<open>size\<close> items.\<close>

definition total_blocks :: "nat \<Rightarrow> nat \<Rightarrow> nat" where
  "total_blocks items_per_block size' = (size' + items_per_block - 1) div items_per_block"

section \<open>Keys, digits and the registers of a block\<close>

text \<open>
  \<^verbatim>\<open>radix_key_codec<Key, Descending>\<close> is not among the sources at hand; the kernels
  take its two functions as a parameter. The bit key type is an unsigned integer of
  the width of the key, a word here.
\<close>

record ('k, 'b) codec =
  encode :: "'k \<Rightarrow> 'b"
  decode :: "'b \<Rightarrow> 'k"

text \<open>
  The template parameters of the kernels. \<^verbatim>\<open>warp_size\<close> stands for the constant
  \<^verbatim>\<open>::rocprim::warp_size()\<close>, which the sources at hand do not define.
\<close>

record template_params =
  BlockSize :: nat
  ItemsPerThread :: nat
  RadixBits :: nat
  warp_size :: nat

definition items_per_block :: "template_params \<Rightarrow> nat" where
  "items_per_block P = BlockSize P * ItemsPerThread P"

definition radix_size :: "template_params \<Rightarrow> nat" where
  "radix_size P = 2 ^ RadixBits P"

definition warps_no :: "template_params \<Rightarrow> nat" where
  "warps_no P = BlockSize P div warp_size P"

text \<open>\<^verbatim>\<open>radix_mask = (1u << current_radix_bits) - 1\<close> and
  \<^verbatim>\<open>digit = (bit_key >> bit) & radix_mask\<close>. A shift by the width of the type or
  more is undefined in the source; \<open>drop_bit\<close> gives 0 there.\<close>

definition radix_mask :: "nat \<Rightarrow> nat" where
  "radix_mask current_radix_bits = u32_sub (u32 (2 ^ current_radix_bits)) 1"

definition digit_of :: "nat \<Rightarrow> nat \<Rightarrow> 'w::len word \<Rightarrow> nat" where
  "digit_of bit' current_radix_bits bit_key =
     unat (drop_bit bit' bit_key) AND radix_mask current_radix_bits"

text \<open>
  A thread-private array \<^verbatim>\<open>T x[ItemsPerThread]\<close> of a block is a function of the
  thread \<^verbatim>\<open>flat_id\<close> and the index \<^verbatim>\<open>i\<close>. Between two barriers the threads of a
  block run here one after the other, in the order of \<^verbatim>\<open>flat_id\<close>, each with its loop
  over \<^verbatim>\<open>i\<close>.
\<close>

type_synonym 'a regs = "nat \<Rightarrow> nat \<Rightarrow> 'a"

definition for_threads :: "template_params \<Rightarrow> (nat \<Rightarrow> nat \<Rightarrow> 's \<Rightarrow> 's) \<Rightarrow> 's \<Rightarrow> 's" where
  "for_threads P body =
     fold (\<lambda>flat_id. fold (body flat_id) [0..<ItemsPerThread P]) [0..<BlockSize P]"

text \<open>The items of a block in blocked order: item \<open>i\<close> of thread \<open>flat_id\<close> has rank
  \<open>flat_id * ItemsPerThread + i\<close>.\<close>

definition blocked :: "template_params \<Rightarrow> 'a regs \<Rightarrow> 'a list" where
  "blocked P x =
     map (\<lambda>p. x (p div ItemsPerThread P) (p mod ItemsPerThread P)) [0..<items_per_block P]"

definition unblocked :: "template_params \<Rightarrow> 'a list \<Rightarrow> 'a regs" where
  "unblocked P xs flat_id i = xs ! (flat_id * ItemsPerThread P + i)"

section \<open>Stage 1: \<^verbatim>\<open>fill_digit_counts\<close>\<close>

text \<open>
  Modelled from the spec: \<^verbatim>\<open>block_load_direct_striped\<close>, a tolerant striped load. Item
  \<open>i\<close> of thread \<open>flat_id\<close> is element \<open>i * BlockSize + flat_id\<close> of the tile when that
  is below \<open>valid\<close>; otherwise the register keeps what it held. The form without
  \<open>valid\<close> is the one with \<open>valid = items_per_block\<close>.
\<close>

definition block_load_direct_striped ::
  "template_params \<Rightarrow> (nat \<Rightarrow> 'a) \<Rightarrow> 'a regs \<Rightarrow> nat \<Rightarrow> 'a regs" where
  "block_load_direct_striped P block_input items valid flat_id i =
     (if i * BlockSize P + flat_id < valid then block_input (i * BlockSize P + flat_id)
      else items flat_id i)"

text \<open>
  Modelled from the spec: the warp intrinsics \<^verbatim>\<open>ballot\<close>, \<^verbatim>\<open>bit_count\<close> and
  \<^verbatim>\<open>masked_bit_count\<close>. A ballot is the 64-bit mask of the lanes of the warp whose
  predicate holds; \<^verbatim>\<open>bit_count\<close> counts the set bits, \<^verbatim>\<open>masked_bit_count\<close> the set
  bits below the calling lane.
\<close>

type_synonym lane_mask = "64 word"

definition ballot :: "nat \<Rightarrow> (nat \<Rightarrow> bool) \<Rightarrow> lane_mask" where
  "ballot ws predicate = horner_sum of_bool 2 (map predicate [0..<ws])"

definition bit_count :: "lane_mask \<Rightarrow> nat" where
  "bit_count x = length (filter (bit x) [0..<64])"

definition masked_bit_count :: "nat \<Rightarrow> lane_mask \<Rightarrow> nat" where
  "masked_bit_count lane_id x = length (filter (bit x) [0..<lane_id])"

text \<open>
  The mask a lane builds for its item:
  \<^verbatim>\<open>
    unsigned long long same_digit_lanes_mask = ballot(pos < valid_count);
    for(unsigned int b = 0; b < RadixBits; b++) {
        const unsigned int bit_set = digit & (1u << b);
        const unsigned long long bit_set_mask = ballot(bit_set);
        same_digit_lanes_mask &= (bit_set ? bit_set_mask : ~bit_set_mask);
    }
  \<close>
  \<open>in_range\<close> and \<open>digit\<close> give \<^verbatim>\<open>pos < valid_count\<close> and \<^verbatim>\<open>digit\<close> of every lane of
  the warp.
\<close>

definition same_digit_lanes_mask ::
  "template_params \<Rightarrow> (nat \<Rightarrow> bool) \<Rightarrow> (nat \<Rightarrow> nat) \<Rightarrow> nat \<Rightarrow> lane_mask" where
  "same_digit_lanes_mask P in_range digit lane_id =
     fold (\<lambda>b mask.
             let bit_set = bit (digit lane_id) b;
                 bit_set_mask = ballot (warp_size P) (\<lambda>l. bit (digit l) b)
             in mask AND (if bit_set then bit_set_mask else NOT bit_set_mask))
       [0..<RadixBits P] (ballot (warp_size P) in_range)"

text \<open>
  One warp, one value of \<open>i\<close>: every lane whose mask has no set bit below it adds the
  population count of its mask to \<^verbatim>\<open>storage.digit_counts[warp_id][digit]\<close>. The lanes
  run in lockstep in the source and in lane order here.
\<close>

definition warp_count_digits ::
  "template_params \<Rightarrow> (nat \<Rightarrow> bool) \<Rightarrow> (nat \<Rightarrow> nat) \<Rightarrow> nat list \<Rightarrow> nat list" where
  "warp_count_digits P in_range digit digit_counts =
     fold (\<lambda>lane_id counts.
             let mask = same_digit_lanes_mask P in_range digit lane_id;
                 same_digit_count = bit_count mask;
                 prev_same_digit_count = masked_bit_count lane_id mask
             in if prev_same_digit_count = 0
                then counts[digit lane_id := u32 (counts ! digit lane_id + same_digit_count)]
                else counts)
       [0..<warp_size P] digit_counts"

text \<open>The body of the loop over the blocks of the batch, after the load: the loop over
  \<open>i\<close>, for all warps of the block.\<close>

definition count_block ::
  "template_params \<Rightarrow> nat regs \<Rightarrow> nat \<Rightarrow> nat list list \<Rightarrow> nat list list" where
  "count_block P digits valid_count storage =
     fold (\<lambda>i st.
             map (\<lambda>warp_id.
                    warp_count_digits P
                      (\<lambda>l. i * BlockSize P + (warp_id * warp_size P + l) < valid_count)
                      (\<lambda>l. digits (warp_id * warp_size P + l) i)
                      (st ! warp_id))
               [0..<warps_no P])
       [0..<ItemsPerThread P] storage"

text \<open>
  The kernel for one grid position \<open>batch_id\<close>; it returns the table
  \<^verbatim>\<open>batch_digit_counts\<close> with the row of the batch written. \<open>uninit\<close> is the content
  of the registers that a partial load leaves untouched, by item position. The shared
  counters are zeroed by the threads \<^verbatim>\<open>flat_id < radix_size\<close>; the kernel asserts
  \<^verbatim>\<open>radix_size <= BlockSize\<close>, so these are all counters.
\<close>

definition fill_digit_counts ::
  "template_params \<Rightarrow> ('k, 'w::len word) codec \<Rightarrow> 'k list \<Rightarrow> (nat \<Rightarrow> 'k) \<Rightarrow> nat \<Rightarrow> nat list \<Rightarrow>
   nat \<Rightarrow> nat \<Rightarrow> nat \<Rightarrow> nat \<Rightarrow> nat \<Rightarrow> nat list" where
  "fill_digit_counts P key_in_codec keys_input uninit size' batch_digit_counts
     bit' current_radix_bits blocks_per_full_batch full_batches batch_id =
   (let storage0 = replicate (warps_no P) (replicate (radix_size P) 0);
        storage = fold (\<lambda>(block_offset, valid_count) st.
            let keys = block_load_direct_striped P (\<lambda>p. keys_input ! (block_offset + p))
                         (\<lambda>flat_id i. uninit (block_offset + (i * BlockSize P + flat_id)))
                         valid_count;
                bit_keys = (\<lambda>flat_id i. encode key_in_codec (keys flat_id i))
            in count_block P
                 (\<lambda>flat_id i. digit_of bit' current_radix_bits (bit_keys flat_id i))
                 valid_count st)
          (batch_tiles (items_per_block P) size' blocks_per_full_batch full_batches batch_id)
          storage0
    in fold (\<lambda>flat_id table.
               if flat_id < radix_size P
               then table[batch_id * radix_size P + flat_id :=
                      fold (\<lambda>w digit_count. u32 (digit_count + storage ! w ! flat_id))
                        [0..<warps_no P] 0]
               else table)
         [0..<BlockSize P] batch_digit_counts)"

text \<open>Modelled from the spec: the launch of stage 1, one cooperative block per batch.\<close>

definition fill_digit_counts_launch ::
  "template_params \<Rightarrow> ('k, 'w::len word) codec \<Rightarrow> 'k list \<Rightarrow> (nat \<Rightarrow> 'k) \<Rightarrow> nat \<Rightarrow> nat list \<Rightarrow>
   nat \<Rightarrow> nat \<Rightarrow> nat \<Rightarrow> nat \<Rightarrow> nat \<Rightarrow> nat list" where
  "fill_digit_counts_launch P key_in_codec keys_input uninit size' batch_digit_counts
     bit' current_radix_bits blocks_per_full_batch full_batches batches =
   fold (\<lambda>batch_id table.
           fill_digit_counts P key_in_codec keys_input uninit size' table
             bit' current_radix_bits blocks_per_full_batch full_batches batch_id)
     [0..<batches] batch_digit_counts"

section \<open>Stages 2 and 3: \<^verbatim>\<open>scan_batches\<close> and \<^verbatim>\<open>scan_digits\<close>\<close>

text \<open>
  Modelled from the spec: \<^verbatim>\<open>block_scan::exclusive_scan(input, output, 0, reduction)\<close>
  on arrays, a block-wide exclusive prefix sum over the items in blocked order that also
  returns the total. The items are \<^verbatim>\<open>unsigned int\<close>, so the sums are taken modulo
  \<open>2^32\<close>.
\<close>

definition block_exclusive_scan :: "template_params \<Rightarrow> nat regs \<Rightarrow> nat regs \<times> nat" where
  "block_exclusive_scan P input =
     (let xs = blocked P input
      in (unblocked P (map (\<lambda>p. u32 (sum_list (take p xs))) [0..<length xs]),
          u32 (sum_list xs)))"

text \<open>Modelled from the spec: \<^verbatim>\<open>block_scan::exclusive_scan(input, output, 0)\<close> with one
  item per thread, for \<open>n\<close> threads.\<close>

definition block_exclusive_scan_single :: "(nat \<Rightarrow> nat) \<Rightarrow> nat \<Rightarrow> nat" where
  "block_exclusive_scan_single input flat_id = u32 (sum_list (map input [0..<flat_id]))"

text \<open>
  \<^verbatim>\<open>scan_batches\<close> for the block of one digit. \<open>P\<close> holds the template parameters of
  this kernel; its \<open>BlockSize\<close> and \<open>ItemsPerThread\<close> need not be those of the other
  kernels. It returns the table and the array of totals.
\<close>

definition scan_batches ::
  "template_params \<Rightarrow> nat list \<Rightarrow> nat list \<Rightarrow> nat \<Rightarrow> nat \<Rightarrow> nat list \<times> nat list" where
  "scan_batches P batch_digit_counts digit_counts batches digit =
     (let values = (\<lambda>flat_id i.
            let batch_id = flat_id * ItemsPerThread P + i
            in if batch_id < batches
               then batch_digit_counts ! (batch_id * radix_size P + digit) else 0);
          (values', digit_count) = block_exclusive_scan P values;
          table = for_threads P (\<lambda>flat_id i table.
            let batch_id = flat_id * ItemsPerThread P + i
            in if batch_id < batches
               then table[batch_id * radix_size P + digit := values' flat_id i] else table)
            batch_digit_counts
      in (table, if 0 < BlockSize P then digit_counts[digit := digit_count] else digit_counts))"

text \<open>Modelled from the spec: the launch of stage 2, one cooperative block per digit.\<close>

definition scan_batches_launch ::
  "template_params \<Rightarrow> nat list \<Rightarrow> nat list \<Rightarrow> nat \<Rightarrow> nat list \<times> nat list" where
  "scan_batches_launch P batch_digit_counts digit_counts batches =
     fold (\<lambda>digit (table, totals). scan_batches P table totals batches digit)
       [0..<radix_size P] (batch_digit_counts, digit_counts)"

text \<open>\<^verbatim>\<open>scan_digits\<close>: a single block of \<open>radix_size\<close> threads, one digit each. All
  threads read their total before the scan and write their offset after it.\<close>

definition scan_digits :: "template_params \<Rightarrow> nat list \<Rightarrow> nat list" where
  "scan_digits P digit_counts =
     (let value = (\<lambda>flat_id. digit_counts ! flat_id);
          value' = block_exclusive_scan_single value
      in fold (\<lambda>flat_id counts. counts[flat_id := value' flat_id])
           [0..<radix_size P] digit_counts)"

text \<open>
  Modelled from the spec: the host launches the stages one after the other. The stages
  1 to 3 of one pass give the table of batch offsets, the totals and the digit offsets.
  \<open>P\<close> are the template parameters of stages 1, 3 and 4, \<open>S\<close> those of
  \<^verbatim>\<open>scan_batches\<close>.
\<close>

definition count_and_scan ::
  "template_params \<Rightarrow> template_params \<Rightarrow> ('k, 'w::len word) codec \<Rightarrow> 'k list \<Rightarrow> (nat \<Rightarrow> 'k) \<Rightarrow>
   nat \<Rightarrow> nat list \<Rightarrow> nat list \<Rightarrow> nat \<Rightarrow> nat \<Rightarrow> nat \<Rightarrow> nat \<Rightarrow> nat \<Rightarrow>
   nat list \<times> nat list \<times> nat list" where
  "count_and_scan P S key_in_codec keys_input uninit size' batch_digit_counts digit_counts
     bit' current_radix_bits blocks_per_full_batch full_batches batches =
   (let counts = fill_digit_counts_launch P key_in_codec keys_input uninit size'
                   batch_digit_counts bit' current_radix_bits blocks_per_full_batch
                   full_batches batches;
        (batch_digit_starts, totals) = scan_batches_launch S counts digit_counts batches;
        digit_starts = scan_digits P totals
    in (batch_digit_starts, totals, digit_starts))"

section \<open>Stage 4: \<^verbatim>\<open>sort_and_scatter\<close>\<close>

text \<open>
  Modelled from the spec: \<^verbatim>\<open>block_load\<close> with \<^verbatim>\<open>block_load_transpose\<close>, a tolerant load
  into the blocked arrangement. Item \<open>i\<close> of thread \<open>flat_id\<close> is element
  \<open>flat_id * ItemsPerThread + i\<close> of the tile when that is below \<open>valid\<close>; otherwise the
  register keeps what it held, which is the fill value when the load is given one. The
  form without \<open>valid\<close> is the one with \<open>valid = items_per_block\<close>.
\<close>

definition block_load ::
  "template_params \<Rightarrow> (nat \<Rightarrow> 'a) \<Rightarrow> 'a regs \<Rightarrow> nat \<Rightarrow> 'a regs" where
  "block_load P block_input items valid flat_id i =
     (if flat_id * ItemsPerThread P + i < valid
      then block_input (flat_id * ItemsPerThread P + i) else items flat_id i)"

text \<open>
  Modelled from the spec: \<^verbatim>\<open>block_radix_sort::sort\<close>, a stable sort of the items of the
  block, blocked arrangement in and out, by the bits \<open>[begin_bit, end_bit)\<close> of the key; one
  form sorts keys only, the other keys with their values.
\<close>

definition radix_key :: "nat \<Rightarrow> nat \<Rightarrow> 'w::len word \<Rightarrow> nat" where
  "radix_key begin_bit end_bit k = take_bit (end_bit - begin_bit) (unat (drop_bit begin_bit k))"

definition block_radix_sort_keys ::
  "template_params \<Rightarrow> 'w::len word regs \<Rightarrow> nat \<Rightarrow> nat \<Rightarrow> 'w word regs" where
  "block_radix_sort_keys P keys begin_bit end_bit =
     unblocked P (sort_key (radix_key begin_bit end_bit) (blocked P keys))"

definition block_radix_sort_pairs ::
  "template_params \<Rightarrow> 'w::len word regs \<Rightarrow> 'v regs \<Rightarrow> nat \<Rightarrow> nat \<Rightarrow>
   'w word regs \<times> 'v regs" where
  "block_radix_sort_pairs P keys values begin_bit end_bit =
     (let sorted = sort_key (\<lambda>kv. radix_key begin_bit end_bit (fst kv))
                     (zip (blocked P keys) (blocked P values))
      in (unblocked P (map fst sorted), unblocked P (map snd sorted)))"

text \<open>
  The two overloads of \<^verbatim>\<open>sort_block\<close>. The one for \<^verbatim>\<open>::rocprim::empty_type\<close> values
  ignores the values. \<open>with_values\<close> is the constant
  \<^verbatim>\<open>!std::is_same<Value, ::rocprim::empty_type>::value\<close> of the kernel, which selects the
  overload.
\<close>

definition sort_block ::
  "bool \<Rightarrow> template_params \<Rightarrow> 'w::len word regs \<Rightarrow> 'v regs \<Rightarrow> nat \<Rightarrow> nat \<Rightarrow>
   'w word regs \<times> 'v regs" where
  "sort_block with_values P keys values begin_bit end_bit =
     (if with_values then block_radix_sort_pairs P keys values begin_bit end_bit
      else (block_radix_sort_keys P keys begin_bit end_bit, values))"

text \<open>\<^verbatim>\<open>rocprim::not_equal_to\<close> of \<^verbatim>\<open>functional.hpp\<close>.\<close>

definition not_equal_to :: "'a \<Rightarrow> 'a \<Rightarrow> bool" where
  "not_equal_to a b \<longleftrightarrow> a \<noteq> b"

text \<open>
  Modelled from the spec: \<^verbatim>\<open>block_discontinuity::flag_heads_and_tails\<close>. In the blocked
  order of the items of the block, an item is a head when it is the first item or
  \<open>flag_op\<close> holds of its predecessor and itself, a tail when it is the last item or
  \<open>flag_op\<close> holds of itself and its successor.
\<close>

definition flag_heads_and_tails ::
  "template_params \<Rightarrow> 'a regs \<Rightarrow> ('a \<Rightarrow> 'a \<Rightarrow> bool) \<Rightarrow> bool regs \<times> bool regs" where
  "flag_heads_and_tails P input flag_op =
     (let xs = blocked P input
      in (unblocked P (map (\<lambda>p. p = 0 \<or> flag_op (xs ! (p - 1)) (xs ! p)) [0..<length xs]),
          unblocked P (map (\<lambda>p. p + 1 = length xs \<or> flag_op (xs ! p) (xs ! (p + 1)))
            [0..<length xs])))"

text \<open>
  Modelled from the spec: \<^verbatim>\<open>block_exchange::blocked_to_striped\<close>. Afterwards item \<open>i\<close> of
  thread \<open>flat_id\<close> is the item of rank \<open>i * BlockSize + flat_id\<close> of the blocked order.
\<close>

definition blocked_to_striped :: "template_params \<Rightarrow> 'a regs \<Rightarrow> 'a regs" where
  "blocked_to_striped P input flat_id i = blocked P input ! (i * BlockSize P + flat_id)"

text \<open>
  The shared arrays of the kernel that live across the phases of a block:
  \<^verbatim>\<open>unsigned short starts[radix_size], ends[radix_size]\<close> and
  \<^verbatim>\<open>unsigned int block_starts[radix_size]\<close>.
\<close>

record storage_type =
  starts :: "nat list"
  ends :: "nat list"
  block_starts :: "nat list"

text \<open>
  A store of the scatter phase: the index \<^verbatim>\<open>dst\<close>, the key stored in
  \<^verbatim>\<open>keys_output[dst]\<close> and, with values, the value stored in \<^verbatim>\<open>values_output[dst]\<close>.
\<close>

type_synonym ('k, 'v) scatter_write = "nat \<times> 'k \<times> 'v option"

text \<open>
  One iteration of the loop over the blocks of the batch, for the tile
  \<open>(block_offset, valid_count)\<close>, phase by phase. The loads of the full tile are those of
  the partial tile with \<open>valid_count = items_per_block\<close>.

  The keys are loaded with the fill value \<^verbatim>\<open>key_in_codec::decode(bit_key_type(-1))\<close> and
  encoded.
\<close>

definition load_bit_keys ::
  "template_params \<Rightarrow> ('ki, 'w::len word) codec \<Rightarrow> 'ki list \<Rightarrow> nat \<times> nat \<Rightarrow> 'w word regs" where
  "load_bit_keys P key_in_codec keys_input tile =
     (let block_offset = fst tile; valid_count = snd tile;
          out_of_bounds = decode key_in_codec (- 1);
          keys = block_load P (\<lambda>p. keys_input ! (block_offset + p))
                   (\<lambda>flat_id i. out_of_bounds) valid_count
      in (\<lambda>flat_id i. encode key_in_codec (keys flat_id i)))"

text \<open>The values are loaded only with values, and without a fill value: \<open>uninit\<close> is the
  content of the value registers that no load has written, by item position.\<close>

definition load_values ::
  "bool \<Rightarrow> template_params \<Rightarrow> 'v list \<Rightarrow> (nat \<Rightarrow> 'v) \<Rightarrow> nat \<times> nat \<Rightarrow> 'v regs" where
  "load_values with_values P values_input uninit tile =
     (let block_offset = fst tile; valid_count = snd tile;
          unloaded = (\<lambda>flat_id i. uninit (block_offset + (flat_id * ItemsPerThread P + i)))
      in if with_values
         then block_load P (\<lambda>p. values_input ! (block_offset + p)) unloaded valid_count
         else unloaded)"

text \<open>\<^verbatim>\<open>sort_block(sort_type(), bit_keys, values, storage.sort, bit, bit + current_radix_bits)\<close>.\<close>

definition sorted_tile ::
  "bool \<Rightarrow> template_params \<Rightarrow> ('ki, 'w::len word) codec \<Rightarrow> 'ki list \<Rightarrow> 'v list \<Rightarrow> (nat \<Rightarrow> 'v) \<Rightarrow>
   nat \<Rightarrow> nat \<Rightarrow> nat \<times> nat \<Rightarrow> 'w word regs \<times> 'v regs" where
  "sorted_tile with_values P key_in_codec keys_input values_input uninit bit'
     current_radix_bits tile =
     sort_block with_values P (load_bit_keys P key_in_codec keys_input tile)
       (load_values with_values P values_input uninit tile)
       bit' (u32 (bit' + current_radix_bits))"

text \<open>The threads \<^verbatim>\<open>flat_id < radix_size\<close> set \<^verbatim>\<open>starts\<close> and \<^verbatim>\<open>ends\<close> to
  \<^verbatim>\<open>valid_count\<close>.\<close>

definition reset_runs :: "template_params \<Rightarrow> nat \<Rightarrow> storage_type \<Rightarrow> storage_type" where
  "reset_runs P valid_count storage =
     storage
       \<lparr>starts := fold (\<lambda>flat_id s. if flat_id < radix_size P
                                     then s[flat_id := u16 valid_count] else s)
                    [0..<BlockSize P] (starts storage),
        ends := fold (\<lambda>flat_id s. if flat_id < radix_size P
                                   then s[flat_id := u16 valid_count] else s)
                  [0..<BlockSize P] (ends storage)\<rparr>"

text \<open>
  The digits of the sorted keys, their head and tail flags, and
  \<^verbatim>\<open>
    const unsigned int pos = flat_id * ItemsPerThread + i;
    if(head_flags[i]) storage.starts[digit] = pos;
    if(tail_flags[i]) storage.ends[digit] = pos;
  \<close>
\<close>

definition find_runs ::
  "template_params \<Rightarrow> nat \<Rightarrow> nat \<Rightarrow> 'w::len word regs \<Rightarrow> storage_type \<Rightarrow> storage_type" where
  "find_runs P bit' current_radix_bits sorted_keys storage =
     (let digits = (\<lambda>flat_id i. digit_of bit' current_radix_bits (sorted_keys flat_id i));
          (head_flags, tail_flags) = flag_heads_and_tails P digits not_equal_to
      in for_threads P (\<lambda>flat_id i st.
            let digit = digits flat_id i;
                pos = flat_id * ItemsPerThread P + i;
                st1 = (if head_flags flat_id i
                       then st\<lparr>starts := (starts st)[digit := u16 pos]\<rparr> else st)
            in if tail_flags flat_id i
               then st1\<lparr>ends := (ends st1)[digit := u16 pos]\<rparr> else st1)
          storage)"

text \<open>
  The exchange to the striped arrangement and the stores:
  \<^verbatim>\<open>
    const unsigned int pos = i * BlockSize + flat_id;
    if(pos < valid_count) {
        const unsigned int dst = pos - storage.starts[digit] + storage.block_starts[digit];
        keys_output[dst] = key_out_codec::decode(bit_keys[i]);
        if(with_values) values_output[dst] = values[i];
    }
  \<close>
\<close>

definition scatter ::
  "bool \<Rightarrow> template_params \<Rightarrow> ('ko, 'w::len word) codec \<Rightarrow> nat \<Rightarrow> nat \<Rightarrow> nat \<Rightarrow>
   'w word regs \<Rightarrow> 'v regs \<Rightarrow> storage_type \<Rightarrow> ('ko, 'v) scatter_write list \<Rightarrow>
   ('ko, 'v) scatter_write list" where
  "scatter with_values P key_out_codec bit' current_radix_bits valid_count sorted_keys
     sorted_values storage output =
     (let bit_keys = blocked_to_striped P sorted_keys;
          values = (if with_values then blocked_to_striped P sorted_values else sorted_values)
      in for_threads P (\<lambda>flat_id i out.
            let digit = digit_of bit' current_radix_bits (bit_keys flat_id i);
                pos = i * BlockSize P + flat_id
            in if pos < valid_count
               then let dst = u32 (u32_sub pos (starts storage ! digit)
                                   + block_starts storage ! digit)
                    in out @ [(dst, decode key_out_codec (bit_keys flat_id i),
                               if with_values then Some (values flat_id i) else None)]
               else out)
          output)"

text \<open>
  The counts of the block are added to the running offsets:
  \<^verbatim>\<open>
    if(flat_id < radix_size) {
        const unsigned int digit = flat_id;
        const unsigned int start = storage.starts[digit];
        const unsigned int end = storage.ends[digit];
        if(start < valid_count)
            storage.block_starts[digit] += (::rocprim::min(valid_count - 1, end) - start + 1);
    }
  \<close>
\<close>

definition accumulate_counts :: "template_params \<Rightarrow> nat \<Rightarrow> storage_type \<Rightarrow> storage_type" where
  "accumulate_counts P valid_count storage =
     fold (\<lambda>flat_id st.
            if flat_id < radix_size P
            then let digit = flat_id;
                     start = starts st ! digit;
                     end' = ends st ! digit
                 in if start < valid_count
                    then st\<lparr>block_starts := (block_starts st)[digit :=
                           u32 (block_starts st ! digit +
                                u32 (u32_sub (rocprim_min (u32_sub valid_count 1) end') start + 1))]\<rparr>
                    else st
            else st)
       [0..<BlockSize P] storage"

text \<open>The iteration. The state is the shared storage and the list of the stores done so
  far.\<close>

definition sort_and_scatter_block ::
  "bool \<Rightarrow> template_params \<Rightarrow> ('ki, 'w::len word) codec \<Rightarrow> ('ko, 'w word) codec \<Rightarrow>
   'ki list \<Rightarrow> 'v list \<Rightarrow> (nat \<Rightarrow> 'v) \<Rightarrow> nat \<Rightarrow> nat \<Rightarrow> nat \<times> nat \<Rightarrow>
   storage_type \<times> ('ko, 'v) scatter_write list \<Rightarrow> storage_type \<times> ('ko, 'v) scatter_write list" where
  "sort_and_scatter_block with_values P key_in_codec key_out_codec keys_input values_input
     uninit bit' current_radix_bits tile state =
   (let valid_count = snd tile;
        storage1 = reset_runs P valid_count (fst state);
        (sorted_keys, sorted_values) =
          sorted_tile with_values P key_in_codec keys_input values_input uninit bit'
            current_radix_bits tile;
        storage2 = find_runs P bit' current_radix_bits sorted_keys storage1;
        output = scatter with_values P key_out_codec bit' current_radix_bits valid_count
                   sorted_keys sorted_values storage2 (snd state);
        storage3 = accumulate_counts P valid_count storage2
    in (storage3, output))"

text \<open>
  The kernel for one grid position \<open>batch_id\<close>, started with the shared storage
  \<open>storage\<close>: the threads \<^verbatim>\<open>flat_id < radix_size\<close> set \<^verbatim>\<open>block_starts\<close>, then the loop
  runs over the blocks of the batch. The result is the list of the stores to
  \<^verbatim>\<open>keys_output\<close> and \<^verbatim>\<open>values_output\<close>.
\<close>

definition sort_and_scatter ::
  "bool \<Rightarrow> template_params \<Rightarrow> ('ki, 'w::len word) codec \<Rightarrow> ('ko, 'w word) codec \<Rightarrow>
   'ki list \<Rightarrow> 'v list \<Rightarrow> (nat \<Rightarrow> 'v) \<Rightarrow> nat \<Rightarrow> nat list \<Rightarrow> nat list \<Rightarrow> nat \<Rightarrow> nat \<Rightarrow>
   nat \<Rightarrow> nat \<Rightarrow> nat \<Rightarrow> storage_type \<Rightarrow> ('ko, 'v) scatter_write list" where
  "sort_and_scatter with_values P key_in_codec key_out_codec keys_input values_input uninit
     size' batch_digit_starts digit_starts bit' current_radix_bits blocks_per_full_batch
     full_batches batch_id storage =
   (let storage0 = storage
          \<lparr>block_starts := fold (\<lambda>flat_id s.
               if flat_id < radix_size P
               then s[flat_id := u32 (digit_starts ! flat_id +
                                      batch_digit_starts ! (batch_id * radix_size P + flat_id))]
               else s)
             [0..<BlockSize P] (block_starts storage)\<rparr>
    in snd (fold (sort_and_scatter_block with_values P key_in_codec key_out_codec keys_input
                    values_input uninit bit' current_radix_bits)
              (batch_tiles (items_per_block P) size' blocks_per_full_batch full_batches batch_id)
              (storage0, [])))"

text \<open>
  Modelled from the spec: the launch of stage 4, one cooperative block per batch, each
  with shared storage of its own. The blocks run in no fixed order; the stores of the
  launch are listed batch by batch.
\<close>

definition sort_and_scatter_launch ::
  "bool \<Rightarrow> template_params \<Rightarrow> ('ki, 'w::len word) codec \<Rightarrow> ('ko, 'w word) codec \<Rightarrow>
   'ki list \<Rightarrow> 'v list \<Rightarrow> (nat \<Rightarrow> 'v) \<Rightarrow> nat \<Rightarrow> nat list \<Rightarrow> nat list \<Rightarrow> nat \<Rightarrow> nat \<Rightarrow>
   nat \<Rightarrow> nat \<Rightarrow> nat \<Rightarrow> (nat \<Rightarrow> storage_type) \<Rightarrow> ('ko, 'v) scatter_write list" where
  "sort_and_scatter_launch with_values P key_in_codec key_out_codec keys_input values_input uninit
     size' batch_digit_starts digit_starts bit' current_radix_bits blocks_per_full_batch
     full_batches batches storage =
   concat (map (\<lambda>batch_id.
       sort_and_scatter with_values P key_in_codec key_out_codec keys_input values_input uninit
         size' batch_digit_starts digit_starts bit' current_radix_bits blocks_per_full_batch
         full_batches batch_id (storage batch_id))
     [0..<batches])"

text \<open>The output arrays after the stores of a launch.\<close>

definition store_keys :: "('k, 'v) scatter_write list \<Rightarrow> 'k list \<Rightarrow> 'k list" where
  "store_keys writes keys_output =
     fold (\<lambda>w out. out[fst w := fst (snd w)]) writes keys_output"

definition store_values :: "('k, 'v) scatter_write list \<Rightarrow> 'v list \<Rightarrow> 'v list" where
  "store_values writes values_output =
     fold (\<lambda>w out. case snd (snd w) of Some v \<Rightarrow> out[fst w := v] | None \<Rightarrow> out)
       writes values_output"

section \<open>A small launch used as an instance\<close>

text \<open>Four threads in two warps of two lanes, one item per thread, digits of two bits;
  ten keys of four bits in two batches (two tiles, then one partial tile).\<close>

definition example_params :: template_params where
  "example_params = \<lparr>BlockSize = 4, ItemsPerThread = 1, RadixBits = 2, warp_size = 2\<rparr>"

definition example_codec :: "(4 word, 4 word) codec" where
  "example_codec = \<lparr>encode = (\<lambda>k. k), decode = (\<lambda>k. k)\<rparr>"

definition example_keys :: "4 word list" where
  "example_keys = [13, 2, 7, 13, 0, 9, 6, 2, 15, 5]"

section \<open>A launch at the end of the 32-bit range\<close>

text \<open>256 threads in four warps of 64 lanes, eight items per thread, digits of eight bits,
  keys of 32 bits under the identity codec. The launch used with it has
  \<open>size = 2^32 - 1\<close>, hence \<open>2^21\<close> tiles of 2048 items, in 1024 batches of 2048
  tiles: \<open>blocks_per_full_batch = 2048\<close>, \<open>full_batches = 1024\<close>.\<close>

definition overflow_params :: template_params where
  "overflow_params = \<lparr>BlockSize = 256, ItemsPerThread = 8, RadixBits = 8, warp_size = 64\<rparr>"

definition overflow_codec :: "(32 word, 32 word) codec" where
  "overflow_codec = \<lparr>encode = (\<lambda>k. k), decode = (\<lambda>k. k)\<rparr>"

section \<open>Batching covers the blocks and the input exactly once\<close>

lemma u32_id: "n < 4294967296 \<Longrightarrow> u32 n = n"
  by (simp add: u32_def)

lemma u32_sub_eq:
  assumes "b \<le> a" "a - b < 4294967296" "b < 4294967296"
  shows "u32_sub a b = a - b"
proof -
  have e: "a + (4294967296 - b mod 4294967296) = (a - b) + 4294967296" using assms by simp
  show ?thesis unfolding u32_sub_def e using assms(2) by simp
qed

lemma u16_id: "n < 65536 \<Longrightarrow> u16 n = n"
  by (simp add: u16_def)

definition first_block_plain :: "nat \<Rightarrow> nat \<Rightarrow> nat \<Rightarrow> nat" where
  "first_block_plain bfb fb b =
     (if b \<le> fb then b * bfb else fb * bfb + (b - fb) * (bfb - 1))"

lemma concat_upt_chain:
  "(\<And>i. i < n \<Longrightarrow> f i \<le> f (Suc i)) \<Longrightarrow>
   concat (map (\<lambda>i. [f i ..< f (Suc i)]) [0..<n]) = [f 0 ..< f n]"
proof (induction n)
  case 0
  then show ?case by simp
next
  case (Suc n)
  have mono: "f 0 \<le> f n"
    using Suc.prems by (induction n) (auto intro: order_trans less_SucI)
  have "[f 0 ..< f n] @ [f n ..< f (Suc n)] = [f 0 ..< f (Suc n)]"
    using mono Suc.prems [of n] by (metis le_Suc_ex lessI upt_add_eq_append)
  then show ?case using Suc by simp
qed

lemma batching_ok_pos:
  assumes "batching_ok T B bfb fb" "fb < B"
  shows "1 \<le> bfb"
proof (rule ccontr)
  assume "\<not> 1 \<le> bfb"
  then have "bfb = 0" by simp
  with assms show False by (simp add: batching_ok_def)
qed

lemma first_block_plain_total:
  assumes "batching_ok T B bfb fb"
  shows "first_block_plain bfb fb B = T"
proof (cases "fb < B")
  case True
  then have p: "1 \<le> bfb" using assms batching_ok_pos by blast
  have "int (fb * bfb + (B - fb) * (bfb - 1)) = int T"
    using assms True p by (simp add: batching_ok_def of_nat_diff)
  then have "fb * bfb + (B - fb) * (bfb - 1) = T" by (simp only: of_nat_eq_iff)
  then show ?thesis using True by (simp add: first_block_plain_def)
next
  case False
  then have "fb = B" using assms by (simp add: batching_ok_def)
  then have "int (B * bfb) = int T" using assms by (simp add: batching_ok_def)
  then have "B * bfb = T" by (simp only: of_nat_eq_iff)
  then show ?thesis using \<open>fb = B\<close> by (simp add: first_block_plain_def)
qed

lemma first_block_plain_mono: "a \<le> b \<Longrightarrow> first_block_plain bfb fb a \<le> first_block_plain bfb fb b"
  by (auto simp: first_block_plain_def intro: mult_le_mono1 trans_le_add1 add_le_mono dest: order_trans)

lemma blocks_per_batch_plain:
  assumes "batching_ok T B bfb fb" "T < 4294967296" "b < B"
  shows "blocks_per_batch bfb fb b = (if b < fb then bfb else bfb - 1)"
proof (cases "b < fb")
  case True then show ?thesis by (simp add: blocks_per_batch_def)
next
  case False
  then have lt: "fb < B" using assms by simp
  then have p: "1 \<le> bfb" using assms batching_ok_pos by blast
  have "first_block_plain bfb fb (Suc fb) \<le> first_block_plain bfb fb B"
    using lt by (intro first_block_plain_mono) simp
  then have "bfb - 1 \<le> T" using first_block_plain_total [OF assms(1)]
    by (simp add: first_block_plain_def)
  then have "bfb - 1 < 4294967296" using assms(2) by simp
  then show ?thesis using False p by (simp add: blocks_per_batch_def u32_sub_eq)
qed

lemma first_block_plain_le_total:
  assumes "batching_ok T B bfb fb" "b \<le> B"
  shows "first_block_plain bfb fb b \<le> T"
  using first_block_plain_mono [OF assms(2), of bfb fb] first_block_plain_total [OF assms(1)] by simp

lemma batch_first_block_plain:
  assumes "batching_ok T B bfb fb" "T < 4294967296" "b < B"
  shows "batch_first_block bfb fb b = first_block_plain bfb fb b"
proof -
  have le: "first_block_plain bfb fb b \<le> T"
    using assms by (intro first_block_plain_le_total) auto
  show ?thesis
  proof (cases "b < fb")
    case True
    then show ?thesis using le assms(2)
      by (simp add: batch_first_block_def first_block_plain_def u32_id)
  next
    case False
    then have lt: "fb < B" using assms by simp
    then have p: "1 \<le> bfb" using assms batching_ok_pos by blast
    have s: "u32_sub bfb 1 = bfb - 1"
      using blocks_per_batch_plain [OF assms] False by (simp add: blocks_per_batch_def)
    obtain c where c: "bfb = Suc c" using p by (cases bfb) auto
    obtain e where e: "b = fb + e" using False by (metis le_Suc_ex not_less)
    have eq: "b * (bfb - 1) + fb = first_block_plain bfb fb b"
      by (simp add: first_block_plain_def c e algebra_simps)
    have "b * (bfb - 1) \<le> T" using le eq by simp
    then show ?thesis using False le eq assms(2) s
      by (simp add: batch_first_block_def u32_id)
  qed
qed

lemma first_block_plain_Suc:
  "first_block_plain bfb fb (Suc b) = first_block_plain bfb fb b + (if b < fb then bfb else bfb - 1)"
  by (auto simp: first_block_plain_def Suc_diff_le)

lemma batch_block_range:
  assumes "batching_ok T B bfb fb" "T < 4294967296" "b < B"
  shows "[batch_first_block bfb fb b ..< batch_first_block bfb fb b + blocks_per_batch bfb fb b]
         = [first_block_plain bfb fb b ..< first_block_plain bfb fb (Suc b)]"
  by (simp only: batch_first_block_plain [OF assms] blocks_per_batch_plain [OF assms]
        first_block_plain_Suc)

lemma batch_blocks_cover:
  assumes "batching_ok T B bfb fb" "T < 4294967296"
  shows "concat (map (\<lambda>b. [batch_first_block bfb fb b ..<
                            batch_first_block bfb fb b + blocks_per_batch bfb fb b]) [0..<B])
         = [0..<T]"
proof -
  have "concat (map (\<lambda>b. [batch_first_block bfb fb b ..<
                            batch_first_block bfb fb b + blocks_per_batch bfb fb b]) [0..<B])
      = concat (map (\<lambda>b. [first_block_plain bfb fb b ..< first_block_plain bfb fb (Suc b)]) [0..<B])"
    by (intro arg_cong [where f = concat] map_cong refl) (simp add: batch_block_range [OF assms])
  also have "\<dots> = [first_block_plain bfb fb 0 ..< first_block_plain bfb fb B]"
    by (intro concat_upt_chain first_block_plain_mono) simp
  also have "\<dots> = [0..<T]"
    using first_block_plain_total [OF assms(1)] by (simp add: first_block_plain_def)
  finally show ?thesis .
qed

definition block_tile :: "nat \<Rightarrow> nat \<Rightarrow> nat \<Rightarrow> nat \<times> nat" where
  "block_tile ipb size' j = (j * ipb, min ipb (size' - j * ipb))"

lemma total_blocks_less:
  assumes "0 < ipb" "j < total_blocks ipb size'"
  shows "j * ipb < size'"
proof -
  have "Suc j \<le> (size' + ipb - 1) div ipb" using assms by (simp add: total_blocks_def)
  then have "Suc j * ipb \<le> size' + ipb - 1"
    using assms(1) by (simp add: less_eq_div_iff_mult_less_eq)
  then show ?thesis using assms(1) by simp
qed

lemma total_blocks_ge:
  assumes "0 < ipb"
  shows "size' \<le> total_blocks ipb size' * ipb"
proof -
  have "size' + ipb - 1 < ((size' + ipb - 1) div ipb) * ipb + ipb"
    using assms by (metis add.commute dividend_less_times_div mult.commute)
  then show ?thesis by (simp add: total_blocks_def)
qed

lemma total_blocks_mult_less:
  assumes "0 < ipb"
  shows "total_blocks ipb size' * ipb < size' + ipb"
proof -
  have "((size' + ipb - 1) div ipb) * ipb \<le> size' + ipb - 1"
    by (rule div_times_less_eq_dividend)
  then show ?thesis using assms unfolding total_blocks_def by linarith
qed

lemma batch_tiles_from_plain:
  assumes "0 < ipb" "size' + ipb \<le> 4294967296"
  shows "k + n \<le> total_blocks ipb size' \<Longrightarrow>
         batch_tiles_from ipb size' n (k * ipb) = map (block_tile ipb size') [k ..< k + n]"
proof (induction n arbitrary: k)
  case 0
  then show ?case by simp
next
  case (Suc n)
  have lt: "k * ipb < size'" using Suc.prems assms(1) by (intro total_blocks_less) auto
  have nw: "k * ipb + ipb < 4294967296" using lt assms(2) by simp
  have vc: "tile_valid_count ipb size' (k * ipb) = min ipb (size' - k * ipb)"
    using lt nw by (auto simp: tile_valid_count_def u32_id u32_sub_eq)
  have ih: "batch_tiles_from ipb size' n (Suc k * ipb) = map (block_tile ipb size') [Suc k ..< Suc k + n]"
    using Suc.prems by (intro Suc.IH) simp
  have up: "[k ..< k + Suc n] = k # [Suc k ..< Suc k + n]"
    by (simp del: upt_Suc add: upt_conv_Cons)
  have step: "u32 (k * ipb + ipb) = Suc k * ipb" using nw by (simp add: u32_id)
  have bt: "block_tile ipb size' k = (k * ipb, min ipb (size' - k * ipb))"
    by (simp add: block_tile_def)
  show ?case unfolding up by (simp only: batch_tiles_from.simps list.map step vc ih bt)
qed

definition launch_ok :: "nat \<Rightarrow> nat \<Rightarrow> nat \<Rightarrow> nat \<Rightarrow> nat \<Rightarrow> bool" where
  "launch_ok ipb size' B bfb fb \<longleftrightarrow>
     0 < ipb \<and> size' + ipb \<le> 4294967296 \<and> batching_ok (total_blocks ipb size') B bfb fb"

lemma launch_ok_total:
  assumes "launch_ok ipb size' B bfb fb"
  shows "total_blocks ipb size' < 4294967296"
proof -
  have "total_blocks ipb size' * 1 \<le> total_blocks ipb size' * ipb"
    using assms by (intro mult_le_mono2) (simp add: launch_ok_def)
  also have "\<dots> < size' + ipb" using assms by (intro total_blocks_mult_less) (simp add: launch_ok_def)
  finally show ?thesis using assms by (simp add: launch_ok_def)
qed

lemma batch_tiles_plain:
  assumes "launch_ok ipb size' B bfb fb" "b < B"
  shows "batch_tiles ipb size' bfb fb b =
         map (block_tile ipb size') [first_block_plain bfb fb b ..< first_block_plain bfb fb (Suc b)]"
proof -
  let ?T = "total_blocks ipb size'"
  have ok: "batching_ok ?T B bfb fb" and pos: "0 < ipb" and sz: "size' + ipb \<le> 4294967296"
    using assms(1) by (simp_all add: launch_ok_def)
  have T: "?T < 4294967296" using assms(1) by (rule launch_ok_total)
  have le: "first_block_plain bfb fb (Suc b) \<le> ?T"
    using ok assms(2) by (intro first_block_plain_le_total) auto
  have le0: "first_block_plain bfb fb b \<le> ?T"
    using ok assms(2) by (intro first_block_plain_le_total) auto
  have "first_block_plain bfb fb b * ipb \<le> ?T * ipb" using le0 by (rule mult_le_mono1)
  also have "\<dots> < size' + ipb" using pos by (rule total_blocks_mult_less)
  finally have off: "batch_block_offset ipb bfb fb b = first_block_plain bfb fb b * ipb"
    using sz by (simp add: batch_block_offset_def batch_first_block_plain [OF ok T assms(2)] u32_id)
  have n: "first_block_plain bfb fb b + blocks_per_batch bfb fb b = first_block_plain bfb fb (Suc b)"
    by (simp only: blocks_per_batch_plain [OF ok T assms(2)] first_block_plain_Suc)
  have "batch_tiles_from ipb size' (blocks_per_batch bfb fb b) (first_block_plain bfb fb b * ipb)
        = map (block_tile ipb size')
            [first_block_plain bfb fb b ..< first_block_plain bfb fb b + blocks_per_batch bfb fb b]"
    using le n by (intro batch_tiles_from_plain [OF pos sz]) simp
  then show ?thesis by (simp only: batch_tiles_def off n)
qed

lemma all_batch_tiles:
  assumes "launch_ok ipb size' B bfb fb"
  shows "concat (map (batch_tiles ipb size' bfb fb) [0..<B])
         = map (block_tile ipb size') [0 ..< total_blocks ipb size']"
proof -
  have ok: "batching_ok (total_blocks ipb size') B bfb fb"
    using assms by (simp add: launch_ok_def)
  have "concat (map (batch_tiles ipb size' bfb fb) [0..<B])
      = concat (map (\<lambda>b. map (block_tile ipb size')
                 [first_block_plain bfb fb b ..< first_block_plain bfb fb (Suc b)]) [0..<B])"
    by (intro arg_cong [where f = concat] map_cong refl) (simp add: batch_tiles_plain [OF assms])
  also have "\<dots> = map (block_tile ipb size')
       (concat (map (\<lambda>b. [first_block_plain bfb fb b ..< first_block_plain bfb fb (Suc b)]) [0..<B]))"
    by (simp add: map_concat comp_def)
  also have "concat (map (\<lambda>b. [first_block_plain bfb fb b ..< first_block_plain bfb fb (Suc b)]) [0..<B])
      = [first_block_plain bfb fb 0 ..< first_block_plain bfb fb B]"
    by (intro concat_upt_chain first_block_plain_mono) simp
  also have "\<dots> = [0 ..< total_blocks ipb size']"
    using first_block_plain_total [OF ok] by (simp add: first_block_plain_def)
  finally show ?thesis .
qed

lemma tile_items_block_tile:
  assumes "0 < ipb" "j < total_blocks ipb size'"
  shows "tile_items (block_tile ipb size' j) = [min (j * ipb) size' ..< min (Suc j * ipb) size']"
proof -
  have "j * ipb < size'" using assms by (rule total_blocks_less)
  then have "j * ipb + min ipb (size' - j * ipb) = min (Suc j * ipb) size'"
    and "min (j * ipb) size' = j * ipb" by auto
  then show ?thesis by (simp add: tile_items_def block_tile_def)
qed

lemma block_tiles_items:
  assumes "0 < ipb"
  shows "concat (map tile_items (map (block_tile ipb size') [0 ..< total_blocks ipb size']))
         = [0..<size']"
proof -
  have "concat (map tile_items (map (block_tile ipb size') [0 ..< total_blocks ipb size']))
      = concat (map (\<lambda>j. [min (j * ipb) size' ..< min (Suc j * ipb) size']) [0 ..< total_blocks ipb size'])"
    unfolding map_map
    by (intro arg_cong [where f = concat] map_cong refl) (simp add: tile_items_block_tile [OF assms])
  also have "\<dots> = [min (0 * ipb) size' ..< min (total_blocks ipb size' * ipb) size']"
    by (intro concat_upt_chain [where f = "\<lambda>j. min (j * ipb) size'"]) simp
  also have "\<dots> = [0..<size']" using total_blocks_ge [OF assms, of size'] by simp
  finally show ?thesis .
qed

lemma batch_tiles_from_numeral:
  "batch_tiles_from ipb size' (numeral k) off =
     (off, tile_valid_count ipb size' off) #
     batch_tiles_from ipb size' (pred_numeral k) (u32 (off + ipb))"
  by (simp add: numeral_eq_Suc)

lemma all_batch_items:
  assumes "launch_ok ipb size' B bfb fb"
  shows "concat (map tile_items (concat (map (batch_tiles ipb size' bfb fb) [0..<B]))) = [0..<size']"
  using assms block_tiles_items [of ipb size'] by (simp add: all_batch_tiles launch_ok_def)

text \<open>
  Claim C5. When the first \<open>full_batches\<close> of \<open>B\<close> grid positions own
  \<open>blocks_per_full_batch\<close> blocks and the others one block less, \<open>T\<close> blocks in all,
  the block ranges \<open>[block_offset, block_offset + blocks_per_batch)\<close> that
  \<^verbatim>\<open>fill_digit_counts\<close> and \<^verbatim>\<open>sort_and_scatter\<close> compute from \<open>batch_id\<close>, taken in
  the order of the batches, are the blocks \<open>0, 1, \<dots>, T - 1\<close>: contiguous, disjoint and
  complete. With \<open>T\<close> the number of tiles of the input, the valid items of all
  iterations of all batches are the items \<open>0, \<dots>, size - 1\<close>, each once. For
  \<open>size = 10\<close>, \<open>BlockSize = 4\<close>, \<open>ItemsPerThread = 1\<close>, two batches,
  \<open>blocks_per_full_batch = 2\<close> and \<open>full_batches = 1\<close>, batch 0 owns blocks \<open>[0, 2)\<close>
  and items \<open>[0, 8)\<close>, batch 1 owns block \<open>[2, 3)\<close> and items \<open>[8, 10)\<close>.
\<close>

theorem batching_partition:
  assumes "batching_ok T B blocks_per_full_batch full_batches" and "T < 4294967296"
  shows "concat (map (\<lambda>batch_id.
            [batch_first_block blocks_per_full_batch full_batches batch_id ..<
             batch_first_block blocks_per_full_batch full_batches batch_id +
             blocks_per_batch blocks_per_full_batch full_batches batch_id]) [0..<B]) = [0..<T]
       \<and> (launch_ok ipb size' B blocks_per_full_batch full_batches \<longrightarrow>
            concat (map tile_items (concat (map
              (batch_tiles ipb size' blocks_per_full_batch full_batches) [0..<B])))
            = [0..<size'])
       \<and> total_blocks (4 * 1) 10 = 3
       \<and> batch_first_block 2 1 0 = 0 \<and> blocks_per_batch 2 1 0 = 2
       \<and> concat (map tile_items (batch_tiles (4 * 1) 10 2 1 0)) = [0..<8]
       \<and> batch_first_block 2 1 1 = 2 \<and> blocks_per_batch 2 1 1 = 1
       \<and> concat (map tile_items (batch_tiles (4 * 1) 10 2 1 1)) = [8..<10]"
proof -
  have blocks: "concat (map (\<lambda>batch_id.
            [batch_first_block blocks_per_full_batch full_batches batch_id ..<
             batch_first_block blocks_per_full_batch full_batches batch_id +
             blocks_per_batch blocks_per_full_batch full_batches batch_id]) [0..<B]) = [0..<T]"
    using assms by (rule batch_blocks_cover)
  have items: "launch_ok ipb size' B blocks_per_full_batch full_batches \<longrightarrow>
            concat (map tile_items (concat (map
              (batch_tiles ipb size' blocks_per_full_batch full_batches) [0..<B])))
            = [0..<size']"
    by (simp add: all_batch_items)
  have e1: "total_blocks (4 * 1) 10 = 3" by (simp add: total_blocks_def)
  have e2: "batch_first_block 2 1 0 = 0" "blocks_per_batch 2 1 0 = 2"
    "batch_first_block 2 1 1 = 2" "blocks_per_batch 2 1 1 = 1"
    by (simp_all add: batch_first_block_def blocks_per_batch_def u32_def u32_sub_def)
  have t0: "batch_tiles (4 * 1) 10 2 1 0 = [(0, 4), (4, 4)]"
    by (simp add: batch_tiles_def batch_block_offset_def tile_valid_count_def u32_def
          batch_first_block_def blocks_per_batch_def batch_tiles_from_numeral)
  have t1: "batch_tiles (4 * 1) 10 2 1 1 = [(8, 2)]"
    by (simp add: batch_tiles_def batch_block_offset_def tile_valid_count_def u32_def
          batch_first_block_def blocks_per_batch_def u32_sub_def)
  have e3: "concat (map tile_items (batch_tiles (4 * 1) 10 2 1 0)) = [0..<8]"
    unfolding t0 using upt_add_eq_append [of 0 4 4] by (simp add: tile_items_def)
  have e4: "concat (map tile_items (batch_tiles (4 * 1) 10 2 1 1)) = [8..<10]"
    unfolding t1 by (simp add: tile_items_def)
  show ?thesis using blocks items e1 e2 e3 e4 by blast
qed

theorem batching_partition_witness:
  "batching_ok 3 2 2 1 \<and> (3::nat) < 4294967296 \<and> launch_ok 4 10 2 2 1 \<and>
   concat (map (\<lambda>batch_id. [batch_first_block 2 1 batch_id ..<
                 batch_first_block 2 1 batch_id + blocks_per_batch 2 1 batch_id]) [0..<2]) = [0..<3] \<and>
   concat (map tile_items (concat (map (batch_tiles 4 10 2 1) [0..<2]))) = [0..<10]"
proof -
  have ok: "batching_ok 3 2 2 1" by (simp add: batching_ok_def)
  have l: "launch_ok 4 10 2 2 1" by (simp add: launch_ok_def batching_ok_def total_blocks_def)
  show ?thesis
    using batching_partition [OF ok, of 4 10] ok l by simp
qed

section \<open>The ballot tally counts every in-range lane once\<close>

lemma bit_ballot: "bit (ballot ws p) l \<longleftrightarrow> l < ws \<and> l < 64 \<and> p l"
  by (auto simp: ballot_def bit_horner_sum_bit_word_iff)

lemma bit_same_digit_lanes_mask_aux:
  "bit (fold (\<lambda>b mask.
             mask AND (if bit (digit lane_id) b then ballot ws (\<lambda>l. bit (digit l) b)
                       else NOT (ballot ws (\<lambda>l. bit (digit l) b))))
       [0..<n] (ballot ws in_range)) l
   \<longleftrightarrow> l < ws \<and> l < 64 \<and> in_range l \<and> (\<forall>b<n. bit (digit l :: nat) b = bit (digit lane_id) b)"
proof (induction n)
  case 0
  then show ?case by (simp add: bit_ballot)
next
  case (Suc n)
  show ?case
    by (simp add: Suc bit_and_iff bit_not_iff bit_ballot less_Suc_eq) auto
qed

lemma bit_same_digit_lanes_mask:
  "bit (same_digit_lanes_mask P in_range digit lane_id) l
   \<longleftrightarrow> l < warp_size P \<and> l < 64 \<and> in_range l \<and>
       (\<forall>b<RadixBits P. bit (digit l) b = bit (digit lane_id) b)"
  unfolding same_digit_lanes_mask_def Let_def by (rule bit_same_digit_lanes_mask_aux)

lemma nat_bits_eq:
  fixes x y :: nat
  assumes "x < 2 ^ n" "y < 2 ^ n"
  shows "(\<forall>b<n. bit x b = bit y b) \<longleftrightarrow> x = y"
proof
  assume h: "\<forall>b<n. bit x b = bit y b"
  have "bit x b = bit y b" for b
  proof (cases "b < n")
    case True then show ?thesis using h by simp
  next
    case False
    then have "(2::nat) ^ n \<le> 2 ^ b" by (intro power_increasing) auto
    then have "x < 2 ^ b" "y < 2 ^ b" using assms by (blast intro: less_le_trans)+
    then have "\<not> bit x b" "\<not> bit y b"
      by (simp_all add: bit_iff_odd)
    then show ?thesis by simp
  qed
  then show "x = y" by (rule bit_eqI)
qed simp

lemma filter_upt_cong_len:
  "(\<And>l. l < n \<Longrightarrow> p l = q l) \<Longrightarrow> length (filter p [0..<n]) = length (filter q [0..<n])"
  by (intro arg_cong [where f = length] filter_cong) auto

definition lane_count :: "nat \<Rightarrow> (nat \<Rightarrow> bool) \<Rightarrow> (nat \<Rightarrow> nat) \<Rightarrow> nat \<Rightarrow> nat" where
  "lane_count n in_range digit d = length (filter (\<lambda>l. in_range l \<and> digit l = d) [0..<n])"

lemma bit_count_mask:
  assumes "warp_size P \<le> 64" "\<And>l. l < warp_size P \<Longrightarrow> digit l < 2 ^ RadixBits P"
    "lane_id < warp_size P"
  shows "bit_count (same_digit_lanes_mask P in_range digit lane_id)
         = lane_count (warp_size P) in_range digit (digit lane_id)"
proof -
  let ?m = "same_digit_lanes_mask P in_range digit lane_id"
  have up: "[0..<64] = [0..<warp_size P] @ [warp_size P..<64]"
    using assms(1) by (metis le_add_diff_inverse upt_add_eq_append zero_le)
  have "filter (bit ?m) [warp_size P..<64] = []"
    by (simp add: filter_empty_conv bit_same_digit_lanes_mask)
  then have "bit_count ?m = length (filter (bit ?m) [0..<warp_size P])"
    unfolding bit_count_def up by simp
  also have "\<dots> = length (filter (\<lambda>l. in_range l \<and> digit l = digit lane_id) [0..<warp_size P])"
    using assms by (intro filter_upt_cong_len) (auto simp: bit_same_digit_lanes_mask nat_bits_eq)
  finally show ?thesis by (simp add: lane_count_def)
qed

lemma masked_bit_count_mask:
  assumes "warp_size P \<le> 64" "\<And>l. l < warp_size P \<Longrightarrow> digit l < 2 ^ RadixBits P"
    "lane_id < warp_size P"
  shows "masked_bit_count lane_id (same_digit_lanes_mask P in_range digit lane_id)
         = lane_count lane_id in_range digit (digit lane_id)"
  unfolding masked_bit_count_def lane_count_def
  using assms by (intro filter_upt_cong_len) (auto simp: bit_same_digit_lanes_mask nat_bits_eq)

lemma u32_add_left: "u32 (u32 a + b) = u32 (a + b)"
  by (simp add: u32_def mod_add_left_eq)

lemma u32_add_right: "u32 (a + u32 b) = u32 (a + b)"
  by (simp add: u32_def mod_add_right_eq)

lemma u32_u32: "u32 (u32 a) = u32 a"
  by (simp add: u32_def)

lemma lane_count_zero_iff:
  "lane_count n in_range digit d = 0 \<longleftrightarrow> \<not> (\<exists>l<n. in_range l \<and> digit l = d)"
  by (auto simp: lane_count_def filter_empty_conv)

definition lane_step ::
  "template_params \<Rightarrow> (nat \<Rightarrow> bool) \<Rightarrow> (nat \<Rightarrow> nat) \<Rightarrow> nat \<Rightarrow> nat list \<Rightarrow> nat list" where
  "lane_step P in_range digit lane_id counts =
     (if lane_count lane_id in_range digit (digit lane_id) = 0
      then counts[digit lane_id :=
             u32 (counts ! digit lane_id + lane_count (warp_size P) in_range digit (digit lane_id))]
      else counts)"

lemma warp_count_digits_fold:
  assumes "warp_size P \<le> 64" "\<And>l. l < warp_size P \<Longrightarrow> digit l < 2 ^ RadixBits P"
  shows "warp_count_digits P in_range digit counts
         = fold (lane_step P in_range digit) [0..<warp_size P] counts"
  unfolding warp_count_digits_def
  by (rule fold_cong)
    (auto simp: lane_step_def Let_def bit_count_mask [OF assms] masked_bit_count_mask [OF assms])

lemma length_lane_step: "length (lane_step P in_range digit l counts) = length counts"
  by (simp add: lane_step_def)

lemma length_fold_lane_step:
  "length (fold (lane_step P in_range digit) ls counts) = length counts"
  by (induction ls arbitrary: counts) (simp_all add: length_lane_step)

lemma lane_steps_inv:
  assumes pre: "\<And>l l'. in_range l \<Longrightarrow> l' \<le> l \<Longrightarrow> in_range l'"
    and d: "d < length counts"
  shows "u32 (fold (lane_step P in_range digit) [0..<n] counts ! d)
       = u32 (counts ! d + (if \<exists>l<n. in_range l \<and> digit l = d
                            then lane_count (warp_size P) in_range digit d else 0))"
proof (induction n)
  case 0
  then show ?case by simp
next
  case (Suc n)
  let ?c = "fold (lane_step P in_range digit) [0..<n] counts"
  let ?tot = "lane_count (warp_size P) in_range digit"
  have len: "length ?c = length counts" by (rule length_fold_lane_step)
  have step: "fold (lane_step P in_range digit) [0..<Suc n] counts
              = lane_step P in_range digit n ?c" by simp
  show ?case
  proof (cases "digit n = d")
    case False
    then have "lane_step P in_range digit n ?c ! d = ?c ! d"
      by (simp add: lane_step_def)
    moreover have "(\<exists>l<Suc n. in_range l \<and> digit l = d) \<longleftrightarrow> (\<exists>l<n. in_range l \<and> digit l = d)"
      using False by (auto simp: less_Suc_eq)
    ultimately show ?thesis using Suc.IH by (simp only: step)
  next
    case True
    show ?thesis
    proof (cases "\<exists>l<n. in_range l \<and> digit l = d")
      case seen: True
      then have "lane_count n in_range digit (digit n) \<noteq> 0"
        using True by (simp add: lane_count_zero_iff)
      then have "lane_step P in_range digit n ?c = ?c" by (simp add: lane_step_def)
      moreover have "\<exists>l<Suc n. in_range l \<and> digit l = d" using seen less_SucI by blast
      ultimately show ?thesis using Suc.IH seen by (simp only: step if_True)
    next
      case unseen: False
      then have z: "lane_count n in_range digit (digit n) = 0"
        using True by (simp add: lane_count_zero_iff)
      have "lane_step P in_range digit n ?c ! d = u32 (?c ! d + ?tot d)"
        using z True d len by (simp add: lane_step_def)
      then have "u32 (lane_step P in_range digit n ?c ! d) = u32 (u32 (?c ! d) + ?tot d)"
        by (simp add: u32_u32 u32_add_left)
      also have "u32 (?c ! d) = u32 (counts ! d)" using Suc.IH unseen by simp
      finally have val: "u32 (lane_step P in_range digit n ?c ! d) = u32 (counts ! d + ?tot d)"
        by (simp add: u32_add_left)
      show ?thesis
      proof (cases "in_range n")
        case True
        then have "\<exists>l<Suc n. in_range l \<and> digit l = d" using \<open>digit n = d\<close> by blast
        then show ?thesis using val by (simp only: step if_True)
      next
        case False
        have no: "\<not> (\<exists>l. in_range l \<and> digit l = d)"
        proof
          assume "\<exists>l. in_range l \<and> digit l = d"
          then obtain l where l: "in_range l" "digit l = d" by blast
          have "l < n" using pre [OF l(1), of n] False by (meson not_le_imp_less)
          then show False using unseen l by blast
        qed
        then have "?tot d = 0" by (simp add: lane_count_zero_iff)
        moreover have "\<not> (\<exists>l<Suc n. in_range l \<and> digit l = d)" using no by blast
        ultimately show ?thesis using val by (simp only: step if_False)
      qed
    qed
  qed
qed

lemma warp_count_digits_nth:
  assumes "warp_size P \<le> 64"
    and "\<And>l. l < warp_size P \<Longrightarrow> digit l < 2 ^ RadixBits P"
    and "\<And>l l'. in_range l \<Longrightarrow> l' \<le> l \<Longrightarrow> in_range l'"
    and "d < length counts"
  shows "u32 (warp_count_digits P in_range digit counts ! d)
         = u32 (counts ! d + lane_count (warp_size P) in_range digit d)"
proof -
  have "lane_count (warp_size P) in_range digit d = 0"
    if "\<not> (\<exists>l<warp_size P. in_range l \<and> digit l = d)"
    using that by (simp add: lane_count_zero_iff)
  then show ?thesis
    using lane_steps_inv [of in_range d counts P digit "warp_size P", OF assms(3,4)]
    by (auto simp: warp_count_digits_fold [OF assms(1,2)])
qed

lemma length_warp_count_digits:
  assumes "warp_size P \<le> 64"
    and "\<And>l. l < warp_size P \<Longrightarrow> digit l < 2 ^ RadixBits P"
  shows "length (warp_count_digits P in_range digit counts) = length counts"
  by (simp add: warp_count_digits_fold [OF assms] length_fold_lane_step)

section \<open>The histogram of a batch\<close>

lemma radix_mask_eq: "n < 32 \<Longrightarrow> radix_mask n = 2 ^ n - 1"
proof -
  assume n: "n < 32"
  have "(2::nat) ^ n < 2 ^ 32" using n by (intro power_strict_increasing) auto
  then have lt: "(2::nat) ^ n < 4294967296" by simp
  then show ?thesis by (simp add: radix_mask_def u32_id u32_sub_eq)
qed

lemma digit_of_eq:
  "crb < 32 \<Longrightarrow> digit_of b crb k = (unat k div 2 ^ b) mod 2 ^ crb"
proof -
  assume c: "crb < 32"
  have a: "x AND (2 ^ crb - 1) = x mod 2 ^ crb" for x :: nat
    by (metis mask_eq_exp_minus_1 take_bit_eq_mask take_bit_eq_mod)
  have "unat (drop_bit b k) = unat k div 2 ^ b"
    by (metis unat_drop_bit_eq drop_bit_eq_div)
  then show ?thesis unfolding digit_of_def radix_mask_eq [OF c] a by simp
qed

lemma digit_of_less:
  assumes "crb < 32" "crb \<le> n"
  shows "digit_of b crb k < 2 ^ n"
proof -
  have "digit_of b crb k < 2 ^ crb" using assms(1) by (simp add: digit_of_eq)
  also have "(2::nat) ^ crb \<le> 2 ^ n" using assms(2) by (intro power_increasing) auto
  finally show ?thesis .
qed

lemma length_filter_shift:
  "length (filter f [k..<k + b]) = length (filter (\<lambda>j. f (k + j)) [0..<b])"
proof -
  have "map (\<lambda>j. j + k) [0..<b] = [k..<b + k]" by (rule map_add_upt)
  then have "[k..<k + b] = map (\<lambda>j. k + j) [0..<b]"
    by (simp only: add.commute [of k])
  then show ?thesis by (simp only: filter_map comp_def length_map)
qed

lemma length_filter_blocks:
  "length (filter f [0..<a * b]) = sum_list (map (\<lambda>i. length (filter (\<lambda>j. f (i * b + j)) [0..<b])) [0..<a])"
proof (induction a)
  case 0
  then show ?case by simp
next
  case (Suc a)
  have "[0..<a * b + b] = [0..<a * b] @ [a * b..<a * b + b]"
    by (rule upt_add_eq_append) simp
  moreover have "Suc a * b = a * b + b" by simp
  ultimately have "[0..<Suc a * b] = [0..<a * b] @ [a * b..<a * b + b]" by (simp only:)
  then show ?case using Suc by (simp add: length_filter_shift del: mult_Suc)
qed

definition params_ok :: "template_params \<Rightarrow> bool" where
  "params_ok P \<longleftrightarrow>
     0 < warp_size P \<and> warp_size P \<le> 64 \<and> warp_size P dvd BlockSize P \<and>
     RadixBits P < 32 \<and> radix_size P \<le> BlockSize P \<and> 0 < ItemsPerThread P"

lemma lane_count_cong:
  "(\<And>l. l < n \<Longrightarrow> r l \<Longrightarrow> dg l = dg' l) \<Longrightarrow> lane_count n r dg d = lane_count n r dg' d"
  unfolding lane_count_def by (intro filter_upt_cong_len) auto

definition item_step :: "template_params \<Rightarrow> nat regs \<Rightarrow> nat \<Rightarrow> nat \<Rightarrow> nat list list \<Rightarrow> nat list list" where
  "item_step P digits valid_count i st =
     map (\<lambda>warp_id.
            warp_count_digits P
              (\<lambda>l. i * BlockSize P + (warp_id * warp_size P + l) < valid_count)
              (\<lambda>l. digits (warp_id * warp_size P + l) i)
              (st ! warp_id))
       [0..<warps_no P]"

lemma count_block_fold:
  "count_block P digits vc storage = fold (item_step P digits vc) [0..<ItemsPerThread P] storage"
  by (simp add: count_block_def item_step_def [abs_def])

lemma item_steps_inv:
  assumes ok: "params_ok P"
    and dg: "\<And>t i. digits t i < 2 ^ RadixBits P"
    and len: "length storage = warps_no P"
    and w: "w < warps_no P" and d: "d < length (storage ! w)"
  shows "length (fold (item_step P digits vc) [0..<n] storage) = warps_no P \<and>
         length (fold (item_step P digits vc) [0..<n] storage ! w) = length (storage ! w) \<and>
         u32 (fold (item_step P digits vc) [0..<n] storage ! w ! d)
         = u32 (storage ! w ! d +
             sum_list (map (\<lambda>i. lane_count (warp_size P)
                              (\<lambda>l. i * BlockSize P + (w * warp_size P + l) < vc)
                              (\<lambda>l. digits (w * warp_size P + l) i) d) [0..<n]))"
proof (induction n)
  case 0
  then show ?case using len by simp
next
  case (Suc n)
  let ?st = "fold (item_step P digits vc) [0..<n] storage"
  let ?r = "\<lambda>l. n * BlockSize P + (w * warp_size P + l) < vc"
  let ?dg = "\<lambda>l. digits (w * warp_size P + l) n"
  have ws: "warp_size P \<le> 64" using ok by (simp add: params_ok_def)
  have step: "fold (item_step P digits vc) [0..<Suc n] storage ! w
              = warp_count_digits P ?r ?dg (?st ! w)"
    using w by (simp add: item_step_def)
  have l1: "length (fold (item_step P digits vc) [0..<Suc n] storage) = warps_no P"
    by (simp add: item_step_def)
  have l2: "length (warp_count_digits P ?r ?dg (?st ! w)) = length (storage ! w)"
    using Suc by (simp add: length_warp_count_digits [OF ws dg])
  have "u32 (warp_count_digits P ?r ?dg (?st ! w) ! d)
        = u32 (?st ! w ! d + lane_count (warp_size P) ?r ?dg d)"
    using Suc d by (intro warp_count_digits_nth [OF ws dg]) auto
  also have "\<dots> = u32 (u32 (?st ! w ! d) + lane_count (warp_size P) ?r ?dg d)"
    by (simp add: u32_add_left)
  also have "\<dots> = u32 (storage ! w ! d +
             sum_list (map (\<lambda>i. lane_count (warp_size P)
                              (\<lambda>l. i * BlockSize P + (w * warp_size P + l) < vc)
                              (\<lambda>l. digits (w * warp_size P + l) i) d) [0..<Suc n]))"
    using Suc by (simp add: u32_add_left add.assoc)
  finally show ?case using l1 l2 by (simp only: step)
qed

lemma count_block_nth:
  assumes "params_ok P" "\<And>t i. digits t i < 2 ^ RadixBits P"
    "length storage = warps_no P" "w < warps_no P" "d < length (storage ! w)"
  shows "length (count_block P digits vc storage) = warps_no P"
    and "length (count_block P digits vc storage ! w) = length (storage ! w)"
    and "u32 (count_block P digits vc storage ! w ! d)
         = u32 (storage ! w ! d +
             sum_list (map (\<lambda>i. lane_count (warp_size P)
                              (\<lambda>l. i * BlockSize P + (w * warp_size P + l) < vc)
                              (\<lambda>l. digits (w * warp_size P + l) i) d) [0..<ItemsPerThread P]))"
  using item_steps_inv [OF assms, where vc = vc and n = "ItemsPerThread P"] by (simp_all add: count_block_fold)

text \<open>The fold that adds the counters of the warps.\<close>

lemma fold_u32_sum:
  "u32 (fold (\<lambda>w acc. u32 (acc + f w)) ws a) = u32 (a + sum_list (map f ws))"
  by (induction ws arbitrary: a) (simp_all add: u32_u32 u32_add_left add.assoc)

lemma fold_u32_sum_eq:
  "fold (\<lambda>w acc. u32 (acc + f w)) ws 0 = (if ws = [] then 0 else u32 (sum_list (map f ws)))"
proof (cases ws rule: rev_cases)
  case Nil
  then show ?thesis by simp
next
  case (snoc ys y)
  have "fold (\<lambda>w acc. u32 (acc + f w)) ws 0 = u32 (fold (\<lambda>w acc. u32 (acc + f w)) ws 0)"
    by (simp add: snoc u32_u32)
  then show ?thesis using fold_u32_sum [of f ws 0] snoc by simp
qed

lemma sum_list_upt_swap:
  fixes f :: "nat \<Rightarrow> nat \<Rightarrow> nat"
  shows "sum_list (map (\<lambda>i. sum_list (map (\<lambda>j. f i j) [0..<m])) [0..<n])
   = sum_list (map (\<lambda>j. sum_list (map (\<lambda>i. f i j) [0..<n])) [0..<m])"
proof -
  have "sum_list (map (\<lambda>i. sum_list (map (\<lambda>j. f i j) [0..<m])) [0..<n])
        = (\<Sum>i = 0..<n. \<Sum>j = 0..<m. f i j)"
    by (simp add: interv_sum_list_conv_sum_set_nat)
  also have "\<dots> = (\<Sum>j = 0..<m. \<Sum>i = 0..<n. f i j)" by (rule sum.swap)
  also have "\<dots> = sum_list (map (\<lambda>j. sum_list (map (\<lambda>i. f i j) [0..<n])) [0..<m])"
    by (simp add: interv_sum_list_conv_sum_set_nat)
  finally show ?thesis .
qed

lemma u32_sum_list_cong:
  "(\<And>x. x \<in> set xs \<Longrightarrow> u32 (f x) = u32 (g x)) \<Longrightarrow>
   u32 (sum_list (map f xs)) = u32 (sum_list (map g xs))"
proof (induction xs)
  case Nil
  then show ?case by simp
next
  case (Cons x xs)
  have "u32 (f x + sum_list (map f xs)) = u32 (u32 (f x) + u32 (sum_list (map f xs)))"
    by (simp add: u32_add_left u32_add_right)
  also have "\<dots> = u32 (u32 (g x) + u32 (sum_list (map g xs)))"
    using Cons by simp
  also have "\<dots> = u32 (g x + sum_list (map g xs))"
    by (simp add: u32_add_left u32_add_right)
  finally show ?case by simp
qed

text \<open>The digit of the key at a position of the input.\<close>

definition key_digit :: "('k, 'w::len word) codec \<Rightarrow> 'k list \<Rightarrow> nat \<Rightarrow> nat \<Rightarrow> nat \<Rightarrow> nat" where
  "key_digit C keys b crb g = digit_of b crb (encode C (keys ! g))"

text \<open>What one warp adds for one tile and one digit.\<close>

definition warp_tile_count ::
  "template_params \<Rightarrow> (nat \<Rightarrow> nat) \<Rightarrow> nat \<times> nat \<Rightarrow> nat \<Rightarrow> nat \<Rightarrow> nat" where
  "warp_tile_count P kd tile w d =
     sum_list (map (\<lambda>i. length (filter
        (\<lambda>l. i * BlockSize P + (w * warp_size P + l) < snd tile \<and>
             kd (fst tile + (i * BlockSize P + (w * warp_size P + l))) = d)
        [0..<warp_size P])) [0..<ItemsPerThread P])"

lemma warps_no_mult: "params_ok P \<Longrightarrow> warps_no P * warp_size P = BlockSize P"
  by (simp add: params_ok_def warps_no_def)

lemma tile_count_sum:
  assumes ok: "params_ok P" and vc: "snd tile \<le> items_per_block P"
  shows "sum_list (map (\<lambda>w. warp_tile_count P kd tile w d) [0..<warps_no P])
         = length (filter (\<lambda>g. kd g = d) (tile_items tile))"
proof -
  let ?f = "\<lambda>p. p < snd tile \<and> kd (fst tile + p) = d"
  have "sum_list (map (\<lambda>w. warp_tile_count P kd tile w d) [0..<warps_no P])
      = sum_list (map (\<lambda>i. sum_list (map (\<lambda>w. length (filter
           (\<lambda>l. ?f (i * BlockSize P + (w * warp_size P + l))) [0..<warp_size P]))
           [0..<warps_no P])) [0..<ItemsPerThread P])"
    unfolding warp_tile_count_def by (rule sum_list_upt_swap)
  also have "\<dots> = sum_list (map (\<lambda>i. length (filter (\<lambda>j. ?f (i * BlockSize P + j))
           [0..<BlockSize P])) [0..<ItemsPerThread P])"
  proof -
    have "sum_list (map (\<lambda>w. length (filter
           (\<lambda>l. ?f (i * BlockSize P + (w * warp_size P + l))) [0..<warp_size P]))
           [0..<warps_no P])
        = length (filter (\<lambda>j. ?f (i * BlockSize P + j)) [0..<BlockSize P])" for i
      using length_filter_blocks [of "\<lambda>j. ?f (i * BlockSize P + j)" "warps_no P" "warp_size P"]
      unfolding warps_no_mult [OF ok] by (rule sym)
    then show ?thesis by (simp only:)
  qed
  also have "\<dots> = length (filter ?f [0..<ItemsPerThread P * BlockSize P])"
    by (rule length_filter_blocks [symmetric])
  also have "\<dots> = length (filter (\<lambda>p. kd (fst tile + p) = d) [0..<snd tile])"
  proof -
    have "ItemsPerThread P * BlockSize P = items_per_block P"
      by (simp add: items_per_block_def)
    moreover have "[0..<items_per_block P] = [0..<snd tile] @ [snd tile..<items_per_block P]"
      using upt_add_eq_append [of 0 "snd tile" "items_per_block P - snd tile"] vc by simp
    moreover have "filter ?f [snd tile..<items_per_block P] = []" by (simp add: filter_empty_conv)
    moreover have "filter ?f [0..<snd tile] = filter (\<lambda>p. kd (fst tile + p) = d) [0..<snd tile]"
      by (rule filter_cong) auto
    ultimately show ?thesis by (simp only: filter_append append_Nil2)
  qed
  also have "\<dots> = length (filter (\<lambda>g. kd g = d) (tile_items tile))"
    unfolding tile_items_def by (rule length_filter_shift [symmetric])
  finally show ?thesis .
qed

definition tile_step ::
  "template_params \<Rightarrow> ('k, 'w::len word) codec \<Rightarrow> 'k list \<Rightarrow> (nat \<Rightarrow> 'k) \<Rightarrow> nat \<Rightarrow> nat \<Rightarrow>
   nat \<times> nat \<Rightarrow> nat list list \<Rightarrow> nat list list" where
  "tile_step P C keys uninit b crb tile st =
     count_block P
       (\<lambda>flat_id i. digit_of b crb (encode C
          (block_load_direct_striped P (\<lambda>p. keys ! (fst tile + p))
             (\<lambda>flat_id i. uninit (fst tile + (i * BlockSize P + flat_id))) (snd tile) flat_id i)))
       (snd tile) st"

definition batch_row ::
  "template_params \<Rightarrow> ('k, 'w::len word) codec \<Rightarrow> 'k list \<Rightarrow> (nat \<Rightarrow> 'k) \<Rightarrow> nat \<Rightarrow> nat \<Rightarrow>
   (nat \<times> nat) list \<Rightarrow> nat \<Rightarrow> nat" where
  "batch_row P C keys uninit b crb tiles d =
     fold (\<lambda>w digit_count. u32 (digit_count +
             fold (tile_step P C keys uninit b crb) tiles
               (replicate (warps_no P) (replicate (radix_size P) 0)) ! w ! d))
       [0..<warps_no P] 0"

lemma fill_digit_counts_eq:
  "fill_digit_counts P C keys uninit size' table b crb bfb fb batch_id =
     fold (\<lambda>flat_id table.
             if flat_id < radix_size P
             then table[batch_id * radix_size P + flat_id :=
                    batch_row P C keys uninit b crb
                      (batch_tiles (items_per_block P) size' bfb fb batch_id) flat_id]
             else table)
       [0..<BlockSize P] table"
  unfolding fill_digit_counts_def batch_row_def tile_step_def [abs_def] Let_def case_prod_unfold
  by (rule refl)

lemma tile_step_nth:
  assumes ok: "params_ok P" and crb: "crb \<le> RadixBits P"
    and len: "length st = warps_no P" and w: "w < warps_no P" and d: "d < length (st ! w)"
  shows "length (tile_step P C keys uninit b crb tile st) = warps_no P"
    and "length (tile_step P C keys uninit b crb tile st ! w) = length (st ! w)"
    and "u32 (tile_step P C keys uninit b crb tile st ! w ! d)
         = u32 (st ! w ! d + warp_tile_count P (key_digit C keys b crb) tile w d)"
proof -
  let ?dg = "\<lambda>flat_id i. digit_of b crb (encode C
          (block_load_direct_striped P (\<lambda>p. keys ! (fst tile + p))
             (\<lambda>flat_id i. uninit (fst tile + (i * BlockSize P + flat_id))) (snd tile) flat_id i))"
  have c32: "crb < 32" using ok crb by (simp add: params_ok_def)
  have dg: "?dg t i < 2 ^ RadixBits P" for t i
    using c32 crb by (rule digit_of_less)
  note cb = count_block_nth [of P ?dg, OF ok dg len w d]
  show "length (tile_step P C keys uninit b crb tile st) = warps_no P"
    unfolding tile_step_def by (rule cb(1))
  show "length (tile_step P C keys uninit b crb tile st ! w) = length (st ! w)"
    unfolding tile_step_def by (rule cb(2))
  have "lane_count (warp_size P) (\<lambda>l. i * BlockSize P + (w * warp_size P + l) < snd tile)
          (\<lambda>l. ?dg (w * warp_size P + l) i) d
        = length (filter
        (\<lambda>l. i * BlockSize P + (w * warp_size P + l) < snd tile \<and>
             key_digit C keys b crb (fst tile + (i * BlockSize P + (w * warp_size P + l))) = d)
        [0..<warp_size P])" for i
    unfolding lane_count_def
    by (intro filter_upt_cong_len) (auto simp: block_load_direct_striped_def key_digit_def)
  then show "u32 (tile_step P C keys uninit b crb tile st ! w ! d)
         = u32 (st ! w ! d + warp_tile_count P (key_digit C keys b crb) tile w d)"
    unfolding tile_step_def warp_tile_count_def using cb(3) [of "snd tile"] by simp
qed

lemma tiles_fold_inv:
  assumes ok: "params_ok P" and crb: "crb \<le> RadixBits P"
    and w: "w < warps_no P"
  shows "length st = warps_no P \<Longrightarrow> d < length (st ! w) \<Longrightarrow>
     length (fold (tile_step P C keys uninit b crb) tiles st) = warps_no P \<and>
     length (fold (tile_step P C keys uninit b crb) tiles st ! w) = length (st ! w) \<and>
     u32 (fold (tile_step P C keys uninit b crb) tiles st ! w ! d)
     = u32 (st ! w ! d +
         sum_list (map (\<lambda>tile. warp_tile_count P (key_digit C keys b crb) tile w d) tiles))"
proof (induction tiles arbitrary: st)
  case Nil
  then show ?case by simp
next
  case (Cons tile tiles)
  let ?st = "tile_step P C keys uninit b crb tile st"
  note ts = tile_step_nth [OF ok crb Cons.prems(1) w Cons.prems(2), of C keys uninit b tile]
  have d': "d < length (?st ! w)" using ts(2) Cons.prems(2) by simp
  note ih = Cons.IH [OF ts(1) d']
  have "u32 (fold (tile_step P C keys uninit b crb) (tile # tiles) st ! w ! d)
        = u32 (u32 (?st ! w ! d) +
            sum_list (map (\<lambda>tile. warp_tile_count P (key_digit C keys b crb) tile w d) tiles))"
    using ih by (simp add: u32_add_left)
  also have "\<dots> = u32 (st ! w ! d +
         sum_list (map (\<lambda>tile. warp_tile_count P (key_digit C keys b crb) tile w d) (tile # tiles)))"
    by (simp add: ts(3) u32_add_left add.assoc)
  finally show ?case using ih ts(2) by simp
qed

lemma warps_no_pos: "params_ok P \<Longrightarrow> 0 < warps_no P"
proof -
  assume ok: "params_ok P"
  have "0 < radix_size P" by (simp add: radix_size_def)
  then have "0 < BlockSize P" using ok by (simp add: params_ok_def)
  then show ?thesis using warps_no_mult [OF ok] by (cases "warps_no P") auto
qed

lemma sum_list_map_swap:
  fixes f :: "'a \<Rightarrow> 'b \<Rightarrow> nat"
  shows "sum_list (map (\<lambda>x. sum_list (map (f x) ys)) xs)
         = sum_list (map (\<lambda>y. sum_list (map (\<lambda>x. f x y) xs)) ys)"
  by (induction xs) (simp_all add: sum_list_addf)

lemma batch_row_eq:
  assumes ok: "params_ok P" and crb: "crb \<le> RadixBits P"
    and vc: "\<And>tile. tile \<in> set tiles \<Longrightarrow> snd tile \<le> items_per_block P"
    and d: "d < radix_size P"
  shows "batch_row P C keys uninit b crb tiles d
         = u32 (length (filter (\<lambda>g. key_digit C keys b crb g = d) (concat (map tile_items tiles))))"
proof -
  let ?init = "replicate (warps_no P) (replicate (radix_size P) (0::nat))"
  let ?st = "fold (tile_step P C keys uninit b crb) tiles ?init"
  let ?kd = "key_digit C keys b crb"
  have ne: "[0..<warps_no P] \<noteq> []" using warps_no_pos [OF ok] by simp
  have inv: "u32 (?st ! w ! d) = u32 (sum_list (map (\<lambda>tile. warp_tile_count P ?kd tile w d) tiles))"
    if "w < warps_no P" for w
    using tiles_fold_inv [OF ok crb that, where st = ?init and d = d and C = C and keys = keys
        and uninit = uninit and b = b and tiles = tiles] that d by simp
  have "batch_row P C keys uninit b crb tiles d = u32 (sum_list (map (\<lambda>w. ?st ! w ! d) [0..<warps_no P]))"
    unfolding batch_row_def using ne by (simp add: fold_u32_sum_eq)
  also have "\<dots> = u32 (sum_list (map (\<lambda>w. sum_list (map (\<lambda>tile. warp_tile_count P ?kd tile w d) tiles))
                          [0..<warps_no P]))"
    by (rule u32_sum_list_cong) (simp add: inv)
  also have "sum_list (map (\<lambda>w. sum_list (map (\<lambda>tile. warp_tile_count P ?kd tile w d) tiles))
                          [0..<warps_no P])
      = sum_list (map (\<lambda>tile. sum_list (map (\<lambda>w. warp_tile_count P ?kd tile w d) [0..<warps_no P])) tiles)"
    by (rule sum_list_map_swap)
  also have "\<dots> = sum_list (map (\<lambda>tile. length (filter (\<lambda>g. ?kd g = d) (tile_items tile))) tiles)"
    by (intro arg_cong [where f = sum_list] map_cong refl tile_count_sum [OF ok] vc)
  also have "\<dots> = length (filter (\<lambda>g. ?kd g = d) (concat (map tile_items tiles)))"
    by (induction tiles) simp_all
  finally show ?thesis .
qed

text \<open>The threads \<open>flat_id < m\<close> of a block write one entry each.\<close>

lemma length_guarded_updates:
  "length (fold (\<lambda>j t. if j < m then t[k + j := v j] else t) js t) = length t"
  by (induction js arbitrary: t) simp_all

lemma guarded_updates:
  "x < length t \<Longrightarrow>
   fold (\<lambda>j t. if j < m then t[k + j := v j] else t) [0..<n] t ! x
   = (if k \<le> x \<and> x - k < min m n then v (x - k) else t ! x)"
proof (induction n)
  case 0
  then show ?case by simp
next
  case (Suc n)
  let ?p = "fold (\<lambda>j t. if j < m then t[k + j := v j] else t) [0..<n] t"
  have ih: "?p ! x = (if k \<le> x \<and> x - k < min m n then v (x - k) else t ! x)"
    using Suc by simp
  have len: "length ?p = length t" by (rule length_guarded_updates)
  show ?case
  proof (cases "n < m")
    case False
    then show ?thesis using ih by (simp add: min_def)
  next
    case True
    show ?thesis
    proof (cases "x = k + n")
      case eq: True
      then show ?thesis using True Suc.prems len by simp
    next
      case neq: False
      then have "(k \<le> x \<and> x - k < min m (Suc n)) \<longleftrightarrow> (k \<le> x \<and> x - k < min m n)"
        by auto
      then show ?thesis using True neq ih by simp
    qed
  qed
qed

lemma fill_digit_counts_nth:
  assumes "radix_size P \<le> BlockSize P"
  shows "length (fill_digit_counts P C keys uninit size' table b crb bfb fb batch_id) = length table"
    and "x < length table \<Longrightarrow>
       fill_digit_counts P C keys uninit size' table b crb bfb fb batch_id ! x
       = (if batch_id * radix_size P \<le> x \<and> x < Suc batch_id * radix_size P
          then batch_row P C keys uninit b crb
                 (batch_tiles (items_per_block P) size' bfb fb batch_id) (x - batch_id * radix_size P)
          else table ! x)"
  using assms
    guarded_updates [where m = "radix_size P" and k = "batch_id * radix_size P"
      and v = "batch_row P C keys uninit b crb (batch_tiles (items_per_block P) size' bfb fb batch_id)"
      and n = "BlockSize P" and t = table and x = x]
  by (auto simp: fill_digit_counts_eq min_def length_guarded_updates)

lemma fill_digit_counts_launch_nth:
  assumes rs: "radix_size P \<le> BlockSize P"
    and x: "x < length table"
  shows "length (fill_digit_counts_launch P C keys uninit size' table b crb bfb fb n) = length table \<and>
    fill_digit_counts_launch P C keys uninit size' table b crb bfb fb n ! x
       = (if x < n * radix_size P
          then batch_row P C keys uninit b crb
                 (batch_tiles (items_per_block P) size' bfb fb (x div radix_size P))
                 (x mod radix_size P)
          else table ! x)"
proof (induction n)
  case 0
  then show ?case by (simp add: fill_digit_counts_launch_def)
next
  case (Suc n)
  let ?t = "fill_digit_counts_launch P C keys uninit size' table b crb bfb fb n"
  have step: "fill_digit_counts_launch P C keys uninit size' table b crb bfb fb (Suc n)
        = fill_digit_counts P C keys uninit size' ?t b crb bfb fb n"
    by (simp add: fill_digit_counts_launch_def)
  have pos: "0 < radix_size P" by (simp add: radix_size_def)
  show ?case
  proof (cases "n * radix_size P \<le> x \<and> x < Suc n * radix_size P")
    case True
    then have "x div radix_size P = n"
      by (metis div_nat_eqI mult.commute)
    moreover have "x mod radix_size P = x - n * radix_size P"
      using calculation by (metis minus_mult_div_eq_mod mult.commute)
    ultimately show ?thesis using True Suc x
      by (simp add: step fill_digit_counts_nth [OF rs])
  next
    case False
    then have "x < Suc n * radix_size P \<longleftrightarrow> x < n * radix_size P" by auto
    then show ?thesis using False Suc x
      by (simp add: step fill_digit_counts_nth [OF rs])
  qed
qed

lemma concat_upt_chain_from:
  assumes "\<And>i. f i \<le> f (Suc i)"
  shows "k \<le> n \<Longrightarrow> concat (map (\<lambda>i. [f i ..< f (Suc i)]) [k..<n]) = [f k ..< f n]"
proof (induction n)
  case 0
  then show ?case by simp
next
  case (Suc n)
  show ?case
  proof (cases "k = Suc n")
    case True
    then show ?thesis by simp
  next
    case False
    then have kn: "k \<le> n" using Suc.prems by simp
    have "f k \<le> f n" using assms kn by (rule lift_Suc_mono_le)
    moreover have "f n \<le> f (Suc n)" by (rule assms)
    ultimately have "[f k ..< f n] @ [f n ..< f (Suc n)] = [f k ..< f (Suc n)]"
      by (metis le_Suc_ex upt_add_eq_append)
    moreover have "concat (map (\<lambda>i. [f i..<f (Suc i)]) [k..<n]) = [f k..<f n]"
      using Suc.IH kn by simp
    ultimately show ?thesis using kn by simp
  qed
qed

lemma filter_less_upt: "filter (\<lambda>g. g < s) [a..<c] = [a..<min c s]"
proof (induction c)
  case 0
  then show ?case by simp
next
  case (Suc c)
  show ?case
  proof (cases "Suc c \<le> s")
    case True
    then show ?thesis using Suc by (simp add: min_def)
  next
    case False
    then have "min (Suc c) s = min c s" by (simp add: min_def)
    then show ?thesis using Suc False by simp
  qed
qed

lemma batch_block_offset_plain:
  assumes "launch_ok ipb size' B bfb fb" "b < B"
  shows "batch_block_offset ipb bfb fb b = first_block_plain bfb fb b * ipb"
    and "batch_block_offset ipb bfb fb b + blocks_per_batch bfb fb b * ipb
         = first_block_plain bfb fb (Suc b) * ipb"
proof -
  let ?T = "total_blocks ipb size'"
  have ok: "batching_ok ?T B bfb fb" and pos: "0 < ipb" and sz: "size' + ipb \<le> 4294967296"
    using assms(1) by (simp_all add: launch_ok_def)
  have T: "?T < 4294967296" using assms(1) by (rule launch_ok_total)
  have le0: "first_block_plain bfb fb b \<le> ?T"
    using ok assms(2) by (intro first_block_plain_le_total) auto
  have "first_block_plain bfb fb b * ipb \<le> ?T * ipb" using le0 by (rule mult_le_mono1)
  also have "\<dots> < size' + ipb" using pos by (rule total_blocks_mult_less)
  finally show off: "batch_block_offset ipb bfb fb b = first_block_plain bfb fb b * ipb"
    using sz by (simp add: batch_block_offset_def batch_first_block_plain [OF ok T assms(2)] u32_id)
  have "first_block_plain bfb fb b + blocks_per_batch bfb fb b = first_block_plain bfb fb (Suc b)"
    by (simp only: blocks_per_batch_plain [OF ok T assms(2)] first_block_plain_Suc)
  then show "batch_block_offset ipb bfb fb b + blocks_per_batch bfb fb b * ipb
         = first_block_plain bfb fb (Suc b) * ipb"
    unfolding off by (metis add_mult_distrib)
qed

lemma batch_tiles_valid:
  assumes "launch_ok ipb size' B bfb fb" "b < B" "tile \<in> set (batch_tiles ipb size' bfb fb b)"
  shows "snd tile \<le> ipb"
  using assms(3) unfolding batch_tiles_plain [OF assms(1,2)] by (auto simp: block_tile_def)

lemma batch_items_slice:
  assumes l: "launch_ok ipb size' B bfb fb" and b: "b < B"
  shows "concat (map tile_items (batch_tiles ipb size' bfb fb b))
         = filter (\<lambda>g. g < size')
             [batch_block_offset ipb bfb fb b ..<
              batch_block_offset ipb bfb fb b + blocks_per_batch bfb fb b * ipb]"
proof -
  let ?F = "first_block_plain bfb fb"
  let ?T = "total_blocks ipb size'"
  let ?G = "\<lambda>j. min (j * ipb) size'"
  have ok: "batching_ok ?T B bfb fb" and pos: "0 < ipb"
    using l by (simp_all add: launch_ok_def)
  have le: "?F (Suc b) \<le> ?T" using ok b by (intro first_block_plain_le_total) auto
  have mono: "?F b \<le> ?F (Suc b)" by (intro first_block_plain_mono) simp
  have "concat (map tile_items (batch_tiles ipb size' bfb fb b))
      = concat (map (\<lambda>j. [?G j ..< ?G (Suc j)]) [?F b ..< ?F (Suc b)])"
    unfolding batch_tiles_plain [OF l b] map_map
    using le by (intro arg_cong [where f = concat] map_cong refl)
      (simp add: tile_items_block_tile [OF pos])
  also have "\<dots> = [?G (?F b) ..< ?G (?F (Suc b))]"
    using mono by (intro concat_upt_chain_from) (auto intro: min.mono)
  also have "\<dots> = [?F b * ipb ..< ?G (?F (Suc b))]"
  proof (cases "?F b * ipb \<le> size'")
    case True
    then show ?thesis by (simp add: min_def)
  next
    case False
    then have "size' < ?F b * ipb" by simp
    also have "?F b * ipb \<le> ?F (Suc b) * ipb" using mono by (rule mult_le_mono1)
    finally have "?G (?F (Suc b)) = size'" by simp
    then show ?thesis using False by simp
  qed
  also have "\<dots> = filter (\<lambda>g. g < size') [?F b * ipb ..< ?F (Suc b) * ipb]"
    by (simp only: filter_less_upt)
  finally have main: "concat (map tile_items (batch_tiles ipb size' bfb fb b))
      = filter (\<lambda>g. g < size') [?F b * ipb ..< ?F (Suc b) * ipb]" .
  have e1: "batch_block_offset ipb bfb fb b = ?F b * ipb"
    using l b by (rule batch_block_offset_plain(1))
  have e2: "?F b * ipb + blocks_per_batch bfb fb b * ipb = ?F (Suc b) * ipb"
    using batch_block_offset_plain(2) [OF l b] unfolding e1 .
  show ?thesis unfolding e1 e2 by (rule main)
qed

lemma length_filter_disj:
  "(\<And>x. x \<in> set xs \<Longrightarrow> \<not> (p x \<and> q x)) \<Longrightarrow>
   length (filter p xs) + length (filter q xs) = length (filter (\<lambda>x. p x \<or> q x) xs)"
  by (induction xs) auto

lemma sum_digit_counts:
  "sum_list (map (\<lambda>d. length (filter (\<lambda>x. f x = d) xs)) [0..<n])
   = length (filter (\<lambda>x. f x < n) xs)"
proof (induction n)
  case 0
  then show ?case by simp
next
  case (Suc n)
  have "length (filter (\<lambda>x. f x < n) xs) + length (filter (\<lambda>x. f x = n) xs)
        = length (filter (\<lambda>x. f x < n \<or> f x = n) xs)"
    by (rule length_filter_disj) simp
  also have "\<dots> = length (filter (\<lambda>x. f x < Suc n) xs)"
    by (intro arg_cong [where f = length] filter_cong) auto
  finally show ?case using Suc by simp
qed

lemma batch_count_value:
  assumes ok: "params_ok P"
    and l: "launch_ok (items_per_block P) size' B bfb fb"
    and crb: "crb \<le> RadixBits P"
    and len: "B * radix_size P \<le> length table"
    and b: "batch_id < B" and d: "d < radix_size P"
  shows "fill_digit_counts_launch P C keys uninit size' table bt crb bfb fb B
           ! (batch_id * radix_size P + d)
         = length (filter (\<lambda>g. key_digit C keys bt crb g = d)
             (concat (map tile_items (batch_tiles (items_per_block P) size' bfb fb batch_id))))"
proof -
  let ?x = "batch_id * radix_size P + d"
  let ?items = "concat (map tile_items (batch_tiles (items_per_block P) size' bfb fb batch_id))"
  have rs: "radix_size P \<le> BlockSize P" using ok by (simp add: params_ok_def)
  have "Suc batch_id * radix_size P \<le> B * radix_size P" using b by (intro mult_le_mono1) simp
  then have x: "?x < B * radix_size P" using d by simp
  then have xl: "?x < length table" using len by simp
  have dv: "?x div radix_size P = batch_id" "?x mod radix_size P = d" using d by simp_all
  have "fill_digit_counts_launch P C keys uninit size' table bt crb bfb fb B ! ?x
        = batch_row P C keys uninit bt crb
            (batch_tiles (items_per_block P) size' bfb fb batch_id) d"
    using fill_digit_counts_launch_nth [OF rs xl, of C keys uninit size' bt crb bfb fb B] x
    by (simp only: dv if_True)
  also have "\<dots> = u32 (length (filter (\<lambda>g. key_digit C keys bt crb g = d) ?items))"
    using ok crb batch_tiles_valid [OF l b] d by (rule batch_row_eq)
  also have "\<dots> = length (filter (\<lambda>g. key_digit C keys bt crb g = d) ?items)"
  proof -
    have "length (filter (\<lambda>g. key_digit C keys bt crb g = d) ?items) \<le> length ?items"
      by (rule length_filter_le)
    also have "\<dots> \<le> size'"
      unfolding batch_items_slice [OF l b] filter_less_upt by simp
    also have "\<dots> < 4294967296" using l by (simp add: launch_ok_def)
    finally show ?thesis by (rule u32_id)
  qed
  finally show ?thesis .
qed

lemma concat_map_concat_map:
  "concat (map (\<lambda>b. concat (map f (g b))) xs) = concat (map f (concat (map g xs)))"
  by (induction xs) simp_all

text \<open>
  The histogram in 32-bit range. When \<open>size + items_per_block \<le> 2^32\<close>, after the
  launch of \<^verbatim>\<open>fill_digit_counts\<close> the entry
  \<open>batch_digit_counts[batch_id * radix_size + d]\<close> is the number of positions \<open>g\<close> of the
  slice of the batch, \<open>[block_offset, block_offset + blocks_per_batch * items_per_block)\<close>,
  that lie below \<open>size\<close> and whose encoded key has digit \<open>d\<close> in the window. This
  holds for every content \<open>uninit\<close> of the registers that the partial load of the last
  tile leaves untouched, so positions at or beyond \<open>size\<close> count for no digit. The
  entries of all batches and digits add up to \<open>size\<close>. The launch is as the kernel
  requires it: the warp size divides the block size, \<open>radix_size \<le> BlockSize\<close>, the
  window is no wider than \<open>RadixBits\<close> and lies inside the key, and the batching covers
  the tiles of the input.
\<close>

lemma fill_digit_counts_histogram:
  fixes key_in_codec :: "('k, 'w::len word) codec"
  assumes "params_ok P"
    and "launch_ok (items_per_block P) size' B blocks_per_full_batch full_batches"
    and "current_radix_bits \<le> RadixBits P"
    and "bit' + current_radix_bits \<le> LENGTH('w)"
    and "length keys_input = size'"
    and "B * radix_size P \<le> length batch_digit_counts"
    and "batch_id < B" and "d < radix_size P"
  shows "fill_digit_counts_launch P key_in_codec keys_input uninit size' batch_digit_counts
           bit' current_radix_bits blocks_per_full_batch full_batches B
           ! (batch_id * radix_size P + d)
         = length (filter
             (\<lambda>g. g < size' \<and>
                  digit_of bit' current_radix_bits (encode key_in_codec (keys_input ! g)) = d)
             [batch_block_offset (items_per_block P) blocks_per_full_batch full_batches batch_id ..<
              batch_block_offset (items_per_block P) blocks_per_full_batch full_batches batch_id +
              blocks_per_batch blocks_per_full_batch full_batches batch_id * items_per_block P])
       \<and> sum_list (map (\<lambda>b. sum_list (map (\<lambda>d.
             fill_digit_counts_launch P key_in_codec keys_input uninit size' batch_digit_counts
               bit' current_radix_bits blocks_per_full_batch full_batches B
               ! (b * radix_size P + d)) [0..<radix_size P])) [0..<B])
         = size'"
proof -
  let ?kd = "key_digit key_in_codec keys_input bit' current_radix_bits"
  let ?items = "\<lambda>b. concat (map tile_items
      (batch_tiles (items_per_block P) size' blocks_per_full_batch full_batches b))"
  let ?t = "fill_digit_counts_launch P key_in_codec keys_input uninit size' batch_digit_counts
           bit' current_radix_bits blocks_per_full_batch full_batches B"
  note val = batch_count_value [OF assms(1,2,3,6), where C = key_in_codec and keys = keys_input
      and uninit = uninit and bt = bit']
  have one: "?t ! (batch_id * radix_size P + d) = length (filter
             (\<lambda>g. g < size' \<and>
                  digit_of bit' current_radix_bits (encode key_in_codec (keys_input ! g)) = d)
             [batch_block_offset (items_per_block P) blocks_per_full_batch full_batches batch_id ..<
              batch_block_offset (items_per_block P) blocks_per_full_batch full_batches batch_id +
              blocks_per_batch blocks_per_full_batch full_batches batch_id * items_per_block P])"
    unfolding val [OF assms(7,8)] batch_items_slice [OF assms(2,7)] filter_filter key_digit_def
    by (intro arg_cong [where f = length] filter_cong refl)
  have c32: "current_radix_bits < 32" using assms(1,3) by (simp add: params_ok_def)
  have kd: "?kd g < radix_size P" for g
    unfolding key_digit_def radix_size_def using c32 assms(3) by (rule digit_of_less)
  have row: "sum_list (map (\<lambda>d. ?t ! (b * radix_size P + d)) [0..<radix_size P])
             = length (?items b)" if "b < B" for b
  proof -
    have "sum_list (map (\<lambda>d. ?t ! (b * radix_size P + d)) [0..<radix_size P])
        = sum_list (map (\<lambda>d. length (filter (\<lambda>g. ?kd g = d) (?items b))) [0..<radix_size P])"
      by (intro arg_cong [where f = sum_list] map_cong refl) (simp add: val [OF that])
    also have "\<dots> = length (filter (\<lambda>g. ?kd g < radix_size P) (?items b))"
      by (rule sum_digit_counts)
    finally show ?thesis by (simp add: kd)
  qed
  have "sum_list (map (\<lambda>b. sum_list (map (\<lambda>d. ?t ! (b * radix_size P + d)) [0..<radix_size P]))
          [0..<B])
      = sum_list (map (\<lambda>b. length (?items b)) [0..<B])"
    by (intro arg_cong [where f = sum_list] map_cong refl) (simp add: row)
  also have "\<dots> = length (concat (map ?items [0..<B]))"
    by (simp add: length_concat comp_def)
  also have "concat (map ?items [0..<B])
      = concat (map tile_items (concat (map
          (batch_tiles (items_per_block P) size' blocks_per_full_batch full_batches) [0..<B])))"
    by (rule concat_map_concat_map)
  also have "\<dots> = [0..<size']" using assms(2) by (rule all_batch_items)
  finally show ?thesis using one by simp
qed

lemma fill_digit_counts_histogram_witness:
  "params_ok example_params \<and> launch_ok (items_per_block example_params) 10 2 2 1 \<and>
   (2::nat) \<le> RadixBits example_params \<and> (0::nat) + 2 \<le> LENGTH(4) \<and>
   length example_keys = 10 \<and> 2 * radix_size example_params \<le> length (replicate 8 (0::nat)) \<and>
   (1::nat) < 2 \<and> 3 < radix_size example_params \<and>
   fill_digit_counts_launch example_params example_codec example_keys (\<lambda>_. 15) 10
     (replicate 8 0) 0 2 2 1 2 ! (1 * radix_size example_params + 3) = 1"
proof -
  have p: "params_ok example_params"
    by (simp add: params_ok_def example_params_def radix_size_def)
  have l: "launch_ok (items_per_block example_params) 10 2 2 1"
    by (simp add: launch_ok_def items_per_block_def example_params_def batching_ok_def
          total_blocks_def)
  have r: "(2::nat) \<le> RadixBits example_params" "2 * radix_size example_params \<le> length (replicate 8 (0::nat))"
    "3 < radix_size example_params"
    by (simp_all add: example_params_def radix_size_def)
  have k: "length example_keys = 10" by (simp add: example_keys_def)
  have off: "batch_block_offset (items_per_block example_params) 2 1 1 = 8"
    "blocks_per_batch 2 1 1 * items_per_block example_params = 4"
    by (simp_all add: batch_block_offset_def batch_first_block_def blocks_per_batch_def
        items_per_block_def example_params_def u32_def u32_sub_def)
  have dg: "digit_of 0 2 (15 :: 4 word) = 3" "digit_of 0 2 (5 :: 4 word) = 1"
    by (simp_all add: digit_of_eq)
  have up: "[8..<8 + 4] = [8, 9, 10, 11]" by (simp add: upt_rec)
  have w: "(0::nat) + 2 \<le> LENGTH(4)" and b: "(1::nat) < 2" by simp_all
  note th = fill_digit_counts_histogram [OF p l r(1) w k r(2) b r(3), where key_in_codec = example_codec
      and uninit = "\<lambda>_. 15", THEN conjunct1]
  have rhs: "length (filter
             (\<lambda>g. g < 10 \<and> digit_of 0 2 (encode example_codec (example_keys ! g)) = 3)
             [batch_block_offset (items_per_block example_params) 2 1 1 ..<
              batch_block_offset (items_per_block example_params) 2 1 1 +
              blocks_per_batch 2 1 1 * items_per_block example_params]) = 1"
    unfolding off up by (simp add: example_codec_def example_keys_def dg)
  have "fill_digit_counts_launch example_params example_codec example_keys (\<lambda>_. 15) 10
     (replicate 8 0) 0 2 2 1 2 ! (1 * radix_size example_params + 3) = 1"
    using th rhs by (simp only:)
  then show ?thesis using p l r k by simp
qed

section \<open>The scans of the count table\<close>

lemma fold_shift_upt: "fold (\<lambda>i. f (k + i)) [0..<n] s = fold f [k..<k + n] s"
proof -
  have "map (\<lambda>i. i + k) [0..<n] = [k..<n + k]" by (rule map_add_upt)
  then have "[k..<k + n] = map (\<lambda>i. k + i) [0..<n]" by (simp only: add.commute [of k])
  then show ?thesis by (simp only: fold_map comp_def)
qed

lemma for_threads_blocked:
  "for_threads P (\<lambda>flat_id i. f (flat_id * ItemsPerThread P + i)) s
   = fold f [0..<items_per_block P] s"
proof -
  have "fold (\<lambda>flat_id. fold (\<lambda>i. f (flat_id * ItemsPerThread P + i)) [0..<ItemsPerThread P])
          [0..<n] s = fold f [0..<n * ItemsPerThread P] s" for n
  proof (induction n)
    case 0
    then show ?case by simp
  next
    case (Suc n)
    have "[0..<n * ItemsPerThread P + ItemsPerThread P]
          = [0..<n * ItemsPerThread P] @ [n * ItemsPerThread P..<n * ItemsPerThread P + ItemsPerThread P]"
      by (rule upt_add_eq_append) simp
    moreover have "Suc n * ItemsPerThread P = n * ItemsPerThread P + ItemsPerThread P" by simp
    ultimately have "[0..<Suc n * ItemsPerThread P]
          = [0..<n * ItemsPerThread P] @ [n * ItemsPerThread P..<n * ItemsPerThread P + ItemsPerThread P]"
      by (simp only:)
    then show ?case using Suc by (simp add: fold_shift_upt del: mult_Suc)
  qed
  then show ?thesis by (simp add: for_threads_def items_per_block_def)
qed

lemma blocked_of_rank: "blocked P (\<lambda>flat_id i. g (flat_id * ItemsPerThread P + i)) = map g [0..<items_per_block P]"
  by (simp add: blocked_def)

lemma length_blocked: "length (blocked P x) = items_per_block P"
  by (simp add: blocked_def)

text \<open>Threads that write one entry of a column each.\<close>

lemma length_strided_updates:
  "length (fold (\<lambda>p t. if p < m then t[p * r + d := v p] else t) ps t) = length t"
  by (induction ps arbitrary: t) simp_all

lemma strided_updates:
  assumes "d < r" "x < length t"
  shows "fold (\<lambda>p t. if p < m then t[p * r + d := v p] else t) [0..<n] t ! x
   = (if x mod r = d \<and> x div r < min m n then v (x div r) else t ! x)"
proof (induction n)
  case 0
  then show ?case by simp
next
  case (Suc n)
  let ?p = "fold (\<lambda>p t. if p < m then t[p * r + d := v p] else t) [0..<n] t"
  have len: "length ?p = length t" by (rule length_strided_updates)
  show ?case
  proof (cases "n < m")
    case False
    then show ?thesis using Suc by (simp add: min_def)
  next
    case True
    show ?thesis
    proof (cases "x = n * r + d")
      case eq: True
      then have "x mod r = d" "x div r = n" using assms(1) by simp_all
      then show ?thesis using True eq assms(2) len by simp
    next
      case neq: False
      have "\<not> (x mod r = d \<and> x div r = n)"
      proof
        assume "x mod r = d \<and> x div r = n"
        then have "x = n * r + d" by (metis div_mult_mod_eq)
        then show False using neq by simp
      qed
      then have "(x mod r = d \<and> x div r < min m (Suc n)) \<longleftrightarrow> (x mod r = d \<and> x div r < min m n)"
        by (auto simp: less_Suc_eq)
      then show ?thesis using True neq Suc by simp
    qed
  qed
qed

text \<open>The column of a digit in the table of counts.\<close>

definition column :: "nat \<Rightarrow> nat list \<Rightarrow> nat \<Rightarrow> nat \<Rightarrow> nat list" where
  "column r table d n = map (\<lambda>b. table ! (b * r + d)) [0..<n]"

lemma scan_batches_eq:
  assumes "batches \<le> items_per_block P"
  shows "scan_batches P table totals batches d =
     (fold (\<lambda>p t. if p < batches
                   then t[p * radix_size P + d := u32 (sum_list (column (radix_size P) table d p))]
                   else t) [0..<items_per_block P] table,
      if 0 < BlockSize P
      then totals[d := u32 (sum_list (column (radix_size P) table d batches))] else totals)"
proof -
  let ?g = "\<lambda>p. if p < batches then table ! (p * radix_size P + d) else 0"
  let ?xs = "map ?g [0..<items_per_block P]"
  have bl: "blocked P (\<lambda>flat_id i.
            if flat_id * ItemsPerThread P + i < batches
            then table ! ((flat_id * ItemsPerThread P + i) * radix_size P + d) else 0) = ?xs"
    using blocked_of_rank [of P ?g] by simp
  have tk: "take p ?xs = column (radix_size P) table d p" if "p \<le> batches" for p
    using that assms by (auto simp: take_map column_def intro!: nth_equalityI)
  have "?xs = take batches ?xs @ replicate (items_per_block P - batches) 0"
    using assms by (auto simp: nth_append intro!: nth_equalityI)
  then have "sum_list ?xs = sum_list (take batches ?xs @ replicate (items_per_block P - batches) 0)"
    by (rule arg_cong)
  then have s2: "sum_list ?xs = sum_list (column (radix_size P) table d batches)"
    by (simp only: sum_list_append sum_list_replicate tk [OF order_refl])
  let ?f = "\<lambda>p t. if p < batches
             then t[p * radix_size P + d :=
                    map (\<lambda>p. u32 (sum_list (take p ?xs))) [0..<length ?xs] ! p]
             else t"
  have body: "for_threads P (\<lambda>flat_id i table'.
            if flat_id * ItemsPerThread P + i < batches
            then table'[(flat_id * ItemsPerThread P + i) * radix_size P + d :=
                   unblocked P (map (\<lambda>p. u32 (sum_list (take p ?xs))) [0..<length ?xs]) flat_id i]
            else table') table
      = fold ?f [0..<items_per_block P] table"
    unfolding unblocked_def by (rule for_threads_blocked [of P ?f])
  have fold_eq: "fold (\<lambda>p t. if p < batches
             then t[p * radix_size P + d :=
                    map (\<lambda>p. u32 (sum_list (take p ?xs))) [0..<length ?xs] ! p]
             else t) [0..<items_per_block P] table
      = fold (\<lambda>p t. if p < batches
                   then t[p * radix_size P + d := u32 (sum_list (column (radix_size P) table d p))]
                   else t) [0..<items_per_block P] table"
    by (rule fold_cong) (auto simp: tk)
  show ?thesis
    unfolding scan_batches_def block_exclusive_scan_def Let_def case_prod_conv bl body
      fold_eq s2
    by (rule refl)
qed

definition scanned_table :: "nat \<Rightarrow> nat list \<Rightarrow> nat \<Rightarrow> nat \<Rightarrow> nat list" where
  "scanned_table r table batches n =
     map (\<lambda>x. if x mod r < n \<and> x div r < batches
               then u32 (sum_list (column r table (x mod r) (x div r))) else table ! x)
       [0..<length table]"

definition scanned_totals :: "nat \<Rightarrow> nat list \<Rightarrow> nat list \<Rightarrow> nat \<Rightarrow> nat \<Rightarrow> nat list" where
  "scanned_totals r table totals batches n =
     map (\<lambda>d. if d < n then u32 (sum_list (column r table d batches)) else totals ! d)
       [0..<length totals]"

lemma column_scanned_table:
  assumes "n < r" "p \<le> batches" "batches * r \<le> length table"
  shows "column r (scanned_table r table batches n) n p = column r table n p"
proof -
  have "b * r + n < length table" if "b < p" for b
  proof -
    have "Suc b * r \<le> batches * r" using that assms(2) by (intro mult_le_mono1) simp
    then show ?thesis using assms(1,3) by simp
  qed
  then show ?thesis using assms(1) by (simp add: column_def scanned_table_def)
qed

lemma scan_batches_step:
  assumes bs: "0 < BlockSize P" and b: "batches \<le> items_per_block P"
    and len: "batches * radix_size P \<le> length table"
    and n: "n < radix_size P"
  shows "scan_batches P (scanned_table (radix_size P) table batches n)
           (scanned_totals (radix_size P) table totals batches n) batches n
         = (scanned_table (radix_size P) table batches (Suc n),
            scanned_totals (radix_size P) table totals batches (Suc n))"
proof -
  let ?r = "radix_size P"
  let ?T = "scanned_table ?r table batches n"
  have col: "column ?r ?T n p = column ?r table n p" if "p \<le> batches" for p
    using n that len by (rule column_scanned_table)
  have lT: "length ?T = length table" by (simp add: scanned_table_def)
  have t: "fold (\<lambda>p t. if p < batches
                   then t[p * ?r + n := u32 (sum_list (column ?r ?T n p))]
                   else t) [0..<items_per_block P] ?T
           = scanned_table ?r table batches (Suc n)" (is "?lhs = ?rhs")
  proof (rule nth_equalityI)
    show "length ?lhs = length ?rhs"
      by (simp add: length_strided_updates scanned_table_def)
    fix x assume "x < length ?lhs"
    then have x: "x < length table" by (simp add: length_strided_updates lT)
    have "?lhs ! x = (if x mod ?r = n \<and> x div ?r < min batches (items_per_block P)
                      then u32 (sum_list (column ?r ?T n (x div ?r))) else ?T ! x)"
      using n x lT by (intro strided_updates) simp_all
    also have "\<dots> = (if x mod ?r = n \<and> x div ?r < batches
                      then u32 (sum_list (column ?r table n (x div ?r))) else ?T ! x)"
      using b col [of "x div ?r"] by (auto simp: min_def)
    also have "\<dots> = ?rhs ! x"
      using x by (auto simp: scanned_table_def less_Suc_eq)
    finally show "?lhs ! x = ?rhs ! x" .
  qed
  have d: "(scanned_totals ?r table totals batches n)
             [n := u32 (sum_list (column ?r ?T n batches))]
           = scanned_totals ?r table totals batches (Suc n)"
    unfolding col [OF order_refl]
    by (rule nth_equalityI) (auto simp: scanned_totals_def nth_list_update less_Suc_eq)
  show ?thesis unfolding scan_batches_eq [OF b] t using bs d by simp
qed

lemma scan_batches_launch_eq:
  assumes "0 < BlockSize P" "batches \<le> items_per_block P"
    "batches * radix_size P \<le> length table"
  shows "scan_batches_launch P table totals batches
         = (scanned_table (radix_size P) table batches (radix_size P),
            scanned_totals (radix_size P) table totals batches (radix_size P))"
proof -
  have "n \<le> radix_size P \<Longrightarrow>
        fold (\<lambda>digit (table, totals). scan_batches P table totals batches digit) [0..<n]
          (table, totals)
        = (scanned_table (radix_size P) table batches n,
           scanned_totals (radix_size P) table totals batches n)" for n
  proof (induction n)
    case 0
    show ?case
      by (auto simp: scanned_table_def scanned_totals_def intro!: nth_equalityI)
  next
    case (Suc n)
    then show ?case by (simp add: scan_batches_step [OF assms])
  qed
  then show ?thesis by (simp add: scan_batches_launch_def)
qed

lemma sum_list_column_mono:
  "p \<le> n \<Longrightarrow> sum_list (column r table d p) \<le> sum_list (column r table d n)"
proof -
  assume "p \<le> n"
  then have "[0..<n] = [0..<p] @ [p..<n]"
    by (metis le_add_diff_inverse upt_add_eq_append zero_le)
  then show ?thesis by (simp add: column_def)
qed

text \<open>
  Claim C6. After the launch of \<^verbatim>\<open>scan_batches\<close> with \<open>batches\<close> no larger than
  \<open>BlockSize * ItemsPerThread\<close> of this kernel, the entry \<open>b * radix_size + d\<close> of the
  table is the sum of the entries \<open>b' * radix_size + d\<close>, \<open>b' < b\<close>, that the table held
  before, and \<open>digit_counts[d]\<close> is the sum of the whole column. The entries are
  \<^verbatim>\<open>unsigned int\<close>: the column is taken to add up to less than \<open>2^32\<close>, as the counts
  of stage 1 do.
\<close>

theorem scan_batches_prefix_sums:
  assumes "0 < BlockSize P"
    and "batches \<le> items_per_block P"
    and "batches * radix_size P \<le> length batch_digit_counts"
    and "radix_size P \<le> length digit_counts"
    and "d < radix_size P"
    and "sum_list (map (\<lambda>b'. batch_digit_counts ! (b' * radix_size P + d)) [0..<batches])
         < 4294967296"
  shows "(\<forall>b<batches.
            fst (scan_batches_launch P batch_digit_counts digit_counts batches)
              ! (b * radix_size P + d)
            = sum_list (map (\<lambda>b'. batch_digit_counts ! (b' * radix_size P + d)) [0..<b]))
       \<and> snd (scan_batches_launch P batch_digit_counts digit_counts batches) ! d
         = sum_list (map (\<lambda>b'. batch_digit_counts ! (b' * radix_size P + d)) [0..<batches])"
proof -
  let ?r = "radix_size P"
  note eq = scan_batches_launch_eq [OF assms(1,2,3), of digit_counts]
  have tot: "sum_list (column ?r batch_digit_counts d batches) < 4294967296"
    using assms(6) by (simp add: column_def)
  have "fst (scan_batches_launch P batch_digit_counts digit_counts batches) ! (b * ?r + d)
        = sum_list (map (\<lambda>b'. batch_digit_counts ! (b' * ?r + d)) [0..<b])" if b: "b < batches" for b
  proof -
    have "Suc b * ?r \<le> batches * ?r" using b by (intro mult_le_mono1) simp
    then have x: "b * ?r + d < length batch_digit_counts" using assms(3,5) by simp
    have "sum_list (column ?r batch_digit_counts d b) \<le> sum_list (column ?r batch_digit_counts d batches)"
      using b by (intro sum_list_column_mono) simp
    then have "u32 (sum_list (column ?r batch_digit_counts d b)) = sum_list (column ?r batch_digit_counts d b)"
      using tot by (intro u32_id) simp
    then show ?thesis using x b assms(5)
      by (simp add: eq scanned_table_def) (simp add: column_def)
  qed
  moreover have "snd (scan_batches_launch P batch_digit_counts digit_counts batches) ! d
         = sum_list (map (\<lambda>b'. batch_digit_counts ! (b' * ?r + d)) [0..<batches])"
    using assms(4,5) tot by (simp add: eq scanned_totals_def u32_id) (simp add: column_def)
  ultimately show ?thesis by blast
qed

theorem scan_batches_prefix_sums_witness:
  "0 < BlockSize example_params \<and> 2 \<le> items_per_block example_params \<and>
   2 * radix_size example_params \<le> length [1, 3, 3, 1, 0, 1, 0, 1 :: nat] \<and>
   radix_size example_params \<le> length (replicate 4 (7::nat)) \<and> 1 < radix_size example_params \<and>
   fst (scan_batches_launch example_params [1, 3, 3, 1, 0, 1, 0, 1] (replicate 4 7) 2)
     ! (1 * radix_size example_params + 1) = 3 \<and>
   snd (scan_batches_launch example_params [1, 3, 3, 1, 0, 1, 0, 1] (replicate 4 7) 2) ! 1 = 4"
proof -
  have r: "radix_size example_params = 4" "items_per_block example_params = 4"
    "BlockSize example_params = 4"
    by (simp_all add: radix_size_def items_per_block_def example_params_def)
  have s: "sum_list (map (\<lambda>b'. [1, 3, 3, 1, 0, 1, 0, 1 :: nat] ! (b' * radix_size example_params + 1))
             [0..<2]) = 4"
    "sum_list (map (\<lambda>b'. [1, 3, 3, 1, 0, 1, 0, 1 :: nat] ! (b' * radix_size example_params + 1))
             [0..<1]) = 3"
    by (simp_all add: r numeral_2_eq_2)
  have h: "0 < BlockSize example_params" "2 \<le> items_per_block example_params"
    "2 * radix_size example_params \<le> length [1, 3, 3, 1, 0, 1, 0, 1 :: nat]"
    "radix_size example_params \<le> length (replicate 4 (7::nat))" "1 < radix_size example_params"
    by (simp_all add: r)
  have lt: "sum_list (map (\<lambda>b'. [1, 3, 3, 1, 0, 1, 0, 1 :: nat] ! (b' * radix_size example_params + 1))
             [0..<2]) < 4294967296"
    unfolding s by simp
  note th = scan_batches_prefix_sums [OF h lt]
  have "fst (scan_batches_launch example_params [1, 3, 3, 1, 0, 1, 0, 1] (replicate 4 7) 2)
     ! (1 * radix_size example_params + 1) = 3"
    using th [THEN conjunct1, rule_format, of 1] s(2) by simp
  moreover have "snd (scan_batches_launch example_params [1, 3, 3, 1, 0, 1, 0, 1] (replicate 4 7) 2) ! 1 = 4"
    using th [THEN conjunct2] s(1) by simp
  ultimately show ?thesis using h by simp
qed

lemma scan_digits_nth:
  assumes "d < radix_size P" "radix_size P \<le> length totals"
  shows "scan_digits P totals ! d = u32 (sum_list (map ((!) totals) [0..<d]))"
    and "length (scan_digits P totals) = length totals"
proof -
  let ?v = "\<lambda>flat_id. u32 (sum_list (map ((!) totals) [0..<flat_id]))"
  have eq: "scan_digits P totals
        = fold (\<lambda>j t. if j < radix_size P then t[0 + j := ?v j] else t) [0..<radix_size P] totals"
    unfolding scan_digits_def Let_def block_exclusive_scan_single_def
    by (rule fold_cong) auto
  show "scan_digits P totals ! d = u32 (sum_list (map ((!) totals) [0..<d]))"
    unfolding eq using assms by (subst guarded_updates) auto
  show "length (scan_digits P totals) = length totals"
    unfolding eq by (rule length_guarded_updates)
qed

lemma batch_items_range:
  assumes l: "launch_ok ipb size' B bfb fb" and b: "b < B"
  shows "concat (map tile_items (batch_tiles ipb size' bfb fb b))
         = [min (first_block_plain bfb fb b * ipb) size' ..<
            min (first_block_plain bfb fb (Suc b) * ipb) size']"
proof -
  let ?F = "first_block_plain bfb fb"
  have mono: "?F b \<le> ?F (Suc b)" by (intro first_block_plain_mono) simp
  have "concat (map tile_items (batch_tiles ipb size' bfb fb b))
        = [?F b * ipb ..< min (?F (Suc b) * ipb) size']"
    unfolding batch_items_slice [OF l b] filter_less_upt
      batch_block_offset_plain(2) [OF l b] batch_block_offset_plain(1) [OF l b]
    using batch_block_offset_plain [OF l b] by simp
  also have "\<dots> = [min (?F b * ipb) size' ..< min (?F (Suc b) * ipb) size']"
  proof (cases "?F b * ipb \<le> size'")
    case True
    then show ?thesis by (simp add: min_def)
  next
    case False
    then have "size' < ?F b * ipb" by simp
    also have "?F b * ipb \<le> ?F (Suc b) * ipb" using mono by (rule mult_le_mono1)
    finally have "min (?F (Suc b) * ipb) size' = size'" by simp
    then show ?thesis using False by simp
  qed
  finally show ?thesis .
qed

lemma batches_items_prefix:
  assumes l: "launch_ok ipb size' B bfb fb" and n: "n \<le> B"
  shows "concat (map (\<lambda>b. concat (map tile_items (batch_tiles ipb size' bfb fb b))) [0..<n])
         = [0 ..< min (first_block_plain bfb fb n * ipb) size']"
proof -
  let ?f = "\<lambda>b. min (first_block_plain bfb fb b * ipb) size'"
  have "concat (map (\<lambda>b. concat (map tile_items (batch_tiles ipb size' bfb fb b))) [0..<n])
        = concat (map (\<lambda>b. [?f b ..< ?f (Suc b)]) [0..<n])"
    using n by (intro arg_cong [where f = concat] map_cong refl) (simp add: batch_items_range [OF l])
  also have "\<dots> = [?f 0 ..< ?f n]"
    by (intro concat_upt_chain min.mono mult_le_mono1 first_block_plain_mono) simp_all
  finally show ?thesis by (simp add: first_block_plain_def)
qed

definition scan_ok :: "template_params \<Rightarrow> template_params \<Rightarrow> nat \<Rightarrow> bool" where
  "scan_ok S P batches \<longleftrightarrow>
     RadixBits S = RadixBits P \<and> 0 < BlockSize S \<and> batches \<le> items_per_block S"

lemma length_filter_concat_sum:
  "sum_list (map (\<lambda>b. length (filter p (f b))) bs) = length (filter p (concat (map f bs)))"
  by (induction bs) simp_all

lemma column_counts:
  assumes ok: "params_ok P"
    and l: "launch_ok (items_per_block P) size' B bfb fb"
    and crb: "crb \<le> RadixBits P"
    and len: "B * radix_size P \<le> length table"
    and d: "d < radix_size P" and n: "n \<le> B"
  shows "sum_list (column (radix_size P)
           (fill_digit_counts_launch P C keys uninit size' table bt crb bfb fb B) d n)
         = length (filter (\<lambda>g. key_digit C keys bt crb g = d)
             [0 ..< min (first_block_plain bfb fb n * items_per_block P) size'])"
proof -
  let ?items = "\<lambda>b. concat (map tile_items (batch_tiles (items_per_block P) size' bfb fb b))"
  have "column (radix_size P)
           (fill_digit_counts_launch P C keys uninit size' table bt crb bfb fb B) d n
        = map (\<lambda>b. length (filter (\<lambda>g. key_digit C keys bt crb g = d) (?items b))) [0..<n]"
    unfolding column_def using n
    by (intro map_cong refl) (simp add: batch_count_value [OF ok l crb len _ d])
  then show ?thesis
    by (simp only: length_filter_concat_sum batches_items_prefix [OF l n])
qed

lemma first_block_plain_items:
  assumes "launch_ok ipb size' B bfb fb"
  shows "min (first_block_plain bfb fb B * ipb) size' = size'"
proof -
  have "first_block_plain bfb fb B = total_blocks ipb size'"
    using assms by (intro first_block_plain_total) (simp add: launch_ok_def)
  moreover have "size' \<le> total_blocks ipb size' * ipb"
    using assms by (intro total_blocks_ge) (simp add: launch_ok_def)
  ultimately show ?thesis by simp
qed

lemma size_u32: "launch_ok ipb size' B bfb fb \<Longrightarrow> n \<le> size' \<Longrightarrow> u32 n = n"
  by (rule u32_id) (simp add: launch_ok_def)

lemma length_fill_digit_counts_launch:
  "length (fill_digit_counts_launch P C keys uninit size' table bt crb bfb fb n) = length table"
proof (induction n)
  case 0
  then show ?case by (simp add: fill_digit_counts_launch_def)
next
  case (Suc n)
  then show ?case
    by (simp add: fill_digit_counts_launch_def fill_digit_counts_eq length_guarded_updates)
qed

lemma length_filter_upt_le: "length (filter p [0..<n]) \<le> n"
  using length_filter_le [of p "[0..<n]"] by simp

lemma count_and_scan_eq:
  assumes len: "B * radix_size P \<le> length table" and s: "scan_ok S P B"
  shows "count_and_scan P S C keys uninit size' table totals bt crb bfb fb B
         = (scanned_table (radix_size P)
              (fill_digit_counts_launch P C keys uninit size' table bt crb bfb fb B) B (radix_size P),
            scanned_totals (radix_size P)
              (fill_digit_counts_launch P C keys uninit size' table bt crb bfb fb B) totals B
              (radix_size P),
            scan_digits P (scanned_totals (radix_size P)
              (fill_digit_counts_launch P C keys uninit size' table bt crb bfb fb B) totals B
              (radix_size P)))"
proof -
  have rs: "radix_size S = radix_size P" using s by (simp add: scan_ok_def radix_size_def)
  have "scan_batches_launch S
          (fill_digit_counts_launch P C keys uninit size' table bt crb bfb fb B) totals B
        = (scanned_table (radix_size S)
              (fill_digit_counts_launch P C keys uninit size' table bt crb bfb fb B) B (radix_size S),
           scanned_totals (radix_size S)
              (fill_digit_counts_launch P C keys uninit size' table bt crb bfb fb B) totals B
              (radix_size S))"
    using s len by (intro scan_batches_launch_eq)
      (simp_all add: scan_ok_def rs length_fill_digit_counts_launch)
  then show ?thesis by (simp add: count_and_scan_def rs)
qed

lemma pipeline_tables:
  fixes C :: "('k, 'w::len word) codec"
  assumes ok: "params_ok P"
    and l: "launch_ok (items_per_block P) size' B bfb fb"
    and crb: "crb \<le> RadixBits P"
    and len: "B * radix_size P \<le> length table"
    and lent: "radix_size P \<le> length totals"
    and s: "scan_ok S P B"
    and d: "d < radix_size P"
  shows "snd (snd (count_and_scan P S C keys uninit size' table totals bt crb bfb fb B)) ! d
         = length (filter (\<lambda>g. key_digit C keys bt crb g < d) [0..<size'])"
    and "fst (snd (count_and_scan P S C keys uninit size' table totals bt crb bfb fb B)) ! d
         = length (filter (\<lambda>g. key_digit C keys bt crb g = d) [0..<size'])"
    and "b < B \<Longrightarrow>
         fst (count_and_scan P S C keys uninit size' table totals bt crb bfb fb B)
           ! (b * radix_size P + d)
         = length (filter (\<lambda>g. key_digit C keys bt crb g = d)
             [0 ..< min (first_block_plain bfb fb b * items_per_block P) size'])"
proof -
  let ?r = "radix_size P"
  let ?kd = "key_digit C keys bt crb"
  let ?t1 = "fill_digit_counts_launch P C keys uninit size' table bt crb bfb fb B"
  let ?D = "scanned_totals ?r ?t1 totals B ?r"
  note cs = count_and_scan_eq [OF len s, of C keys uninit size' totals bt crb bfb fb]
  note cc = column_counts [OF ok l crb len, where C = C and keys = keys and uninit = uninit
      and bt = bt]
  have tot: "?D ! e = length (filter (\<lambda>g. ?kd g = e) [0..<size'])" if e: "e < ?r" for e
  proof -
    have "?D ! e = u32 (sum_list (column ?r ?t1 e B))"
      using e lent by (simp add: scanned_totals_def)
    also have "\<dots> = u32 (length (filter (\<lambda>g. ?kd g = e) [0..<size']))"
      by (simp only: cc [OF e order_refl] first_block_plain_items [OF l])
    also have "\<dots> = length (filter (\<lambda>g. ?kd g = e) [0..<size'])"
      using l length_filter_upt_le by (rule size_u32)
    finally show ?thesis .
  qed
  show "fst (snd (count_and_scan P S C keys uninit size' table totals bt crb bfb fb B)) ! d
         = length (filter (\<lambda>g. ?kd g = d) [0..<size'])"
    using tot [OF d] by (simp add: cs)
  have "scan_digits P ?D ! d = u32 (sum_list (map ((!) ?D) [0..<d]))"
    using d lent by (intro scan_digits_nth) (simp_all add: scanned_totals_def)
  also have "map ((!) ?D) [0..<d] = map (\<lambda>e. length (filter (\<lambda>g. ?kd g = e) [0..<size'])) [0..<d]"
    using d by (intro map_cong refl tot) simp
  also have "sum_list \<dots> = length (filter (\<lambda>g. ?kd g < d) [0..<size'])"
    by (rule sum_digit_counts)
  also have "u32 \<dots> = length (filter (\<lambda>g. ?kd g < d) [0..<size'])"
    using l length_filter_upt_le by (rule size_u32)
  finally show "snd (snd (count_and_scan P S C keys uninit size' table totals bt crb bfb fb B)) ! d
         = length (filter (\<lambda>g. ?kd g < d) [0..<size'])"
    by (simp add: cs)
  show "fst (count_and_scan P S C keys uninit size' table totals bt crb bfb fb B)
           ! (b * radix_size P + d)
         = length (filter (\<lambda>g. key_digit C keys bt crb g = d)
             [0 ..< min (first_block_plain bfb fb b * items_per_block P) size'])" if b: "b < B"
  proof -
    let ?m = "min (first_block_plain bfb fb b * items_per_block P) size'"
    have "Suc b * ?r \<le> B * ?r" using b by (intro mult_le_mono1) simp
    then have x: "b * ?r + d < length ?t1"
      using len d by (simp add: length_fill_digit_counts_launch)
    have "scanned_table ?r ?t1 B ?r ! (b * ?r + d) = u32 (sum_list (column ?r ?t1 d b))"
      using x d b by (simp add: scanned_table_def)
    also have "\<dots> = u32 (length (filter (\<lambda>g. ?kd g = d) [0..<?m]))"
      using b by (simp only: cc [OF d less_imp_le])
    also have "\<dots> = length (filter (\<lambda>g. ?kd g = d) [0..<?m])"
    proof (rule size_u32 [OF l])
      have "length (filter (\<lambda>g. ?kd g = d) [0..<?m]) \<le> ?m" by (rule length_filter_upt_le)
      then show "length (filter (\<lambda>g. ?kd g = d) [0..<?m]) \<le> size'" by simp
    qed
    finally show ?thesis by (simp add: cs)
  qed
qed

lemma length_filter_mono:
  "(\<And>x. x \<in> set xs \<Longrightarrow> p x \<Longrightarrow> q x) \<Longrightarrow> length (filter p xs) \<le> length (filter q xs)"
proof (induction xs)
  case Nil
  then show ?case by simp
next
  case (Cons x xs)
  then show ?case by (auto intro: le_SucI)
qed

lemma length_filter_less_Suc:
  "length (filter (\<lambda>x. f x < Suc d) xs)
   = length (filter (\<lambda>x. f x < d) xs) + length (filter (\<lambda>x. f x = (d::nat)) xs)"
  by (induction xs) auto

text \<open>
  The digit ranges in 32-bit range. When \<open>size + items_per_block \<le> 2^32\<close>, with the
  counts of stage 1 scanned by \<^verbatim>\<open>scan_batches\<close> (stage 2) and the totals scanned by
  \<^verbatim>\<open>scan_digits\<close> (stage 3), the ranges
  \<open>[DigitStarts[d], DigitStarts[d] + DigitCounts[d])\<close> of the digits \<open>d < radix_size\<close>,
  taken in the order of the digits, are the indices \<open>0, \<dots>, size - 1\<close>: they are
  pairwise disjoint and their union is \<open>[0, size)\<close>. \<open>DigitCounts\<close> are the totals
  written by stage 2, which stage 3 overwrites with \<open>DigitStarts\<close>.
\<close>

lemma digit_ranges_partition:
  fixes key_in_codec :: "('k, 'w::len word) codec"
  assumes "params_ok P"
    and "launch_ok (items_per_block P) size' B blocks_per_full_batch full_batches"
    and "current_radix_bits \<le> RadixBits P"
    and "bit' + current_radix_bits \<le> LENGTH('w)"
    and "length keys_input = size'"
    and "B * radix_size P \<le> length batch_digit_counts"
    and "radix_size P \<le> length digit_counts"
    and "scan_ok S P B"
  shows "case count_and_scan P S key_in_codec keys_input uninit size' batch_digit_counts
              digit_counts bit' current_radix_bits blocks_per_full_batch full_batches B
         of (batch_digit_starts, DigitCounts, DigitStarts) \<Rightarrow>
           concat (map (\<lambda>d. [DigitStarts ! d ..< DigitStarts ! d + DigitCounts ! d])
             [0..<radix_size P]) = [0..<size']
         \<and> (\<forall>d<radix_size P. \<forall>e<radix_size P. d \<noteq> e \<longrightarrow>
               {DigitStarts ! d ..< DigitStarts ! d + DigitCounts ! d} \<inter>
               {DigitStarts ! e ..< DigitStarts ! e + DigitCounts ! e} = {})
         \<and> (\<Union>d<radix_size P. {DigitStarts ! d ..< DigitStarts ! d + DigitCounts ! d})
             = {0..<size'}"
proof -
  let ?cs = "count_and_scan P S key_in_codec keys_input uninit size' batch_digit_counts
              digit_counts bit' current_radix_bits blocks_per_full_batch full_batches B"
  let ?kd = "key_digit key_in_codec keys_input bit' current_radix_bits"
  let ?L = "\<lambda>d. length (filter (\<lambda>g. ?kd g < d) [0..<size'])"
  let ?ds = "snd (snd ?cs)" and ?dc = "fst (snd ?cs)"
  note pt = pipeline_tables [OF assms(1,2,3,6,7,8), where C = key_in_codec and keys = keys_input
      and uninit = uninit and bt = bit']
  have c32: "current_radix_bits < 32" using assms(1,3) by (simp add: params_ok_def)
  have kd: "?kd g < radix_size P" for g
    unfolding key_digit_def radix_size_def using c32 assms(3) by (rule digit_of_less)
  have rng: "[?ds ! d ..< ?ds ! d + ?dc ! d] = [?L d ..< ?L (Suc d)]" if "d < radix_size P" for d
    by (simp only: pt(1) [OF that] pt(2) [OF that] length_filter_less_Suc)
  have mono: "?L d \<le> ?L e" if "d \<le> e" for d e
    using that by (intro length_filter_mono) simp
  have top: "?L (radix_size P) = size'" by (simp add: kd)
  have "concat (map (\<lambda>d. [?ds ! d ..< ?ds ! d + ?dc ! d]) [0..<radix_size P])
        = concat (map (\<lambda>d. [?L d ..< ?L (Suc d)]) [0..<radix_size P])"
    by (intro arg_cong [where f = concat] map_cong refl) (simp add: rng)
  also have "\<dots> = [?L 0 ..< ?L (radix_size P)]"
    by (intro concat_upt_chain mono) simp
  finally have one: "concat (map (\<lambda>d. [?ds ! d ..< ?ds ! d + ?dc ! d]) [0..<radix_size P])
        = [0..<size']" by (simp add: top)
  have set_rng: "{?ds ! d ..< ?ds ! d + ?dc ! d} = {?L d ..< ?L (Suc d)}" if "d < radix_size P" for d
    using rng [OF that] by (metis atLeastLessThan_upt)
  have disj: "{?L d ..< ?L (Suc d)} \<inter> {?L e ..< ?L (Suc e)} = {}" if "d \<noteq> e" for d e
  proof (cases "d < e")
    case True
    then have "?L (Suc d) \<le> ?L e" by (intro mono) simp
    then show ?thesis by auto
  next
    case False
    then have "?L (Suc e) \<le> ?L d" using that by (intro mono) simp
    then show ?thesis by auto
  qed
  have two: "\<forall>d<radix_size P. \<forall>e<radix_size P. d \<noteq> e \<longrightarrow>
               {?ds ! d ..< ?ds ! d + ?dc ! d} \<inter> {?ds ! e ..< ?ds ! e + ?dc ! e} = {}"
    using disj by (simp add: set_rng)
  have "(\<Union>d<radix_size P. {?ds ! d ..< ?ds ! d + ?dc ! d})
        = set (concat (map (\<lambda>d. [?ds ! d ..< ?ds ! d + ?dc ! d]) [0..<radix_size P]))"
    by auto
  then have three: "(\<Union>d<radix_size P. {?ds ! d ..< ?ds ! d + ?dc ! d}) = {0..<size'}"
    unfolding one by simp
  show ?thesis using one two three by (simp add: case_prod_unfold)
qed

lemma example_params_ok: "params_ok example_params"
  by (simp add: params_ok_def example_params_def radix_size_def)

lemma example_launch_ok: "launch_ok (items_per_block example_params) 10 2 2 1"
  by (simp add: launch_ok_def items_per_block_def example_params_def batching_ok_def
        total_blocks_def)

lemma example_sizes:
  "radix_size example_params = 4" "items_per_block example_params = 4"
  "BlockSize example_params = 4" "RadixBits example_params = 2" "ItemsPerThread example_params = 1"
  "warp_size example_params = 2" "length example_keys = 10"
  by (simp_all add: radix_size_def items_per_block_def example_params_def example_keys_def)

lemma example_scan_ok: "scan_ok example_params example_params 2"
  by (simp add: scan_ok_def example_sizes)

lemma digit_ranges_partition_witness:
  "params_ok example_params \<and> launch_ok (items_per_block example_params) 10 2 2 1 \<and>
   2 \<le> RadixBits example_params \<and> (0::nat) + 2 \<le> LENGTH(4) \<and> length example_keys = 10 \<and>
   2 * radix_size example_params \<le> length (replicate 8 (0::nat)) \<and>
   radix_size example_params \<le> length (replicate 4 (0::nat)) \<and>
   scan_ok example_params example_params 2 \<and>
   (case count_and_scan example_params example_params example_codec example_keys (\<lambda>_. 15) 10
           (replicate 8 0) (replicate 4 0) 0 2 2 1 2
    of (batch_digit_starts, DigitCounts, DigitStarts) \<Rightarrow>
      concat (map (\<lambda>d. [DigitStarts ! d ..< DigitStarts ! d + DigitCounts ! d])
        [0..<radix_size example_params]) = [0..<10]
      \<and> (\<forall>d<radix_size example_params. \<forall>e<radix_size example_params. d \<noteq> e \<longrightarrow>
            {DigitStarts ! d ..< DigitStarts ! d + DigitCounts ! d} \<inter>
            {DigitStarts ! e ..< DigitStarts ! e + DigitCounts ! e} = {})
      \<and> (\<Union>d<radix_size example_params. {DigitStarts ! d ..< DigitStarts ! d + DigitCounts ! d})
          = {0..<10})"
proof -
  have h: "2 \<le> RadixBits example_params" "(0::nat) + 2 \<le> LENGTH(4)" "length example_keys = 10"
    "2 * radix_size example_params \<le> length (replicate 8 (0::nat))"
    "radix_size example_params \<le> length (replicate 4 (0::nat))"
    by (simp_all add: example_sizes)
  show ?thesis
    using digit_ranges_partition [OF example_params_ok example_launch_ok h example_scan_ok,
        of example_codec "\<lambda>_. 15"]
      example_params_ok example_launch_ok h example_scan_ok
    by blast
qed

section \<open>Stable sorting of a tile\<close>

lemma insort_key_map:
  "insort_key f (g x) (map g xs) = map g (insort_key (\<lambda>a. f (g a)) x xs)"
proof (induction xs)
  case Nil
  show ?case by simp
next
  case (Cons a xs)
  show ?case
  proof (cases "f (g x) \<le> f (g a)")
    case True
    then show ?thesis by simp
  next
    case False
    then show ?thesis using Cons by simp
  qed
qed

lemma sort_key_map: "sort_key f (map g xs) = map g (sort_key (\<lambda>a. f (g a)) xs)"
proof (induction xs)
  case Nil
  then show ?case by simp
next
  case (Cons a xs)
  have "sort_key f (map g (a # xs)) = insort_key f (g a) (sort_key f (map g xs))" by simp
  also have "\<dots> = insort_key f (g a) (map g (sort_key (\<lambda>a. f (g a)) xs))"
    by (simp only: Cons)
  also have "\<dots> = map g (insort_key (\<lambda>a. f (g a)) a (sort_key (\<lambda>a. f (g a)) xs))"
    by (rule insort_key_map)
  also have "\<dots> = map g (sort_key (\<lambda>a. f (g a)) (a # xs))" by simp
  finally show ?case .
qed

lemma insort_key_append_max:
  assumes "\<And>y. y \<in> set ys \<Longrightarrow> f x \<le> f y"
  shows "insort_key f x (zs @ ys) = insort_key f x zs @ ys"
proof (induction zs)
  case Nil
  then show ?case using assms by (cases ys) simp_all
next
  case (Cons z zs)
  then show ?case by simp
qed

lemma sort_key_append_max:
  assumes le: "\<And>x y. x \<in> set xs \<Longrightarrow> y \<in> set ys \<Longrightarrow> f x \<le> f y"
    and eq: "\<And>y z. y \<in> set ys \<Longrightarrow> z \<in> set ys \<Longrightarrow> f y = f z"
  shows "sort_key f (xs @ ys) = sort_key f xs @ ys"
proof -
  have ys: "sort_key f ys' = ys'" if "set ys' \<subseteq> set ys" for ys'
    using that
  proof (induction ys')
    case Nil
    show ?case by simp
  next
    case (Cons y ys')
    have ih: "sort_key f ys' = ys'" using Cons by simp
    have "insort_key f y ys' = y # ys'"
    proof (cases ys')
      case Nil
      then show ?thesis by simp
    next
      case (Cons z zs)
      have "f y = f z" using Cons.prems Cons by (intro eq) auto
      then show ?thesis using Cons by simp
    qed
    then show ?case by (simp only: sort_key_simps ih)
  qed
  show ?thesis using le
  proof (induction xs)
    case Nil
    show ?case using ys [of ys] by simp
  next
    case (Cons x xs)
    have ih: "sort_key f (xs @ ys) = sort_key f xs @ ys" using Cons by simp
    have "sort_key f ((x # xs) @ ys) = insort_key f x (sort_key f xs @ ys)"
      by (simp only: append_Cons sort_key_simps ih)
    also have "\<dots> = insort_key f x (sort_key f xs) @ ys"
      using Cons.prems by (intro insort_key_append_max) simp
    finally show ?case by (simp only: sort_key_simps)
  qed
qed

text \<open>In a sorted list of numbers, the positions of a value are an interval.\<close>

lemma sorted_nth_less_iff:
  fixes D :: "nat list"
  assumes "sorted D" "p < length D"
  shows "D ! p < d \<longleftrightarrow> p < length (filter (\<lambda>x. x < d) D)"
  using assms
proof (induction D arbitrary: p)
  case Nil
  then show ?case by simp
next
  case (Cons x xs)
  show ?case
  proof (cases "x < d")
    case True
    then show ?thesis using Cons by (cases p) auto
  next
    case False
    then have "filter (\<lambda>x. x < d) xs = []"
      using Cons.prems(1) by (auto simp: filter_empty_conv)
    moreover have "\<not> (x # xs) ! p < d"
    proof (cases p)
      case 0
      then show ?thesis using False by simp
    next
      case (Suc p')
      then have "xs ! p' \<in> set xs" using Cons.prems(2) by simp
      then have "x \<le> xs ! p'" using Cons.prems(1) by simp
      then show ?thesis using False Suc by simp
    qed
    ultimately show ?thesis using False by simp
  qed
qed

lemma sorted_nth_eq_iff:
  fixes D :: "nat list"
  assumes "sorted D" "p < length D"
  shows "D ! p = d \<longleftrightarrow>
         length (filter (\<lambda>x. x < d) D) \<le> p \<and> p < length (filter (\<lambda>x. x < Suc d) D)"
  using sorted_nth_less_iff [OF assms, of d] sorted_nth_less_iff [OF assms, of "Suc d"]
  by auto

lemma sorted_key_partition:
  fixes f :: "'a \<Rightarrow> nat"
  assumes "sorted (map f xs)"
  shows "xs = filter (\<lambda>x. f x < d) xs @ filter (\<lambda>x. f x = d) xs @ filter (\<lambda>x. d < f x) xs"
  using assms
proof (induction xs)
  case Nil
  then show ?case by simp
next
  case (Cons x xs)
  then have ih: "xs = filter (\<lambda>x. f x < d) xs @ filter (\<lambda>x. f x = d) xs @ filter (\<lambda>x. d < f x) xs"
    by simp
  have ge: "f x \<le> f y" if "y \<in> set xs" for y using Cons.prems that by auto
  consider "f x < d" | "f x = d" | "d < f x" by linarith
  then show ?case
  proof cases
    case 1
    then show ?thesis using ih by simp
  next
    case 2
    have "\<not> f y < d" if "y \<in> set xs" for y using ge [OF that] 2 by simp
    then have "filter (\<lambda>x. f x < d) xs = []" by (simp add: filter_empty_conv)
    then show ?thesis using 2 ih by simp
  next
    case 3
    have "\<not> f y < d" "f y \<noteq> d" if "y \<in> set xs" for y
      using ge [OF that] 3 by simp_all
    then have "filter (\<lambda>x. f x < d) xs = []" "filter (\<lambda>x. f x = d) xs = []"
      by (simp_all add: filter_empty_conv)
    then show ?thesis using 3 ih by simp
  qed
qed

lemma filter_upt_nth:
  assumes "P q" "q < m"
  shows "filter P [0..<m] ! length (filter P [0..<q]) = q"
proof -
  have "[0..<q + (m - q)] = [0..<q] @ [q..<q + (m - q)]" by (rule upt_add_eq_append) simp
  then have "[0..<m] = [0..<q] @ [q..<m]" using assms(2) by simp
  also have "[q..<m] = q # [Suc q..<m]" using assms(2) by (rule upt_conv_Cons)
  finally have "filter P [0..<m] = filter P [0..<q] @ q # filter P [Suc q..<m]"
    using assms(1) by simp
  then show ?thesis by (simp add: nth_append)
qed

text \<open>The rank of an index in the stable sort of the indices by a key.\<close>

definition stable_rank :: "(nat \<Rightarrow> nat) \<Rightarrow> nat \<Rightarrow> nat \<Rightarrow> nat" where
  "stable_rank f m q =
     length (filter (\<lambda>x. f x < f q) [0..<m]) + length (filter (\<lambda>x. f x = f q) [0..<q])"

lemma length_filter_sort_key: "length (filter P (sort_key f xs)) = length (filter P xs)"
  by (simp add: filter_sort)

lemma sort_key_stable_rank:
  fixes f :: "nat \<Rightarrow> nat"
  assumes q: "q < m"
  shows "sort_key f [0..<m] ! stable_rank f m q = q" and "stable_rank f m q < m"
proof -
  let ?I = "sort_key f [0..<m]"
  let ?d = "f q"
  let ?A = "filter (\<lambda>x. f x < ?d) ?I" and ?B = "filter (\<lambda>x. f x = ?d) ?I"
    and ?C = "filter (\<lambda>x. ?d < f x) ?I"
  let ?j = "length (filter (\<lambda>x. f x = ?d) [0..<q])"
  have part: "?I = ?A @ ?B @ ?C"
    by (rule sorted_key_partition) (rule sorted_sort_key)
  have B: "?B = filter (\<lambda>x. f x = ?d) [0..<m]" by (rule sort_key_stable)
  have A: "length ?A = length (filter (\<lambda>x. f x < ?d) [0..<m])" by (rule length_filter_sort_key)
  have "[0..<q + (m - q)] = [0..<q] @ [q..<q + (m - q)]" by (rule upt_add_eq_append) simp
  then have "[0..<m] = [0..<q] @ [q..<m]" using q by simp
  also have "[q..<m] = q # [Suc q..<m]" using q by (rule upt_conv_Cons)
  finally have "?B = filter (\<lambda>x. f x = ?d) [0..<q] @ q # filter (\<lambda>x. f x = ?d) [Suc q..<m]"
    unfolding B by simp
  then have j: "?j < length ?B" and Bj: "?B ! ?j = q"
    by (simp_all add: nth_append)
  have r: "stable_rank f m q = length ?A + ?j" by (simp add: stable_rank_def A)
  have "?I ! (length ?A + ?j) = (?A @ ?B @ ?C) ! (length ?A + ?j)" using part by simp
  also have "\<dots> = ?B ! ?j" using j by (simp add: nth_append)
  finally show "?I ! stable_rank f m q = q" using Bj r by simp
  have "length ?A + ?j < length ?A + length ?B" using j by simp
  also have "\<dots> \<le> length (?A @ ?B @ ?C)" by simp
  also have "\<dots> = length ?I" using part by simp
  finally show "stable_rank f m q < m" using r by simp
qed

lemma sort_key_rank_unique:
  fixes f :: "nat \<Rightarrow> nat"
  assumes "p < m"
  shows "sort_key f [0..<m] ! p < m"
    and "stable_rank f m (sort_key f [0..<m] ! p) = p"
proof -
  let ?I = "sort_key f [0..<m]"
  have "?I ! p \<in> set ?I" using assms by (intro nth_mem) simp
  then show q: "?I ! p < m" by simp
  have d: "distinct ?I" by simp
  have "?I ! stable_rank f m (?I ! p) = ?I ! p" using q by (rule sort_key_stable_rank)
  moreover have "stable_rank f m (?I ! p) < length ?I"
    using sort_key_stable_rank(2) [OF q, of f] by simp
  ultimately show "stable_rank f m (?I ! p) = p"
    using d assms by (simp add: nth_eq_iff_index_eq)
qed

subsection \<open>The sorted tile\<close>

definition window_ok :: "nat \<Rightarrow> nat \<Rightarrow> nat \<Rightarrow> bool" where
  "window_ok key_bits bit' current_radix_bits \<longleftrightarrow>
     bit' + current_radix_bits \<le> key_bits \<and> key_bits < 4294967296"

lemma blocked_unblocked: "length xs = items_per_block P \<Longrightarrow> blocked P (unblocked P xs) = xs"
  by (auto simp: blocked_def unblocked_def intro!: nth_equalityI)

lemma radix_key_digit:
  assumes "bt + crb < 4294967296" "crb < 32"
  shows "radix_key bt (u32 (bt + crb)) k = digit_of bt crb k"
proof -
  have "u32 (bt + crb) - bt = crb" using assms(1) by (simp add: u32_id)
  moreover have "x AND (2 ^ crb - 1) = take_bit crb x" for x :: nat
    by (metis mask_eq_exp_minus_1 take_bit_eq_mask)
  ultimately show ?thesis
    by (simp add: radix_key_def digit_of_def radix_mask_eq [OF assms(2)])
qed

lemma digit_of_minus_1:
  assumes "bt + crb \<le> LENGTH('w::len)" "crb < 32"
  shows "digit_of bt crb (- 1 :: 'w word) = 2 ^ crb - 1"
proof -
  have "take_bit crb (drop_bit bt (mask LENGTH('w) :: nat)) = mask crb"
    using assms(1) by (intro bit_eqI) (auto simp: bit_take_bit_iff bit_drop_bit_eq bit_mask_iff)
  moreover have "unat (drop_bit bt (- 1 :: 'w word)) = drop_bit bt (mask LENGTH('w))"
    by (simp only: unat_drop_bit_eq unsigned_minus_1_eq_mask)
  moreover have "x AND (2 ^ crb - 1) = take_bit crb x" for x :: nat
    by (metis mask_eq_exp_minus_1 take_bit_eq_mask)
  ultimately show ?thesis
    by (simp add: digit_of_def radix_mask_eq [OF assms(2)] mask_eq_exp_minus_1)
qed

lemma digit_of_le_minus_1:
  assumes "bt + crb \<le> LENGTH('w::len)" "crb < 32"
  shows "digit_of bt crb (k :: 'w word) \<le> digit_of bt crb (- 1 :: 'w word)"
proof -
  have "digit_of bt crb k < 2 ^ crb" using assms(2) by (simp add: digit_of_eq)
  then show ?thesis by (simp add: digit_of_minus_1 [OF assms])
qed

text \<open>The bit key and the value at a position of a tile after the loads.\<close>

definition tile_key :: "('ki, 'w::len word) codec \<Rightarrow> 'ki list \<Rightarrow> nat \<times> nat \<Rightarrow> nat \<Rightarrow> 'w word" where
  "tile_key C keys tile q =
     encode C (if q < snd tile then keys ! (fst tile + q) else decode C (- 1))"

definition tile_value :: "bool \<Rightarrow> 'v list \<Rightarrow> (nat \<Rightarrow> 'v) \<Rightarrow> nat \<times> nat \<Rightarrow> nat \<Rightarrow> 'v" where
  "tile_value with_values vals uninit tile q =
     (if with_values \<and> q < snd tile then vals ! (fst tile + q) else uninit (fst tile + q))"

text \<open>The positions of a tile in the order of the sorted tile.\<close>

definition tile_order ::
  "template_params \<Rightarrow> ('ki, 'w::len word) codec \<Rightarrow> 'ki list \<Rightarrow> nat \<Rightarrow> nat \<Rightarrow> nat \<times> nat \<Rightarrow> nat list" where
  "tile_order P C keys bt crb tile =
     sort_key (\<lambda>q. digit_of bt crb (tile_key C keys tile q)) [0..<items_per_block P]"

lemma blocked_load_bit_keys:
  "blocked P (load_bit_keys P C keys tile) = map (tile_key C keys tile) [0..<items_per_block P]"
proof -
  have "load_bit_keys P C keys tile
        = (\<lambda>flat_id i. tile_key C keys tile (flat_id * ItemsPerThread P + i))"
    by (simp add: load_bit_keys_def block_load_def tile_key_def Let_def)
  then show ?thesis by (simp only: blocked_of_rank)
qed

lemma blocked_load_values:
  "blocked P (load_values with_values P vals uninit tile)
   = map (tile_value with_values vals uninit tile) [0..<items_per_block P]"
proof -
  have "load_values with_values P vals uninit tile
        = (\<lambda>flat_id i. tile_value with_values vals uninit tile (flat_id * ItemsPerThread P + i))"
    by (auto simp: load_values_def block_load_def tile_value_def Let_def fun_eq_iff)
  then show ?thesis by (simp only: blocked_of_rank)
qed

lemma sorted_tile_keys:
  assumes "bt + crb < 4294967296" "crb < 32"
  shows "fst (sorted_tile with_values P C keys vals uninit bt crb tile)
         = unblocked P (map (tile_key C keys tile) (tile_order P C keys bt crb tile))"
proof -
  let ?n = "items_per_block P"
  let ?K = "tile_key C keys tile" and ?V = "tile_value with_values vals uninit tile"
  have rk: "radix_key bt (u32 (bt + crb)) = digit_of bt crb"
    using assms by (intro ext radix_key_digit)
  show ?thesis
  proof (cases with_values)
    case False
    have "sort_key (digit_of bt crb) (map ?K [0..<?n])
          = map ?K (sort_key (\<lambda>q. digit_of bt crb (?K q)) [0..<?n])"
      by (rule sort_key_map)
    then show ?thesis using False
      by (simp add: sorted_tile_def sort_block_def block_radix_sort_keys_def rk
          blocked_load_bit_keys tile_order_def)
  next
    case True
    let ?V = "tile_value True vals uninit tile"
    have z: "zip (map ?K [0..<?n]) (map ?V [0..<?n]) = map (\<lambda>q. (?K q, ?V q)) [0..<?n]"
      by (simp add: zip_map_map zip_same_conv_map)
    have "sort_key (\<lambda>kv. digit_of bt crb (fst kv)) (map (\<lambda>q. (?K q, ?V q)) [0..<?n])
          = map (\<lambda>q. (?K q, ?V q)) (sort_key (\<lambda>q. digit_of bt crb (?K q)) [0..<?n])"
      using sort_key_map [of "\<lambda>kv. digit_of bt crb (fst kv)" "\<lambda>q. (?K q, ?V q)" "[0..<?n]"]
      by simp
    then have srt: "sort_key (\<lambda>kv. digit_of bt crb (fst kv)) (zip (map ?K [0..<?n]) (map ?V [0..<?n]))
          = map (\<lambda>q. (?K q, ?V q)) (sort_key (\<lambda>q. digit_of bt crb (?K q)) [0..<?n])"
      by (simp only: z)
    show ?thesis using True
      by (simp add: sorted_tile_def sort_block_def block_radix_sort_pairs_def rk
          blocked_load_bit_keys blocked_load_values srt tile_order_def comp_def Let_def)
  qed
qed

lemma sorted_tile_values:
  assumes "bt + crb < 4294967296" "crb < 32"
  shows "snd (sorted_tile True P C keys vals uninit bt crb tile)
         = unblocked P (map (tile_value True vals uninit tile) (tile_order P C keys bt crb tile))"
proof -
  let ?n = "items_per_block P"
  let ?K = "tile_key C keys tile" and ?V = "tile_value True vals uninit tile"
  have rk: "radix_key bt (u32 (bt + crb)) = digit_of bt crb"
    using assms by (intro ext radix_key_digit)
  have z: "zip (map ?K [0..<?n]) (map ?V [0..<?n]) = map (\<lambda>q. (?K q, ?V q)) [0..<?n]"
    by (simp add: zip_map_map zip_same_conv_map)
  have "sort_key (\<lambda>kv. digit_of bt crb (fst kv)) (map (\<lambda>q. (?K q, ?V q)) [0..<?n])
        = map (\<lambda>q. (?K q, ?V q)) (sort_key (\<lambda>q. digit_of bt crb (?K q)) [0..<?n])"
    using sort_key_map [of "\<lambda>kv. digit_of bt crb (fst kv)" "\<lambda>q. (?K q, ?V q)" "[0..<?n]"]
    by simp
  then have srt: "sort_key (\<lambda>kv. digit_of bt crb (fst kv)) (zip (map ?K [0..<?n]) (map ?V [0..<?n]))
        = map (\<lambda>q. (?K q, ?V q)) (sort_key (\<lambda>q. digit_of bt crb (?K q)) [0..<?n])"
    by (simp only: z)
  show ?thesis
    by (simp add: sorted_tile_def sort_block_def block_radix_sort_pairs_def rk
        blocked_load_bit_keys blocked_load_values srt tile_order_def comp_def Let_def)
qed

subsection \<open>The threads of a block in blocked and in striped order\<close>

lemma rank_less:
  assumes "flat_id < BlockSize P" "i < ItemsPerThread P"
  shows "flat_id * ItemsPerThread P + i < items_per_block P"
proof -
  have "flat_id * ItemsPerThread P + i < Suc flat_id * ItemsPerThread P" using assms(2) by simp
  also have "\<dots> \<le> BlockSize P * ItemsPerThread P"
    using assms(1) by (intro mult_le_mono1) simp
  finally show ?thesis by (simp add: items_per_block_def)
qed

lemma for_threads_cong:
  assumes "\<And>flat_id i. flat_id < BlockSize P \<Longrightarrow> i < ItemsPerThread P \<Longrightarrow> f flat_id i = g flat_id i"
  shows "for_threads P f = for_threads P g"
proof -
  have "fold (f flat_id) [0..<ItemsPerThread P] = fold (g flat_id) [0..<ItemsPerThread P]"
    if "flat_id < BlockSize P" for flat_id
    using assms [OF that] by (intro ext fold_cong) auto
  then have "fold (\<lambda>flat_id. fold (f flat_id) [0..<ItemsPerThread P]) [0..<BlockSize P] s
      = fold (\<lambda>flat_id. fold (g flat_id) [0..<ItemsPerThread P]) [0..<BlockSize P] s" for s
    by (intro fold_cong) auto
  then show ?thesis by (simp add: for_threads_def fun_eq_iff)
qed

definition striped_order :: "template_params \<Rightarrow> nat list" where
  "striped_order P =
     concat (map (\<lambda>flat_id. map (\<lambda>i. i * BlockSize P + flat_id) [0..<ItemsPerThread P])
       [0..<BlockSize P])"

lemma fold_concat_map: "fold f (concat (map g xs)) s = fold (\<lambda>x. fold f (g x)) xs s"
  by (induction xs arbitrary: s) simp_all

lemma for_threads_striped:
  "for_threads P (\<lambda>flat_id i. f (i * BlockSize P + flat_id)) s = fold f (striped_order P) s"
  by (simp add: for_threads_def striped_order_def fold_concat_map fold_map comp_def)

lemma mem_striped_order:
  "p \<in> set (striped_order P)
   \<longleftrightarrow> (\<exists>t<BlockSize P. \<exists>i<ItemsPerThread P. p = i * BlockSize P + t)"
proof -
  have "p \<in> set (striped_order P)
        \<longleftrightarrow> (\<exists>t\<in>{0..<BlockSize P}. p \<in> (\<lambda>i. i * BlockSize P + t) ` {0..<ItemsPerThread P})"
    by (simp add: striped_order_def)
  also have "\<dots> \<longleftrightarrow> (\<exists>t<BlockSize P. \<exists>i<ItemsPerThread P. p = i * BlockSize P + t)"
    unfolding image_iff Bex_def atLeastLessThan_iff by simp
  finally show ?thesis .
qed

lemma set_striped_order: "set (striped_order P) = {0..<items_per_block P}"
proof (intro set_eqI iffI)
  fix p assume "p \<in> set (striped_order P)"
  then obtain t i where ti: "t < BlockSize P" "i < ItemsPerThread P" "p = i * BlockSize P + t"
    unfolding mem_striped_order by blast
  have "i * BlockSize P + t < Suc i * BlockSize P" using ti(1) by simp
  also have "\<dots> \<le> ItemsPerThread P * BlockSize P" using ti(2) by (intro mult_le_mono1) simp
  finally show "p \<in> {0..<items_per_block P}" using ti(3) by (simp add: items_per_block_def mult.commute)
next
  fix p assume "p \<in> {0..<items_per_block P}"
  then have p: "p < BlockSize P * ItemsPerThread P" by (simp add: items_per_block_def)
  then have pos: "0 < BlockSize P" by (cases "BlockSize P") simp_all
  have a: "p div BlockSize P < ItemsPerThread P"
    using p by (simp add: less_mult_imp_div_less mult.commute)
  have b: "p mod BlockSize P < BlockSize P" using pos by simp
  have c: "p = (p div BlockSize P) * BlockSize P + p mod BlockSize P" by simp
  show "p \<in> set (striped_order P)"
    unfolding mem_striped_order using a b c by blast
qed

lemma length_striped_order: "length (striped_order P) = items_per_block P"
  by (simp add: striped_order_def length_concat comp_def sum_list_triv items_per_block_def)

lemma mset_striped_order: "mset (striped_order P) = mset [0..<items_per_block P]"
proof -
  have "card (set (striped_order P)) = length (striped_order P)"
    by (simp add: set_striped_order length_striped_order)
  then have "distinct (striped_order P)" by (rule card_distinct)
  then show ?thesis
    by (intro iffD1 [OF set_eq_iff_mset_eq_distinct]) (simp_all add: set_striped_order)
qed

lemma filter_less_upt_le: "vc \<le> n \<Longrightarrow> filter (\<lambda>p. p < vc) [0..<n] = [0..<vc]"
proof -
  assume "vc \<le> n"
  then have "[0..<n] = [0..<vc] @ [vc..<n]"
    by (metis le_add_diff_inverse upt_add_eq_append zero_le)
  then show ?thesis by simp
qed

lemma mset_striped_valid:
  assumes "vc \<le> items_per_block P"
  shows "mset (filter (\<lambda>p. p < vc) (striped_order P)) = mset [0..<vc]"
proof -
  have "mset (filter (\<lambda>p. p < vc) (striped_order P))
        = mset (filter (\<lambda>p. p < vc) [0..<items_per_block P])"
    by (simp only: mset_filter mset_striped_order)
  then show ?thesis using assms by (simp only: filter_less_upt_le)
qed

lemma fold_guarded_append:
  "fold (\<lambda>p out. if c p then out @ [w p] else out) ps out = out @ map w (filter c ps)"
  by (induction ps arbitrary: out) simp_all

subsection \<open>The stores of a block\<close>

text \<open>The store of the item at rank \<open>pos\<close> of the sorted tile.\<close>

definition rank_write ::
  "bool \<Rightarrow> ('ko, 'w::len word) codec \<Rightarrow> nat \<Rightarrow> nat \<Rightarrow> 'w word list \<Rightarrow> 'v list \<Rightarrow>
   storage_type \<Rightarrow> nat \<Rightarrow> ('ko, 'v) scatter_write" where
  "rank_write with_values key_out_codec bt crb ks vs storage pos =
     (u32 (u32_sub pos (starts storage ! digit_of bt crb (ks ! pos))
           + block_starts storage ! digit_of bt crb (ks ! pos)),
      decode key_out_codec (ks ! pos),
      if with_values then Some (vs ! pos) else None)"

lemma scatter_eq:
  "scatter with_values P key_out_codec bt crb vc sk sv storage output
   = output @ map (rank_write with_values key_out_codec bt crb (blocked P sk) (blocked P sv) storage)
       (filter (\<lambda>pos. pos < vc) (striped_order P))"
proof -
  let ?w = "rank_write with_values key_out_codec bt crb (blocked P sk) (blocked P sv) storage"
  have "scatter with_values P key_out_codec bt crb vc sk sv storage output
        = for_threads P (\<lambda>flat_id i out.
            if i * BlockSize P + flat_id < vc then out @ [?w (i * BlockSize P + flat_id)] else out)
            output"
    unfolding scatter_def Let_def blocked_to_striped_def rank_write_def
    by (cases with_values) (simp_all cong: if_cong)
  also have "\<dots> = fold (\<lambda>p out. if p < vc then out @ [?w p] else out) (striped_order P) output"
    by (rule for_threads_striped [of P "\<lambda>p out. if p < vc then out @ [?w p] else out"])
  finally show ?thesis by (simp only: fold_guarded_append)
qed

subsection \<open>The runs of the digits of a sorted tile\<close>

definition head_flag :: "nat list \<Rightarrow> nat \<Rightarrow> bool" where
  "head_flag D p \<longleftrightarrow> p = 0 \<or> not_equal_to (D ! (p - 1)) (D ! p)"

definition tail_flag :: "nat list \<Rightarrow> nat \<Rightarrow> bool" where
  "tail_flag D p \<longleftrightarrow> p + 1 = length D \<or> not_equal_to (D ! p) (D ! (p + 1))"

definition run_step :: "nat list \<Rightarrow> nat \<Rightarrow> storage_type \<Rightarrow> storage_type" where
  "run_step D p st =
     (let digit = D ! p;
          st1 = (if head_flag D p then st\<lparr>starts := (starts st)[digit := u16 p]\<rparr> else st)
      in if tail_flag D p then st1\<lparr>ends := (ends st1)[digit := u16 p]\<rparr> else st1)"

lemma map_nth_upt: "length ks = n \<Longrightarrow> map (\<lambda>p. f (ks ! p)) [0..<n] = map f ks"
  by (auto intro!: nth_equalityI)

lemma find_runs_eq:
  assumes len: "length ks = items_per_block P"
  shows "find_runs P bt crb (unblocked P ks) storage
         = fold (run_step (map (digit_of bt crb) ks)) [0..<items_per_block P] storage"
proof -
  let ?n = "items_per_block P"
  let ?D = "map (digit_of bt crb) ks"
  let ?digits = "\<lambda>flat_id i. digit_of bt crb (unblocked P ks flat_id i)"
  have "?digits = (\<lambda>flat_id i. digit_of bt crb (ks ! (flat_id * ItemsPerThread P + i)))"
    by (simp add: unblocked_def)
  then have "blocked P ?digits = map (\<lambda>p. digit_of bt crb (ks ! p)) [0..<?n]"
    by (simp only: blocked_of_rank [of P "\<lambda>p. digit_of bt crb (ks ! p)"])
  then have bl: "blocked P ?digits = ?D" using len by (simp only: map_nth_upt)
  have lenD: "length ?D = ?n" using len by simp
  have flags: "flag_heads_and_tails P ?digits not_equal_to
        = (unblocked P (map (head_flag ?D) [0..<?n]), unblocked P (map (tail_flag ?D) [0..<?n]))"
    unfolding flag_heads_and_tails_def Let_def bl lenD head_flag_def tail_flag_def lenD
    by (rule refl)
  have "find_runs P bt crb (unblocked P ks) storage
        = for_threads P (\<lambda>flat_id i st.
            let digit = ?digits flat_id i;
                pos = flat_id * ItemsPerThread P + i;
                st1 = (if unblocked P (map (head_flag ?D) [0..<?n]) flat_id i
                       then st\<lparr>starts := (starts st)[digit := u16 pos]\<rparr> else st)
            in if unblocked P (map (tail_flag ?D) [0..<?n]) flat_id i
               then st1\<lparr>ends := (ends st1)[digit := u16 pos]\<rparr> else st1)
          storage"
    unfolding find_runs_def Let_def flags prod.case by (rule refl)
  also have "\<dots> = for_threads P (\<lambda>flat_id i. run_step ?D (flat_id * ItemsPerThread P + i)) storage"
  proof -
    have "(\<lambda>flat_id i st.
            let digit = ?digits flat_id i;
                pos = flat_id * ItemsPerThread P + i;
                st1 = (if unblocked P (map (head_flag ?D) [0..<?n]) flat_id i
                       then st\<lparr>starts := (starts st)[digit := u16 pos]\<rparr> else st)
            in if unblocked P (map (tail_flag ?D) [0..<?n]) flat_id i
               then st1\<lparr>ends := (ends st1)[digit := u16 pos]\<rparr> else st1) flat_id i
          = run_step ?D (flat_id * ItemsPerThread P + i)"
      if "flat_id < BlockSize P" "i < ItemsPerThread P" for flat_id i
    proof -
      have p: "flat_id * ItemsPerThread P + i < ?n" using that by (rule rank_less)
      then have "unblocked P ks flat_id i = ks ! (flat_id * ItemsPerThread P + i)"
        by (simp add: unblocked_def)
      then have d: "?digits flat_id i = ?D ! (flat_id * ItemsPerThread P + i)"
        using p len by simp
      have h: "unblocked P (map (head_flag ?D) [0..<?n]) flat_id i
               = head_flag ?D (flat_id * ItemsPerThread P + i)"
        using p by (simp add: unblocked_def)
      have t: "unblocked P (map (tail_flag ?D) [0..<?n]) flat_id i
               = tail_flag ?D (flat_id * ItemsPerThread P + i)"
        using p by (simp add: unblocked_def)
      show ?thesis unfolding d h t run_step_def Let_def by (rule refl)
    qed
    then have "for_threads P (\<lambda>flat_id i st.
            let digit = ?digits flat_id i;
                pos = flat_id * ItemsPerThread P + i;
                st1 = (if unblocked P (map (head_flag ?D) [0..<?n]) flat_id i
                       then st\<lparr>starts := (starts st)[digit := u16 pos]\<rparr> else st)
            in if unblocked P (map (tail_flag ?D) [0..<?n]) flat_id i
               then st1\<lparr>ends := (ends st1)[digit := u16 pos]\<rparr> else st1)
        = for_threads P (\<lambda>flat_id i. run_step ?D (flat_id * ItemsPerThread P + i))"
      by (rule for_threads_cong)
    then show ?thesis by (rule arg_cong [where f = "\<lambda>f. f storage"])
  qed
  also have "\<dots> = fold (run_step ?D) [0..<?n] storage"
    by (rule for_threads_blocked [of P "run_step ?D"])
  finally show ?thesis .
qed

lemma fold_run_step:
  "starts (fold (run_step D) ps st)
     = fold (\<lambda>p s. if head_flag D p then s[D ! p := u16 p] else s) ps (starts st)"
  "ends (fold (run_step D) ps st)
     = fold (\<lambda>p s. if tail_flag D p then s[D ! p := u16 p] else s) ps (ends st)"
  "block_starts (fold (run_step D) ps st) = block_starts st"
  by (induction ps arbitrary: st) (simp_all add: run_step_def Let_def)

lemma length_flagged_updates:
  "length (fold (\<lambda>p s. if h p then s[k p := v p] else s) ps s) = length s"
  by (induction ps arbitrary: s) simp_all

lemma flagged_updates_none:
  assumes "\<And>p. p \<in> set ps \<Longrightarrow> h p \<Longrightarrow> k p \<noteq> d"
  shows "fold (\<lambda>p s. if h p then s[k p := v p] else s) ps s ! d = s ! d"
  using assms by (induction ps arbitrary: s) simp_all

lemma flagged_updates_unique:
  assumes "d < length s" "p0 < n" "h p0" "k p0 = d"
    and "\<And>p. p < n \<Longrightarrow> h p \<Longrightarrow> k p = d \<Longrightarrow> p = p0"
  shows "fold (\<lambda>p s. if h p then s[k p := v p] else s) [0..<n] s ! d = v p0"
proof -
  let ?F = "\<lambda>m. fold (\<lambda>p s. if h p then s[k p := v p] else s) [0..<m] s"
  have "?F m ! d = (if p0 < m then v p0 else s ! d)" if "m \<le> n" for m
    using that
  proof (induction m)
    case 0
    show ?case by simp
  next
    case (Suc m)
    have ih: "?F m ! d = (if p0 < m then v p0 else s ! d)" using Suc by simp
    have len: "length (?F m) = length s" by (rule length_flagged_updates)
    have m: "m < n" using Suc.prems by simp
    show ?case
    proof (cases "h m \<and> k m = d")
      case True
      then have "m = p0" using assms(5) [OF m] by simp
      then show ?thesis using True assms(1) len by simp
    next
      case False
      then have "m \<noteq> p0" using assms(3,4) by auto
      then have "(p0 < Suc m) = (p0 < m)" by auto
      then show ?thesis using False ih by auto
    qed
  qed
  from this [of n] show ?thesis using assms(2) by simp
qed

definition run_lo :: "nat list \<Rightarrow> nat \<Rightarrow> nat" where
  "run_lo D d = length (filter (\<lambda>x. x < d) D)"

definition run_hi :: "nat list \<Rightarrow> nat \<Rightarrow> nat" where
  "run_hi D d = length (filter (\<lambda>x. x < Suc d) D)"

lemma run_nth_iff:
  assumes "sorted D" "p < length D"
  shows "D ! p = d \<longleftrightarrow> run_lo D d \<le> p \<and> p < run_hi D d"
  unfolding run_lo_def run_hi_def using assms by (rule sorted_nth_eq_iff)

lemma run_hi_le: "run_hi D d \<le> length D"
  by (simp add: run_hi_def)

lemma run_lo_le_hi: "run_lo D d \<le> run_hi D d"
proof -
  have "filter (\<lambda>x. x < d) D = filter (\<lambda>x. x < d) (filter (\<lambda>x. x < Suc d) D)"
    by (simp add: conj_commute less_Suc_eq cong: conj_cong)
  then have "run_lo D d = length (filter (\<lambda>x. x < d) (filter (\<lambda>x. x < Suc d) D))"
    by (simp only: run_lo_def)
  also have "\<dots> \<le> run_hi D d" unfolding run_hi_def by (rule length_filter_le)
  finally show ?thesis .
qed

lemma head_flag_iff:
  assumes "sorted D" "p < length D"
  shows "head_flag D p \<longleftrightarrow> p = run_lo D (D ! p)"
proof -
  have in_run: "run_lo D (D ! p) \<le> p" "p < run_hi D (D ! p)"
    using run_nth_iff [OF assms, of "D ! p"] by simp_all
  show ?thesis
  proof (cases "p = 0")
    case True
    then show ?thesis using in_run by (simp add: head_flag_def)
  next
    case False
    then have p1: "p - 1 < length D" using assms(2) by simp
    have "D ! (p - 1) = D ! p \<longleftrightarrow> run_lo D (D ! p) \<le> p - 1 \<and> p - 1 < run_hi D (D ! p)"
      using assms(1) p1 by (rule run_nth_iff)
    then have "D ! (p - 1) = D ! p \<longleftrightarrow> run_lo D (D ! p) < p"
      using in_run False by auto
    then show ?thesis using False in_run by (auto simp: head_flag_def not_equal_to_def)
  qed
qed

lemma tail_flag_iff:
  assumes "sorted D" "p < length D"
  shows "tail_flag D p \<longleftrightarrow> p + 1 = run_hi D (D ! p)"
proof -
  have in_run: "run_lo D (D ! p) \<le> p" "p < run_hi D (D ! p)"
    using run_nth_iff [OF assms, of "D ! p"] by simp_all
  have hi: "run_hi D (D ! p) \<le> length D" by (rule run_hi_le)
  show ?thesis
  proof (cases "p + 1 = length D")
    case True
    then have "tail_flag D p" by (simp only: tail_flag_def simp_thms)
    moreover have "p + 1 = run_hi D (D ! p)" using True in_run(2) hi by linarith
    ultimately show ?thesis by (simp only: simp_thms)
  next
    case False
    then have p1: "p + 1 < length D" using assms(2) by linarith
    have e: "D ! (p + 1) = D ! p \<longleftrightarrow> run_lo D (D ! p) \<le> p + 1 \<and> p + 1 < run_hi D (D ! p)"
      using assms(1) p1 by (rule run_nth_iff)
    have "tail_flag D p \<longleftrightarrow> D ! p \<noteq> D ! (p + 1)"
      using False by (simp only: tail_flag_def not_equal_to_def simp_thms)
    also have "\<dots> \<longleftrightarrow> \<not> (D ! (p + 1) = D ! p)" by (simp only: eq_commute)
    also have "\<dots> \<longleftrightarrow> \<not> (run_lo D (D ! p) \<le> p + 1 \<and> p + 1 < run_hi D (D ! p))"
      by (simp only: e)
    also have "\<dots> \<longleftrightarrow> p + 1 = run_hi D (D ! p)" using in_run by linarith
    finally show ?thesis .
  qed
qed

text \<open>The run boundaries after the flags have been written: a digit of the sorted tile has
  the first and the last position of its run, every other digit keeps its entries.\<close>

lemma run_starts:
  assumes srt: "sorted D" and d: "d < length s" and n: "length D \<le> 65536"
  shows "fold (\<lambda>p s. if head_flag D p then s[D ! p := u16 p] else s) [0..<length D] s ! d
         = (if run_lo D d < run_hi D d then run_lo D d else s ! d)"
proof (cases "run_lo D d < run_hi D d")
  case True
  let ?p0 = "run_lo D d"
  have p0: "?p0 < length D" using True run_hi_le [of D d] by simp
  have dp0: "D ! ?p0 = d" using run_nth_iff [OF srt p0, of d] True by simp
  have h: "head_flag D ?p0" using head_flag_iff [OF srt p0] dp0 by simp
  have uniq: "p = ?p0" if "p < length D" "head_flag D p" "D ! p = d" for p
    using head_flag_iff [OF srt that(1)] that(2,3) by simp
  have "fold (\<lambda>p s. if head_flag D p then s[D ! p := u16 p] else s) [0..<length D] s ! d
        = u16 ?p0"
    by (rule flagged_updates_unique [where h = "head_flag D" and k = "\<lambda>p. D ! p" and v = u16
          and n = "length D" and ?p0.0 = ?p0, OF d p0 h dp0 uniq])
  moreover have "u16 ?p0 = ?p0" using p0 n by (simp add: u16_id)
  ultimately show ?thesis using True by simp
next
  case False
  have "D ! p \<noteq> d" if "p \<in> set [0..<length D]" for p
    using run_nth_iff [OF srt, of p d] that False by auto
  then have "fold (\<lambda>p s. if head_flag D p then s[D ! p := u16 p] else s) [0..<length D] s ! d
        = s ! d"
    by (intro flagged_updates_none [where h = "head_flag D" and k = "\<lambda>p. D ! p" and v = u16]) simp
  then show ?thesis using False by simp
qed

lemma run_ends:
  assumes srt: "sorted D" and d: "d < length s" and n: "length D \<le> 65536"
  shows "fold (\<lambda>p s. if tail_flag D p then s[D ! p := u16 p] else s) [0..<length D] s ! d
         = (if run_lo D d < run_hi D d then run_hi D d - 1 else s ! d)"
proof (cases "run_lo D d < run_hi D d")
  case True
  let ?p0 = "run_hi D d - 1"
  have p0: "?p0 < length D" using True run_hi_le [of D d] by simp
  have dp0: "D ! ?p0 = d" using run_nth_iff [OF srt p0, of d] True by auto
  have h: "tail_flag D ?p0" using tail_flag_iff [OF srt p0] dp0 True by simp
  have uniq: "p = ?p0" if "p < length D" "tail_flag D p" "D ! p = d" for p
    using tail_flag_iff [OF srt that(1)] that(2,3) by simp
  have "fold (\<lambda>p s. if tail_flag D p then s[D ! p := u16 p] else s) [0..<length D] s ! d
        = u16 ?p0"
    by (rule flagged_updates_unique [where h = "tail_flag D" and k = "\<lambda>p. D ! p" and v = u16
          and n = "length D" and ?p0.0 = ?p0, OF d p0 h dp0 uniq])
  moreover have "u16 ?p0 = ?p0" using p0 n by (simp add: u16_id)
  ultimately show ?thesis using True by simp
next
  case False
  have "D ! p \<noteq> d" if "p \<in> set [0..<length D]" for p
    using run_nth_iff [OF srt, of p d] that False by auto
  then have "fold (\<lambda>p s. if tail_flag D p then s[D ! p := u16 p] else s) [0..<length D] s ! d
        = s ! d"
    by (intro flagged_updates_none [where h = "tail_flag D" and k = "\<lambda>p. D ! p" and v = u16]) simp
  then show ?thesis using False by simp
qed

lemma reset_runs_nth:
  assumes "radix_size P \<le> BlockSize P" "d < radix_size P"
  shows "d < length (starts storage) \<Longrightarrow> starts (reset_runs P vc storage) ! d = u16 vc"
    and "d < length (ends storage) \<Longrightarrow> ends (reset_runs P vc storage) ! d = u16 vc"
    and "length (starts (reset_runs P vc storage)) = length (starts storage)"
    and "length (ends (reset_runs P vc storage)) = length (ends storage)"
    and "block_starts (reset_runs P vc storage) = block_starts storage"
proof -
  have g: "x < length t \<Longrightarrow>
      fold (\<lambda>flat_id s. if flat_id < radix_size P then s[flat_id := u16 vc] else s)
        [0..<BlockSize P] t ! x
      = (if x < min (radix_size P) (BlockSize P) then u16 vc else t ! x)" for x t
    using guarded_updates [where k = 0 and m = "radix_size P" and v = "\<lambda>_. u16 vc"
        and n = "BlockSize P" and t = t and x = x, unfolded add_0]
    by simp
  have l: "length (fold (\<lambda>flat_id s. if flat_id < radix_size P then s[flat_id := u16 vc] else s)
        [0..<BlockSize P] t) = length t" for t
    using length_guarded_updates [where k = 0 and m = "radix_size P" and v = "\<lambda>_. u16 vc"
        and js = "[0..<BlockSize P]" and t = t, unfolded add_0]
    by simp
  show "d < length (starts storage) \<Longrightarrow> starts (reset_runs P vc storage) ! d = u16 vc"
    using assms by (simp add: reset_runs_def g)
  show "d < length (ends storage) \<Longrightarrow> ends (reset_runs P vc storage) ! d = u16 vc"
    using assms by (simp add: reset_runs_def g)
  show "length (starts (reset_runs P vc storage)) = length (starts storage)"
    by (simp add: reset_runs_def l)
  show "length (ends (reset_runs P vc storage)) = length (ends storage)"
    by (simp add: reset_runs_def l)
  show "block_starts (reset_runs P vc storage) = block_starts storage"
    by (simp add: reset_runs_def)
qed

definition accumulate_step :: "template_params \<Rightarrow> nat \<Rightarrow> nat \<Rightarrow> storage_type \<Rightarrow> storage_type" where
  "accumulate_step P valid_count flat_id st =
     (if flat_id < radix_size P
      then let digit = flat_id;
               start = starts st ! digit;
               end' = ends st ! digit
           in if start < valid_count
              then st\<lparr>block_starts := (block_starts st)[digit :=
                     u32 (block_starts st ! digit +
                          u32 (u32_sub (rocprim_min (u32_sub valid_count 1) end') start + 1))]\<rparr>
              else st
      else st)"

lemma accumulate_counts_fold:
  "accumulate_counts P vc storage = fold (accumulate_step P vc) [0..<BlockSize P] storage"
  unfolding accumulate_counts_def accumulate_step_def [abs_def] by (rule refl)

lemma accumulate_steps:
  "starts (fold (accumulate_step P vc) [0..<n] st) = starts st
   \<and> ends (fold (accumulate_step P vc) [0..<n] st) = ends st
   \<and> length (block_starts (fold (accumulate_step P vc) [0..<n] st)) = length (block_starts st)
   \<and> (\<forall>d < length (block_starts st).
        block_starts (fold (accumulate_step P vc) [0..<n] st) ! d
        = (if d < n \<and> d < radix_size P \<and> starts st ! d < vc
           then u32 (block_starts st ! d +
                  u32 (u32_sub (rocprim_min (u32_sub vc 1) (ends st ! d)) (starts st ! d) + 1))
           else block_starts st ! d))"
proof (induction n)
  case 0
  show ?case by simp
next
  case (Suc n)
  let ?r = "fold (accumulate_step P vc) [0..<n] st"
  have s: "starts ?r = starts st" and e: "ends ?r = ends st"
    and l: "length (block_starts ?r) = length (block_starts st)"
    using Suc by simp_all
  have b: "block_starts ?r ! d
        = (if d < n \<and> d < radix_size P \<and> starts st ! d < vc
           then u32 (block_starts st ! d +
                  u32 (u32_sub (rocprim_min (u32_sub vc 1) (ends st ! d)) (starts st ! d) + 1))
           else block_starts st ! d)" if "d < length (block_starts st)" for d
    using Suc that by simp
  have step: "fold (accumulate_step P vc) [0..<Suc n] st = accumulate_step P vc n ?r" by simp
  show ?case
  proof (cases "n < radix_size P \<and> starts st ! n < vc")
    case False
    then have same: "accumulate_step P vc n ?r = ?r"
      by (auto simp: accumulate_step_def Let_def s)
    have cond: "(d < Suc n \<and> d < radix_size P \<and> starts st ! d < vc)
          \<longleftrightarrow> (d < n \<and> d < radix_size P \<and> starts st ! d < vc)" for d
      using False by (cases "d = n") auto
    show ?thesis unfolding step same cond using s e l b by (intro conjI allI impI)
  next
    case True
    let ?v = "u32 (block_starts ?r ! n +
                u32 (u32_sub (rocprim_min (u32_sub vc 1) (ends st ! n)) (starts st ! n) + 1))"
    have upd: "accumulate_step P vc n ?r = ?r\<lparr>block_starts := (block_starts ?r)[n := ?v]\<rparr>"
      using True by (simp add: accumulate_step_def Let_def s e)
    have "block_starts (accumulate_step P vc n ?r) ! d
        = (if d < Suc n \<and> d < radix_size P \<and> starts st ! d < vc
           then u32 (block_starts st ! d +
                  u32 (u32_sub (rocprim_min (u32_sub vc 1) (ends st ! d)) (starts st ! d) + 1))
           else block_starts st ! d)" if d: "d < length (block_starts st)" for d
    proof (cases "d = n")
      case True
      then have "block_starts (accumulate_step P vc n ?r) ! d = ?v"
        using d l by (simp add: upd)
      moreover have "block_starts ?r ! n = block_starts st ! n" using b [OF d] True by simp
      ultimately show ?thesis using True \<open>n < radix_size P \<and> starts st ! n < vc\<close> by simp
    next
      case False
      then have "block_starts (accumulate_step P vc n ?r) ! d = block_starts ?r ! d"
        by (simp add: upd)
      moreover have "d < Suc n \<longleftrightarrow> d < n" using False by auto
      ultimately show ?thesis using b [OF d] by simp
    qed
    then show ?thesis unfolding step using s e l by (simp add: upd)
  qed
qed

lemma accumulate_counts_nth:
  assumes "radix_size P \<le> BlockSize P" "d < radix_size P" "d < length (block_starts st)"
  shows "block_starts (accumulate_counts P vc st) ! d
         = (if starts st ! d < vc
            then u32 (block_starts st ! d +
                   u32 (u32_sub (rocprim_min (u32_sub vc 1) (ends st ! d)) (starts st ! d) + 1))
            else block_starts st ! d)"
    and "length (block_starts (accumulate_counts P vc st)) = length (block_starts st)"
  using accumulate_steps [of P vc "BlockSize P" st] assms
  by (simp_all add: accumulate_counts_fold)

lemma length_filter_interval:
  "a \<le> b \<Longrightarrow> length (filter (\<lambda>p. a \<le> p \<and> p < b) [0..<vc]) = min vc b - min vc (a::nat)"
  by (induction vc) auto

lemma run_count:
  assumes "sorted D" "vc \<le> length D"
  shows "length (filter (\<lambda>p. D ! p = d) [0..<vc]) = min vc (run_hi D d) - min vc (run_lo D d)"
proof -
  have "filter (\<lambda>p. D ! p = d) [0..<vc] = filter (\<lambda>p. run_lo D d \<le> p \<and> p < run_hi D d) [0..<vc]"
    using assms by (intro filter_cong refl run_nth_iff) auto
  then show ?thesis by (simp only: length_filter_interval [OF run_lo_le_hi])
qed

subsection \<open>The padding of a partial tile\<close>

lemma insort_key_cong_set:
  assumes "f x = g x" "\<And>y. y \<in> set ys \<Longrightarrow> f y = g y"
  shows "insort_key f x ys = insort_key g x ys"
  using assms by (induction ys) simp_all

lemma set_sort_key: "set (sort_key f xs) = set xs"
  by (induction xs) (simp_all add: set_insort_key)

lemma sort_key_cong_set:
  assumes "\<And>x. x \<in> set xs \<Longrightarrow> f x = g x"
  shows "sort_key f xs = sort_key g xs"
  using assms
proof (induction xs)
  case Nil
  show ?case by simp
next
  case (Cons x xs)
  have ih: "sort_key f xs = sort_key g xs" using Cons by simp
  have "insort_key f x (sort_key g xs) = insort_key g x (sort_key g xs)"
    using Cons.prems by (intro insort_key_cong_set) (simp_all add: set_sort_key)
  then show ?case by (simp add: ih)
qed

text \<open>With the all-ones bit key as fill value, the sorted tile lists the valid positions
  first, in the stable order of their digits, and the padding after them.\<close>

lemma tile_order_split:
  fixes C :: "('k, 'w::len word) codec"
  assumes crb: "crb < 32" and w: "bt + crb \<le> LENGTH('w)"
    and vc: "snd tile \<le> items_per_block P"
    and fill: "encode C (decode C (- 1)) = - 1"
  shows "tile_order P C keys bt crb tile
         = sort_key (\<lambda>q. key_digit C keys bt crb (fst tile + q)) [0..<snd tile]
           @ [snd tile..<items_per_block P]"
proof -
  let ?n = "items_per_block P" and ?vc = "snd tile"
  let ?gK = "\<lambda>q. digit_of bt crb (tile_key C keys tile q)"
  have pad: "?gK q = digit_of bt crb (- 1 :: 'w word)" if "?vc \<le> q" for q
    using that fill by (simp add: tile_key_def)
  have val: "?gK q = key_digit C keys bt crb (fst tile + q)" if "q < ?vc" for q
    using that by (simp add: tile_key_def key_digit_def)
  have "[0..<?vc + (?n - ?vc)] = [0..<?vc] @ [?vc..<?vc + (?n - ?vc)]"
    by (rule upt_add_eq_append) simp
  then have split: "[0..<?n] = [0..<?vc] @ [?vc..<?n]" using vc by simp
  have "sort_key ?gK ([0..<?vc] @ [?vc..<?n]) = sort_key ?gK [0..<?vc] @ [?vc..<?n]"
  proof (rule sort_key_append_max)
    fix x y assume "x \<in> set [0..<?vc]" "y \<in> set [?vc..<?n]"
    then have "?gK y = digit_of bt crb (- 1 :: 'w word)" by (intro pad) simp
    then show "?gK x \<le> ?gK y" using digit_of_le_minus_1 [OF w crb] by simp
  next
    fix y z assume "y \<in> set [?vc..<?n]" "z \<in> set [?vc..<?n]"
    then have "?gK y = digit_of bt crb (- 1 :: 'w word)" "?gK z = digit_of bt crb (- 1 :: 'w word)"
      by (simp_all add: pad)
    then show "?gK y = ?gK z" by simp
  qed
  moreover have "sort_key ?gK [0..<?vc]
      = sort_key (\<lambda>q. key_digit C keys bt crb (fst tile + q)) [0..<?vc]"
    by (rule sort_key_cong_set) (simp add: val)
  ultimately show ?thesis unfolding tile_order_def by (simp only: split)
qed

lemma tile_order_valid:
  fixes C :: "('k, 'w::len word) codec"
  assumes crb: "crb < 32" and w: "bt + crb \<le> LENGTH('w)"
    and vc: "snd tile \<le> items_per_block P"
    and fill: "encode C (decode C (- 1)) = - 1"
  shows "length (tile_order P C keys bt crb tile) = items_per_block P"
    and "map f (take (snd tile) (tile_order P C keys bt crb tile))
         = map f (sort_key (\<lambda>q. key_digit C keys bt crb (fst tile + q)) [0..<snd tile])"
    and "p < snd tile \<Longrightarrow> tile_order P C keys bt crb tile ! p
         = sort_key (\<lambda>q. key_digit C keys bt crb (fst tile + q)) [0..<snd tile] ! p"
proof -
  show "length (tile_order P C keys bt crb tile) = items_per_block P"
    by (simp add: tile_order_def)
  show "map f (take (snd tile) (tile_order P C keys bt crb tile))
         = map f (sort_key (\<lambda>q. key_digit C keys bt crb (fst tile + q)) [0..<snd tile])"
    unfolding tile_order_split [OF assms] by simp
  show "p < snd tile \<Longrightarrow> tile_order P C keys bt crb tile ! p
         = sort_key (\<lambda>q. key_digit C keys bt crb (fst tile + q)) [0..<snd tile] ! p"
    unfolding tile_order_split [OF assms] by (simp add: nth_append)
qed

subsection \<open>The stores of one iteration\<close>

text \<open>The storage at the scatter phase of the iteration for a tile.\<close>

definition runs_storage ::
  "template_params \<Rightarrow> ('ki, 'w::len word) codec \<Rightarrow> 'ki list \<Rightarrow> nat \<Rightarrow> nat \<Rightarrow> nat \<times> nat \<Rightarrow>
   storage_type \<Rightarrow> storage_type" where
  "runs_storage P C keys bt crb tile storage =
     find_runs P bt crb
       (unblocked P (map (tile_key C keys tile) (tile_order P C keys bt crb tile)))
       (reset_runs P (snd tile) storage)"

text \<open>The store of the item at rank \<open>p\<close> of the sorted tile.\<close>

definition block_write ::
  "bool \<Rightarrow> template_params \<Rightarrow> ('ki, 'w::len word) codec \<Rightarrow> ('ko, 'w word) codec \<Rightarrow>
   'ki list \<Rightarrow> 'v list \<Rightarrow> (nat \<Rightarrow> 'v) \<Rightarrow> nat \<Rightarrow> nat \<Rightarrow> nat \<times> nat \<Rightarrow> storage_type \<Rightarrow> nat \<Rightarrow>
   ('ko, 'v) scatter_write" where
  "block_write with_values P Ci Co keys vals uninit bt crb tile storage p =
     rank_write with_values Co bt crb
       (map (tile_key Ci keys tile) (tile_order P Ci keys bt crb tile))
       (map (tile_value True vals uninit tile) (tile_order P Ci keys bt crb tile))
       (runs_storage P Ci keys bt crb tile storage) p"

lemma length_tile_order: "length (tile_order P C keys bt crb tile) = items_per_block P"
  by (simp add: tile_order_def)

lemma rank_write_no_values:
  "rank_write False Co bt crb ks vs storage = rank_write False Co bt crb ks vs' storage"
  by (simp add: rank_write_def fun_eq_iff)

lemma block_stores_eq:
  assumes "bt + crb < 4294967296" "crb < 32"
  shows "sort_and_scatter_block with_values P Ci Co keys vals uninit bt crb tile state
         = (accumulate_counts P (snd tile) (runs_storage P Ci keys bt crb tile (fst state)),
            snd state @ map (block_write with_values P Ci Co keys vals uninit bt crb tile (fst state))
              (filter (\<lambda>p. p < snd tile) (striped_order P)))"
proof -
  let ?J = "tile_order P Ci keys bt crb tile"
  let ?ks = "map (tile_key Ci keys tile) ?J"
  let ?st = "sorted_tile with_values P Ci keys vals uninit bt crb tile"
  have sk: "fst ?st = unblocked P ?ks" using assms by (rule sorted_tile_keys)
  have bk: "blocked P (unblocked P ?ks) = ?ks"
    by (rule blocked_unblocked) (simp add: length_tile_order)
  have w: "rank_write with_values Co bt crb ?ks (blocked P (snd ?st)) storage
           = rank_write with_values Co bt crb ?ks
               (map (tile_value True vals uninit tile) ?J) storage" for storage
  proof (cases with_values)
    case False
    then show ?thesis by (simp only: rank_write_no_values)
  next
    case True
    have "snd (sorted_tile True P Ci keys vals uninit bt crb tile)
          = unblocked P (map (tile_value True vals uninit tile) ?J)"
      using assms by (rule sorted_tile_values)
    moreover have "blocked P (unblocked P (map (tile_value True vals uninit tile) ?J))
          = map (tile_value True vals uninit tile) ?J"
      by (rule blocked_unblocked) (simp add: length_tile_order)
    ultimately show ?thesis using True by simp
  qed
  show ?thesis
    unfolding sort_and_scatter_block_def Let_def case_prod_unfold scatter_eq sk bk w
      runs_storage_def block_write_def
    by (rule refl)
qed

lemma snd_block_write:
  assumes "p < items_per_block P"
  shows "snd (block_write True P Ci Co keys vals uninit bt crb tile storage p)
         = (decode Co (tile_key Ci keys tile (tile_order P Ci keys bt crb tile ! p)),
            Some (tile_value True vals uninit tile (tile_order P Ci keys bt crb tile ! p)))"
  using assms by (simp add: block_write_def rank_write_def length_tile_order)

text \<open>A valid input item as it is stored: its key after the two codecs, and its value.\<close>

definition stored_pair ::
  "('ki, 'w::len word) codec \<Rightarrow> ('ko, 'w word) codec \<Rightarrow> 'ki list \<Rightarrow> 'v list \<Rightarrow> nat \<Rightarrow>
   'ko \<times> 'v option" where
  "stored_pair Ci Co keys vals g = (decode Co (encode Ci (keys ! g)), Some (vals ! g))"

lemma mset_map_striped_valid:
  assumes "vc \<le> items_per_block P"
  shows "mset (map f (filter (\<lambda>p. p < vc) (striped_order P))) = mset (map f [0..<vc])"
  using mset_striped_valid [OF assms] by (simp only: mset_map)

lemma block_pairs:
  fixes Ci :: "('ki, 'w::len word) codec"
  assumes bw: "bt + crb < 4294967296" and crb: "crb < 32" and w: "bt + crb \<le> LENGTH('w)"
    and vc: "snd tile \<le> items_per_block P"
    and fill: "encode Ci (decode Ci (- 1)) = - 1"
  shows "mset (map snd (snd (sort_and_scatter_block True P Ci Co keys vals uninit bt crb tile state)))
         = mset (map snd (snd state)) + mset (map (stored_pair Ci Co keys vals) (tile_items tile))"
proof -
  let ?J = "tile_order P Ci keys bt crb tile"
  let ?vc = "snd tile"
  let ?Jv = "sort_key (\<lambda>q. key_digit Ci keys bt crb (fst tile + q)) [0..<?vc]"
  let ?h = "\<lambda>q. (decode Co (tile_key Ci keys tile q), Some (tile_value True vals uninit tile q))"
  let ?bw = "block_write True P Ci Co keys vals uninit bt crb tile (fst state)"
  have "mset (map (\<lambda>p. snd (?bw p)) (filter (\<lambda>p. p < ?vc) (striped_order P)))
        = mset (map (\<lambda>p. snd (?bw p)) [0..<?vc])"
    using vc by (rule mset_map_striped_valid)
  also have "map (\<lambda>p. snd (?bw p)) [0..<?vc] = map (\<lambda>p. ?h (?J ! p)) [0..<?vc]"
    using vc by (intro map_cong refl snd_block_write) simp
  also have "\<dots> = map ?h (take ?vc ?J)"
    using vc by (intro nth_equalityI) (simp_all add: length_tile_order)
  also have "\<dots> = map ?h ?Jv" using crb w vc fill by (rule tile_order_valid(2))
  also have "mset \<dots> = mset (map ?h [0..<?vc])" by (simp only: mset_map mset_sort)
  also have "map ?h [0..<?vc] = map (\<lambda>q. stored_pair Ci Co keys vals (fst tile + q)) [0..<?vc]"
    by (intro map_cong refl) (simp add: tile_key_def tile_value_def stored_pair_def)
  also have "\<dots> = map (stored_pair Ci Co keys vals) (tile_items tile)"
    by (auto simp: tile_items_def intro!: nth_equalityI)
  finally have "mset (map (\<lambda>p. snd (?bw p)) (filter (\<lambda>p. p < ?vc) (striped_order P)))
        = mset (map (stored_pair Ci Co keys vals) (tile_items tile))" .
  then show ?thesis by (simp add: block_stores_eq [OF bw crb] comp_def)
qed

lemma blocks_pairs:
  fixes Ci :: "('ki, 'w::len word) codec"
  assumes bw: "bt + crb < 4294967296" and crb: "crb < 32" and w: "bt + crb \<le> LENGTH('w)"
    and vc: "\<And>tile. tile \<in> set tiles \<Longrightarrow> snd tile \<le> items_per_block P"
    and fill: "encode Ci (decode Ci (- 1)) = - 1"
  shows "mset (map snd (snd (fold (sort_and_scatter_block True P Ci Co keys vals uninit bt crb)
           tiles state)))
         = mset (map snd (snd state))
           + mset (map (stored_pair Ci Co keys vals) (concat (map tile_items tiles)))"
  using vc
proof (induction tiles arbitrary: state)
  case Nil
  show ?case by simp
next
  case (Cons tile tiles)
  let ?s = "sort_and_scatter_block True P Ci Co keys vals uninit bt crb tile state"
  have "mset (map snd (snd ?s))
        = mset (map snd (snd state)) + mset (map (stored_pair Ci Co keys vals) (tile_items tile))"
    using bw crb w _ fill by (rule block_pairs) (simp add: Cons.prems)
  moreover have "mset (map snd (snd (fold (sort_and_scatter_block True P Ci Co keys vals uninit
           bt crb) tiles ?s)))
        = mset (map snd (snd ?s))
          + mset (map (stored_pair Ci Co keys vals) (concat (map tile_items tiles)))"
    using Cons.prems by (intro Cons.IH) simp
  ultimately show ?case by simp
qed

lemma block_no_values:
  assumes "bt + crb < 4294967296" "crb < 32"
  shows "sort_and_scatter_block False P Ci Co keys vals uninit bt crb
         = sort_and_scatter_block False P Ci Co keys vals' uninit' bt crb"
  by (intro ext) (simp add: block_stores_eq [OF assms] block_write_def rank_write_def)

lemma blocks_no_values:
  assumes "bt + crb < 4294967296" "crb < 32"
  shows "list_all (\<lambda>w. snd (snd w) = None) (snd state) \<Longrightarrow>
         list_all (\<lambda>w. snd (snd w) = None)
           (snd (fold (sort_and_scatter_block False P Ci Co keys vals uninit bt crb) tiles state))"
proof (induction tiles arbitrary: state)
  case Nil
  then show ?case by simp
next
  case (Cons tile tiles)
  have "list_all (\<lambda>w. snd (snd w) = None)
          (snd (sort_and_scatter_block False P Ci Co keys vals uninit bt crb tile state))"
    using Cons.prems
    by (auto simp: block_stores_eq [OF assms] block_write_def rank_write_def list_all_iff)
  then show ?case by (simp add: Cons.IH)
qed

subsection \<open>The run boundaries and the advance of a block\<close>

lemma runs_boundaries:
  assumes srt: "sorted D" and len: "length D = items_per_block P"
    and n: "items_per_block P < 65536" and vc: "vc \<le> items_per_block P"
    and rs: "radix_size P \<le> BlockSize P" and d: "d < radix_size P"
    and ls: "length (starts st) = radix_size P" and le: "length (ends st) = radix_size P"
  shows "starts (fold (run_step D) [0..<items_per_block P] (reset_runs P vc st)) ! d
         = (if run_lo D d < run_hi D d then run_lo D d else vc)"
    and "ends (fold (run_step D) [0..<items_per_block P] (reset_runs P vc st)) ! d
         = (if run_lo D d < run_hi D d then run_hi D d - 1 else vc)"
    and "block_starts (fold (run_step D) [0..<items_per_block P] (reset_runs P vc st))
         = block_starts st"
proof -
  let ?st1 = "reset_runs P vc st"
  have u: "u16 vc = vc" using vc n by (intro u16_id) simp
  have l65: "length D \<le> 65536" using len n by simp
  have s1: "starts ?st1 ! d = vc" "length (starts ?st1) = radix_size P"
    using reset_runs_nth(1,3) [OF rs d, where storage = st and vc = vc] d ls u by simp_all
  have e1: "ends ?st1 ! d = vc" "length (ends ?st1) = radix_size P"
    using reset_runs_nth(2,4) [OF rs d, where storage = st and vc = vc] d le u by simp_all
  have "starts (fold (run_step D) [0..<length D] ?st1) ! d
        = (if run_lo D d < run_hi D d then run_lo D d else starts ?st1 ! d)"
    unfolding fold_run_step using srt _ l65 by (rule run_starts) (simp add: s1 d)
  then show "starts (fold (run_step D) [0..<items_per_block P] ?st1) ! d
         = (if run_lo D d < run_hi D d then run_lo D d else vc)"
    by (simp only: len s1)
  have "ends (fold (run_step D) [0..<length D] ?st1) ! d
        = (if run_lo D d < run_hi D d then run_hi D d - 1 else ends ?st1 ! d)"
    unfolding fold_run_step using srt _ l65 by (rule run_ends) (simp add: e1 d)
  then show "ends (fold (run_step D) [0..<items_per_block P] ?st1) ! d
         = (if run_lo D d < run_hi D d then run_hi D d - 1 else vc)"
    by (simp only: len e1)
  show "block_starts (fold (run_step D) [0..<items_per_block P] ?st1) = block_starts st"
    by (simp only: fold_run_step reset_runs_nth(5) [OF rs d])
qed

lemma runs_advance:
  assumes srt: "sorted D" and len: "length D = items_per_block P"
    and n: "items_per_block P < 65536" and vc: "0 < vc" "vc \<le> items_per_block P"
    and rs: "radix_size P \<le> BlockSize P" and d: "d < radix_size P"
    and ls: "length (starts st) = radix_size P" and le: "length (ends st) = radix_size P"
    and lb: "length (block_starts st) = radix_size P"
    and b32: "block_starts st ! d < 4294967296"
  shows "block_starts (accumulate_counts P vc
           (fold (run_step D) [0..<items_per_block P] (reset_runs P vc st))) ! d
         = u32 (block_starts st ! d + length (filter (\<lambda>p. D ! p = d) [0..<vc]))"
proof -
  let ?st2 = "fold (run_step D) [0..<items_per_block P] (reset_runs P vc st)"
  let ?lo = "run_lo D d" and ?hi = "run_hi D d"
  note rb = runs_boundaries [OF srt len n vc(2) rs d ls le]
  have cnt: "length (filter (\<lambda>p. D ! p = d) [0..<vc]) = min vc ?hi - min vc ?lo"
    using srt vc(2) len by (intro run_count) simp_all
  have lohi: "?lo \<le> ?hi" by (rule run_lo_le_hi)
  have hin: "?hi \<le> items_per_block P" using run_hi_le [of D d] len by simp
  have acc: "block_starts (accumulate_counts P vc ?st2) ! d
         = (if starts ?st2 ! d < vc
            then u32 (block_starts ?st2 ! d +
                   u32 (u32_sub (rocprim_min (u32_sub vc 1) (ends ?st2 ! d)) (starts ?st2 ! d) + 1))
            else block_starts ?st2 ! d)"
    using rs d by (rule accumulate_counts_nth) (simp add: rb(3) lb d)
  show ?thesis
  proof (cases "?lo < ?hi \<and> ?lo < vc")
    case True
    have s: "starts ?st2 ! d = ?lo" and e: "ends ?st2 ! d = ?hi - 1" using rb(1,2) True by simp_all
    have v1: "u32_sub vc 1 = vc - 1" using vc n by (intro u32_sub_eq) simp_all
    have m: "rocprim_min (vc - 1) (?hi - 1) = min (vc - 1) (?hi - 1)"
      by (simp add: rocprim_min_def min_def)
    have lm: "?lo \<le> min (vc - 1) (?hi - 1)" using True by linarith
    have "min (vc - 1) (?hi - 1) - ?lo < 4294967296" "?lo < 4294967296" using True n vc by linarith+
    with lm have "u32_sub (min (vc - 1) (?hi - 1)) ?lo = min (vc - 1) (?hi - 1) - ?lo"
      by (rule u32_sub_eq)
    moreover have "min (vc - 1) (?hi - 1) - ?lo + 1 = min vc ?hi - min vc ?lo"
      using True by linarith
    moreover have "min vc ?hi - min vc ?lo < 4294967296" using vc n by linarith
    ultimately have "u32 (u32_sub (rocprim_min (u32_sub vc 1) (ends ?st2 ! d)) (starts ?st2 ! d) + 1)
          = min vc ?hi - min vc ?lo"
      unfolding s e v1 m by (simp add: u32_id)
    then show ?thesis unfolding acc cnt using True s by (simp add: rb(3))
  next
    case False
    have "\<not> starts ?st2 ! d < vc" using rb(1) False by (simp split: if_splits)
    moreover have "min vc ?hi - min vc ?lo = 0" using False lohi by linarith
    ultimately show ?thesis unfolding acc cnt using b32 by (simp add: rb(3) u32_id)
  qed
qed

text \<open>At the scatter phase the run of the digit of a valid rank starts at or before the
  rank.\<close>

lemma runs_start_le:
  assumes srt: "sorted D" and len: "length D = items_per_block P"
    and n: "items_per_block P < 65536" and vc: "vc \<le> items_per_block P"
    and rs: "radix_size P \<le> BlockSize P" and d: "D ! p < radix_size P"
    and ls: "length (starts st) = radix_size P" and le: "length (ends st) = radix_size P"
    and p: "p < vc"
  shows "starts (fold (run_step D) [0..<items_per_block P] (reset_runs P vc st)) ! (D ! p)
         = run_lo D (D ! p)"
    and "run_lo D (D ! p) \<le> p"
proof -
  have pl: "p < length D" using p vc len by simp
  have in_run: "run_lo D (D ! p) \<le> p" "p < run_hi D (D ! p)"
    using run_nth_iff [OF srt pl, of "D ! p"] by simp_all
  then show "run_lo D (D ! p) \<le> p" by simp
  show "starts (fold (run_step D) [0..<items_per_block P] (reset_runs P vc st)) ! (D ! p)
         = run_lo D (D ! p)"
    using runs_boundaries(1) [OF srt len n vc rs d ls le] in_run by simp
qed

subsection \<open>The digits of the sorted tile\<close>

lemma tile_digits:
  "map (digit_of bt crb) (map (tile_key C keys tile) (tile_order P C keys bt crb tile))
   = map (\<lambda>q. digit_of bt crb (tile_key C keys tile q))
       (sort_key (\<lambda>q. digit_of bt crb (tile_key C keys tile q)) [0..<items_per_block P])"
  by (simp add: tile_order_def)

lemma tile_digits_sorted:
  "sorted (map (digit_of bt crb) (map (tile_key C keys tile) (tile_order P C keys bt crb tile)))"
  unfolding tile_digits by (rule sorted_sort_key)

lemma length_filter_nth:
  "length (filter (\<lambda>p. f (xs ! p)) [0..<length xs]) = length (filter f xs)"
proof -
  have "filter f (map ((!) xs) [0..<length xs]) = map ((!) xs) (filter (\<lambda>p. f (xs ! p)) [0..<length xs])"
    by (simp add: filter_map comp_def)
  then have "length (filter f (map ((!) xs) [0..<length xs]))
             = length (filter (\<lambda>p. f (xs ! p)) [0..<length xs])" by simp
  then show ?thesis by (simp only: map_nth)
qed

text \<open>The quantities of a tile, by position \<open>q\<close> of the tile.\<close>

lemma tile_valid_ranks:
  fixes C :: "('k, 'w::len word) codec" and keys :: "'k list"
  assumes crb: "crb < 32" and w: "bt + crb \<le> LENGTH('w)"
    and vc: "snd tile \<le> items_per_block P"
    and fill: "encode C (decode C (- 1)) = - 1"
    and p: "p < snd tile"
  defines "kd \<equiv> \<lambda>q. key_digit C keys bt crb (fst tile + q)"
  defines "D \<equiv> map (digit_of bt crb) (map (tile_key C keys tile) (tile_order P C keys bt crb tile))"
  defines "q \<equiv> sort_key kd [0..<snd tile] ! p"
  shows "q < snd tile" and "tile_order P C keys bt crb tile ! p = q" and "D ! p = kd q"
    and "run_lo D (D ! p) + length (filter (\<lambda>x. kd x = kd q) [0..<q]) = p"
proof -
  let ?n = "items_per_block P" and ?vc = "snd tile"
  let ?gK = "\<lambda>q. digit_of bt crb (tile_key C keys tile q)"
  let ?J = "tile_order P C keys bt crb tile"
  show q: "q < ?vc" unfolding q_def using p by (rule sort_key_rank_unique(1))
  show Jp: "?J ! p = q"
    unfolding q_def kd_def using crb w vc fill p by (rule tile_order_valid(3))
  have val: "?gK x = kd x" if "x < ?vc" for x
    using that by (simp add: tile_key_def key_digit_def kd_def)
  have pad: "?gK x = digit_of bt crb (- 1 :: 'w word)" if "?vc \<le> x" for x
    using that fill by (simp add: tile_key_def)
  have pn: "p < ?n" using p vc by simp
  have "D ! p = ?gK (?J ! p)" unfolding D_def using pn by (simp add: length_tile_order)
  then show Dp: "D ! p = kd q" using Jp q val by simp
  have "run_lo D (kd q) = length (filter (\<lambda>x. ?gK x < kd q) ?J)"
    unfolding run_lo_def D_def by (simp add: filter_map comp_def)
  also have "\<dots> = length (filter (\<lambda>x. ?gK x < kd q) [0..<?n])"
    unfolding tile_order_def by (rule length_filter_sort_key)
  also have "[0..<?n] = [0..<?vc] @ [?vc..<?n]"
    using vc by (metis le_add_diff_inverse upt_add_eq_append zero_le)
  also have "length (filter (\<lambda>x. ?gK x < kd q) ([0..<?vc] @ [?vc..<?n]))
        = length (filter (\<lambda>x. ?gK x < kd q) [0..<?vc]) + length (filter (\<lambda>x. ?gK x < kd q) [?vc..<?n])"
    by simp
  also have "filter (\<lambda>x. ?gK x < kd q) [?vc..<?n] = []"
  proof -
    have "\<not> ?gK x < kd q" if "x \<in> set [?vc..<?n]" for x
    proof -
      have "?gK x = digit_of bt crb (- 1 :: 'w word)" using that by (intro pad) simp
      moreover have "kd q \<le> digit_of bt crb (- 1 :: 'w word)"
        unfolding kd_def key_digit_def by (rule digit_of_le_minus_1 [OF w crb])
      ultimately show ?thesis by simp
    qed
    then show ?thesis unfolding filter_empty_conv by blast
  qed
  also have "filter (\<lambda>x. ?gK x < kd q) [0..<?vc] = filter (\<lambda>x. kd x < kd q) [0..<?vc]"
    by (intro filter_cong refl) (simp add: val)
  finally have lo: "run_lo D (kd q) = length (filter (\<lambda>x. kd x < kd q) [0..<?vc])" by simp
  have "stable_rank kd ?vc q = p" unfolding q_def using p by (rule sort_key_rank_unique(2))
  then show "run_lo D (D ! p) + length (filter (\<lambda>x. kd x = kd q) [0..<q]) = p"
    unfolding Dp lo by (simp add: stable_rank_def)
qed

lemma tile_digit_count:
  fixes C :: "('k, 'w::len word) codec"
  assumes crb: "crb < 32" and w: "bt + crb \<le> LENGTH('w)"
    and vc: "snd tile \<le> items_per_block P"
    and fill: "encode C (decode C (- 1)) = - 1"
  shows "length (filter
           (\<lambda>p. map (digit_of bt crb) (map (tile_key C keys tile) (tile_order P C keys bt crb tile)) ! p = d)
           [0..<snd tile])
         = length (filter (\<lambda>g. key_digit C keys bt crb g = d) (tile_items tile))"
proof -
  let ?vc = "snd tile"
  let ?kd = "\<lambda>q. key_digit C keys bt crb (fst tile + q)"
  let ?Jv = "sort_key ?kd [0..<?vc]"
  let ?D = "map (digit_of bt crb) (map (tile_key C keys tile) (tile_order P C keys bt crb tile))"
  have e: "?D ! p = ?kd (?Jv ! p)" if "p \<in> set [0..<?vc]" for p
  proof -
    have "p < ?vc" using that by simp
    with crb w vc fill show ?thesis by (rule tile_valid_ranks(3))
  qed
  have l: "length ?Jv = ?vc" by simp
  have "filter (\<lambda>p. ?D ! p = d) [0..<?vc] = filter (\<lambda>p. ?kd (?Jv ! p) = d) [0..<?vc]"
    by (rule filter_cong [OF refl]) (simp only: e)
  then have "length (filter (\<lambda>p. ?D ! p = d) [0..<?vc])
           = length (filter (\<lambda>p. ?kd (?Jv ! p) = d) [0..<length ?Jv])"
    by (simp only: l)
  also have "\<dots> = length (filter (\<lambda>q. ?kd q = d) ?Jv)"
    by (rule length_filter_nth)
  also have "\<dots> = length (filter (\<lambda>q. ?kd q = d) [0..<?vc])" by (rule length_filter_sort_key)
  also have "\<dots> = length (filter (\<lambda>g. key_digit C keys bt crb g = d) [fst tile..<fst tile + ?vc])"
    by (rule length_filter_shift [symmetric])
  finally show ?thesis by (simp only: tile_items_def)
qed

subsection \<open>One iteration of the loop of \<^verbatim>\<open>sort_and_scatter\<close>\<close>

text \<open>What stage 4 needs of the template parameters: a thread for every digit, as the
  static assertion of stage 1 has it, digits of fewer than 32 bits, and positions of a tile
  that fit the \<^verbatim>\<open>unsigned short\<close> entries of \<^verbatim>\<open>starts\<close> and \<^verbatim>\<open>ends\<close>.\<close>

definition scatter_ok :: "template_params \<Rightarrow> bool" where
  "scatter_ok P \<longleftrightarrow>
     radix_size P \<le> BlockSize P \<and> RadixBits P < 32 \<and> items_per_block P < 65536"

text \<open>The shared arrays have \<open>radix_size\<close> entries each.\<close>

definition storage_ok :: "template_params \<Rightarrow> storage_type \<Rightarrow> bool" where
  "storage_ok P storage \<longleftrightarrow>
     length (starts storage) = radix_size P \<and> length (ends storage) = radix_size P \<and>
     length (block_starts storage) = radix_size P"

lemma length_fold_run_step:
  "length (starts (fold (run_step D) ps st)) = length (starts st)"
  "length (ends (fold (run_step D) ps st)) = length (ends st)"
  by (simp_all only: fold_run_step length_flagged_updates)

lemma length_reset_runs:
  "length (starts (reset_runs P vc st)) = length (starts st)"
  "length (ends (reset_runs P vc st)) = length (ends st)"
  "block_starts (reset_runs P vc st) = block_starts st"
proof -
  have l: "length (fold (\<lambda>flat_id s. if flat_id < radix_size P then s[flat_id := u16 vc] else s)
        [0..<BlockSize P] t) = length t" for t
    using length_guarded_updates [where k = 0 and m = "radix_size P" and v = "\<lambda>_. u16 vc"
        and js = "[0..<BlockSize P]" and t = t, unfolded add_0]
    by simp
  show "length (starts (reset_runs P vc st)) = length (starts st)"
    "length (ends (reset_runs P vc st)) = length (ends st)"
    "block_starts (reset_runs P vc st) = block_starts st"
    by (simp_all add: reset_runs_def l)
qed

lemma runs_storage_eq:
  "runs_storage P C keys bt crb tile st
   = fold (run_step (map (digit_of bt crb)
        (map (tile_key C keys tile) (tile_order P C keys bt crb tile))))
       [0..<items_per_block P] (reset_runs P (snd tile) st)"
  unfolding runs_storage_def by (rule find_runs_eq) (simp add: length_tile_order)

lemma block_storage_ok:
  assumes "bt + crb < 4294967296" "crb < 32" "storage_ok P (fst state)"
  shows "storage_ok P (fst (sort_and_scatter_block with_values P Ci Co keys vals uninit bt crb
           tile state))"
  using assms(3) accumulate_steps [of P "snd tile" "BlockSize P"
      "runs_storage P Ci keys bt crb tile (fst state)"]
  by (simp add: block_stores_eq [OF assms(1,2)] storage_ok_def accumulate_counts_fold
      runs_storage_eq length_fold_run_step length_reset_runs fold_run_step(3))

lemma tile_digit_less:
  fixes C :: "('k, 'w::len word) codec"
  assumes "crb \<le> RadixBits P" "RadixBits P < 32" "p < items_per_block P"
  shows "map (digit_of bt crb) (map (tile_key C keys tile) (tile_order P C keys bt crb tile)) ! p
         < radix_size P"
proof -
  have "crb < 32" using assms by simp
  then have "digit_of bt crb k < 2 ^ RadixBits P" for k :: "'w word"
    using assms(1) by (rule digit_of_less)
  then show ?thesis using assms(3) by (simp add: length_tile_order radix_size_def)
qed

lemma block_advance:
  fixes Ci :: "('ki, 'w::len word) codec"
  assumes ok: "scatter_ok P" and crb: "crb \<le> RadixBits P"
    and w: "window_ok LENGTH('w) bt crb"
    and fill: "encode Ci (decode Ci (- 1)) = - 1"
    and vc: "0 < snd tile" "snd tile \<le> items_per_block P"
    and so: "storage_ok P (fst state)"
    and d: "d < radix_size P" and b32: "block_starts (fst state) ! d < 4294967296"
  shows "block_starts (fst (sort_and_scatter_block with_values P Ci Co keys vals uninit bt crb
           tile state)) ! d
         = u32 (block_starts (fst state) ! d
             + length (filter (\<lambda>g. key_digit Ci keys bt crb g = d) (tile_items tile)))"
proof -
  let ?D = "map (digit_of bt crb) (map (tile_key Ci keys tile) (tile_order P Ci keys bt crb tile))"
  have c32: "crb < 32" using ok crb by (simp add: scatter_ok_def)
  have bw: "bt + crb < 4294967296" and wl: "bt + crb \<le> LENGTH('w)"
    using w by (simp_all add: window_ok_def)
  have rs: "radix_size P \<le> BlockSize P" and n: "items_per_block P < 65536"
    using ok by (simp_all add: scatter_ok_def)
  have ls: "length (starts (fst state)) = radix_size P"
    and le: "length (ends (fst state)) = radix_size P"
    and lb: "length (block_starts (fst state)) = radix_size P"
    using so by (simp_all add: storage_ok_def)
  have "block_starts (accumulate_counts P (snd tile)
           (fold (run_step ?D) [0..<items_per_block P] (reset_runs P (snd tile) (fst state)))) ! d
        = u32 (block_starts (fst state) ! d + length (filter (\<lambda>p. ?D ! p = d) [0..<snd tile]))"
    using tile_digits_sorted _ n vc rs d ls le lb b32
    by (rule runs_advance) (simp add: length_tile_order)
  then show ?thesis
    by (simp only: block_stores_eq [OF bw c32] fst_conv runs_storage_eq
        tile_digit_count [OF c32 wl vc(2) fill])
qed

text \<open>The store of the valid item at position \<open>q\<close> of a tile, given the running offsets
  \<open>base\<close> at the start of the iteration.\<close>

definition tile_write ::
  "bool \<Rightarrow> ('ki, 'w::len word) codec \<Rightarrow> ('ko, 'w word) codec \<Rightarrow> 'ki list \<Rightarrow> 'v list \<Rightarrow>
   nat \<Rightarrow> nat \<Rightarrow> nat list \<Rightarrow> nat \<times> nat \<Rightarrow> nat \<Rightarrow> ('ko, 'v) scatter_write" where
  "tile_write with_values Ci Co keys vals bt crb base tile q =
     (u32 (base ! key_digit Ci keys bt crb (fst tile + q)
           + length (filter (\<lambda>x. key_digit Ci keys bt crb (fst tile + x)
                                 = key_digit Ci keys bt crb (fst tile + q)) [0..<q])),
      decode Co (encode Ci (keys ! (fst tile + q))),
      if with_values then Some (vals ! (fst tile + q)) else None)"

lemma block_write_valid:
  fixes Ci :: "('ki, 'w::len word) codec"
  assumes ok: "scatter_ok P" and crb: "crb \<le> RadixBits P"
    and w: "window_ok LENGTH('w) bt crb"
    and fill: "encode Ci (decode Ci (- 1)) = - 1"
    and vc: "snd tile \<le> items_per_block P"
    and so: "storage_ok P st"
    and p: "p < snd tile"
  shows "block_write with_values P Ci Co keys vals uninit bt crb tile st p
         = tile_write with_values Ci Co keys vals bt crb (block_starts st) tile
             (sort_key (\<lambda>q. key_digit Ci keys bt crb (fst tile + q)) [0..<snd tile] ! p)"
proof -
  let ?J = "tile_order P Ci keys bt crb tile"
  let ?ks = "map (tile_key Ci keys tile) ?J"
  let ?D = "map (digit_of bt crb) ?ks"
  let ?kd = "\<lambda>q. key_digit Ci keys bt crb (fst tile + q)"
  let ?q = "sort_key ?kd [0..<snd tile] ! p"
  let ?st2 = "runs_storage P Ci keys bt crb tile st"
  have c32: "crb < 32" using ok crb by (simp add: scatter_ok_def)
  have wl: "bt + crb \<le> LENGTH('w)" using w by (simp add: window_ok_def)
  have rs: "radix_size P \<le> BlockSize P" and n: "items_per_block P < 65536"
    and r32: "RadixBits P < 32"
    using ok by (simp_all add: scatter_ok_def)
  have ls: "length (starts st) = radix_size P" and le: "length (ends st) = radix_size P"
    using so by (simp_all add: storage_ok_def)
  note tv = tile_valid_ranks [OF c32 wl vc fill p, of keys]
  have pn: "p < items_per_block P" using p vc by simp
  have dl: "?D ! p < radix_size P" using crb r32 pn by (rule tile_digit_less)
  have ksp: "?ks ! p = tile_key Ci keys tile ?q"
    using pn tv(2) by (simp add: length_tile_order)
  have dg: "digit_of bt crb (?ks ! p) = ?D ! p" using pn by (simp add: length_tile_order)
  have st: "starts ?st2 ! (?D ! p) = run_lo ?D (?D ! p)" and lo: "run_lo ?D (?D ! p) \<le> p"
    unfolding runs_storage_eq
    using runs_start_le [OF tile_digits_sorted _ n vc rs dl ls le p]
    by (simp_all add: length_tile_order)
  have bs: "block_starts ?st2 = block_starts st"
    unfolding runs_storage_eq by (simp only: fold_run_step(3) length_reset_runs(3))
  have "u32_sub p (run_lo ?D (?D ! p)) = p - run_lo ?D (?D ! p)"
    using lo pn n by (intro u32_sub_eq) simp_all
  also have "\<dots> = length (filter (\<lambda>x. ?kd x = ?kd ?q) [0..<?q])" using tv(4) by simp
  finally have sub: "u32_sub p (starts ?st2 ! (?D ! p))
        = length (filter (\<lambda>x. ?kd x = ?kd ?q) [0..<?q])"
    by (simp only: st)
  have key: "tile_key Ci keys tile ?q = encode Ci (keys ! (fst tile + ?q))"
    and val: "tile_value True vals uninit tile ?q = vals ! (fst tile + ?q)"
    using tv(1) by (simp_all add: tile_key_def tile_value_def)
  have vsp: "map (tile_value True vals uninit tile) ?J ! p = vals ! (fst tile + ?q)"
    using pn tv(2) val by (simp add: length_tile_order)
  have d1: "digit_of bt crb (?ks ! p) = ?kd ?q" using dg tv(3) by simp
  have sub': "u32_sub p (starts ?st2 ! ?kd ?q) = length (filter (\<lambda>x. ?kd x = ?kd ?q) [0..<?q])"
    using sub tv(3) by simp
  have "rank_write with_values Co bt crb ?ks (map (tile_value True vals uninit tile) ?J) ?st2 p
        = (u32 (u32_sub p (starts ?st2 ! ?kd ?q) + block_starts ?st2 ! ?kd ?q),
           decode Co (?ks ! p),
           if with_values then Some (map (tile_value True vals uninit tile) ?J ! p) else None)"
    unfolding rank_write_def d1 by (rule refl)
  also have "\<dots> = (u32 (length (filter (\<lambda>x. ?kd x = ?kd ?q) [0..<?q]) + block_starts st ! ?kd ?q),
           decode Co (encode Ci (keys ! (fst tile + ?q))),
           if with_values then Some (vals ! (fst tile + ?q)) else None)"
    by (simp only: sub' bs ksp key vsp)
  finally show ?thesis
    unfolding block_write_def tile_write_def by (simp only: add.commute [of "length _"])
qed

lemma block_writes_mset:
  fixes Ci :: "('ki, 'w::len word) codec"
  assumes ok: "scatter_ok P" and crb: "crb \<le> RadixBits P"
    and w: "window_ok LENGTH('w) bt crb"
    and fill: "encode Ci (decode Ci (- 1)) = - 1"
    and vc: "snd tile \<le> items_per_block P"
    and so: "storage_ok P (fst state)"
  shows "mset (snd (sort_and_scatter_block with_values P Ci Co keys vals uninit bt crb tile state))
         = mset (snd state)
           + mset (map (tile_write with_values Ci Co keys vals bt crb (block_starts (fst state)) tile)
               [0..<snd tile])"
proof -
  let ?kd = "\<lambda>q. key_digit Ci keys bt crb (fst tile + q)"
  let ?Jv = "sort_key ?kd [0..<snd tile]"
  let ?bw = "block_write with_values P Ci Co keys vals uninit bt crb tile (fst state)"
  let ?tw = "tile_write with_values Ci Co keys vals bt crb (block_starts (fst state)) tile"
  have c32: "crb < 32" using ok crb by (simp add: scatter_ok_def)
  have bw: "bt + crb < 4294967296" using w by (simp add: window_ok_def)
  have "mset (map ?bw (filter (\<lambda>p. p < snd tile) (striped_order P))) = mset (map ?bw [0..<snd tile])"
    using vc by (rule mset_map_striped_valid)
  also have "map ?bw [0..<snd tile] = map (\<lambda>p. ?tw (?Jv ! p)) [0..<snd tile]"
    by (intro map_cong refl block_write_valid [OF ok crb w fill vc so]) simp
  also have "\<dots> = map ?tw ?Jv" by (intro nth_equalityI) simp_all
  also have "mset \<dots> = mset (map ?tw [0..<snd tile])" by (simp only: mset_map mset_sort)
  finally show ?thesis by (simp add: block_stores_eq [OF bw c32])
qed

section \<open>The tiles of a batch for any size\<close>

text \<open>Under a batching that covers the blocks of the input, every iteration of the loop
  starts below \<open>size\<close> and has \<open>0 < valid_count \<le> items_per_block\<close>, also when
  \<^verbatim>\<open>block_offset + items_per_block\<close> wraps: then the test holds and the tile is taken for
  a full one.\<close>

lemma tile_valid_count_bounds:
  assumes "0 < ipb" "ipb \<le> 4294967296" "size' < 4294967296" "off < size'"
  shows "0 < tile_valid_count ipb size' off" and "tile_valid_count ipb size' off \<le> ipb"
proof -
  have sub: "u32_sub size' off = size' - off" using assms by (intro u32_sub_eq) simp_all
  show "0 < tile_valid_count ipb size' off"
    using assms sub by (simp add: tile_valid_count_def)
  show "tile_valid_count ipb size' off \<le> ipb"
  proof (cases "u32 (off + ipb) \<le> size'")
    case True
    then show ?thesis by (simp add: tile_valid_count_def)
  next
    case False
    have "off + ipb < 4294967296"
    proof (rule ccontr)
      assume "\<not> off + ipb < 4294967296"
      then have ge: "4294967296 \<le> off + ipb" by simp
      have "off + ipb < 2 * 4294967296" using assms by simp
      then have "(off + ipb) mod 4294967296 = off + ipb - 4294967296"
        using ge by (simp add: mod_if)
      then have "u32 (off + ipb) \<le> size'" using assms ge by (simp add: u32_def)
      then show False using False by simp
    qed
    then have "size' < off + ipb" using False by (simp add: u32_id)
    then show ?thesis using False sub by (simp add: tile_valid_count_def)
  qed
qed

lemma batch_tiles_from_bounds:
  assumes "0 < ipb" "ipb \<le> 4294967296" "size' < 4294967296"
  shows "k + n \<le> total_blocks ipb size' \<Longrightarrow>
         tile \<in> set (batch_tiles_from ipb size' n (k * ipb)) \<Longrightarrow>
         0 < snd tile \<and> snd tile \<le> ipb"
proof (induction n arbitrary: k)
  case 0
  then show ?case by simp
next
  case (Suc n)
  have lt: "k * ipb < size'" using Suc.prems(1) assms(1) by (intro total_blocks_less) auto
  note b = tile_valid_count_bounds [OF assms lt]
  show ?case
  proof (cases "tile = (k * ipb, tile_valid_count ipb size' (k * ipb))")
    case True
    then show ?thesis using b by simp
  next
    case False
    then have mem: "tile \<in> set (batch_tiles_from ipb size' n (u32 (k * ipb + ipb)))"
      using Suc.prems(2) by simp
    then have "n \<noteq> 0" by (cases n) auto
    then have "Suc k < total_blocks ipb size'" using Suc.prems(1) by simp
    then have "Suc k * ipb < size'" using assms(1) by (intro total_blocks_less)
    then have "u32 (k * ipb + ipb) = Suc k * ipb" using assms(3) by (simp add: u32_id)
    then have "tile \<in> set (batch_tiles_from ipb size' n (Suc k * ipb))"
      using mem by (simp only:)
    moreover have "Suc k + n \<le> total_blocks ipb size'" using Suc.prems(1) by simp
    ultimately show ?thesis using Suc.IH [of "Suc k"] by blast
  qed
qed

lemma total_blocks_le: "0 < ipb \<Longrightarrow> total_blocks ipb size' \<le> size'"
proof -
  assume pos: "0 < ipb"
  have "size' + ipb - 1 < (size' + 1) * ipb"
  proof -
    have a: "size' \<le> size' * ipb" using pos by (cases ipb) simp_all
    have e: "(size' + 1) * ipb = size' * ipb + ipb" by (simp add: algebra_simps)
    show ?thesis unfolding e using a pos by linarith
  qed
  then have "(size' + ipb - 1) div ipb < size' + 1"
    using pos by (simp add: div_less_iff_less_mult)
  then show ?thesis by (simp add: total_blocks_def)
qed

lemma batch_tiles_bounds:
  assumes ok: "batching_ok (total_blocks ipb size') B bfb fb" and b: "b < B"
    and ipb: "0 < ipb" "ipb \<le> 4294967296" and sz: "size' < 4294967296"
    and mem: "tile \<in> set (batch_tiles ipb size' bfb fb b)"
  shows "0 < snd tile \<and> snd tile \<le> ipb"
proof -
  let ?T = "total_blocks ipb size'"
  let ?k = "first_block_plain bfb fb b"
  let ?n = "blocks_per_batch bfb fb b"
  have T: "?T < 4294967296" using total_blocks_le [OF ipb(1), of size'] sz by simp
  have n: "?k + ?n = first_block_plain bfb fb (Suc b)"
    by (simp only: blocks_per_batch_plain [OF ok T b] first_block_plain_Suc)
  have le: "?k + ?n \<le> ?T"
    unfolding n using ok b by (intro first_block_plain_le_total) auto
  have "?n \<noteq> 0"
  proof
    assume "?n = 0"
    then have "batch_tiles ipb size' bfb fb b = []" by (simp add: batch_tiles_def)
    then show False using mem by simp
  qed
  then have "?k < ?T" using le by simp
  then have "?k * ipb < size'" using ipb(1) by (intro total_blocks_less)
  then have off: "batch_block_offset ipb bfb fb b = ?k * ipb"
    using sz by (simp add: batch_block_offset_def batch_first_block_plain [OF ok T b] u32_id)
  have "tile \<in> set (batch_tiles_from ipb size' ?n (?k * ipb))"
    using mem by (simp only: batch_tiles_def off)
  with le show ?thesis by (rule batch_tiles_from_bounds [OF ipb sz])
qed

section \<open>The counts of a launch at the end of the 32-bit range\<close>

text \<open>When the test \<^verbatim>\<open>block_offset + items_per_block <= size\<close> holds of every iteration,
  every tile of the loop is a full tile.\<close>

lemma batch_tiles_from_full:
  assumes "\<And>k. k < n \<Longrightarrow> off + k * ipb < 4294967296"
    and "\<And>k. k < n \<Longrightarrow> u32 (off + k * ipb + ipb) \<le> size'"
  shows "batch_tiles_from ipb size' n off = map (\<lambda>k. (off + k * ipb, ipb)) [0..<n]"
  using assms
proof (induction n arbitrary: off)
  case 0
  show ?case by simp
next
  case (Suc n)
  have v: "tile_valid_count ipb size' off = ipb"
    using Suc.prems(2) [of 0] by (simp add: tile_valid_count_def)
  have m: "map (\<lambda>k. (off + k * ipb, ipb)) [0..<Suc n]
           = (off, ipb) # map (\<lambda>k. (off + ipb + k * ipb, ipb)) [0..<n]"
  proof -
    have "[0..<Suc n] = 0 # map Suc [0..<n]" by (simp only: upt_conv_Cons zero_less_Suc map_Suc_upt)
    then show ?thesis by (simp add: comp_def add.assoc)
  qed
  show ?case
  proof (cases n)
    case 0
    then show ?thesis using v by simp
  next
    case (Suc n')
    have "off + 1 * ipb < 4294967296" using Suc.prems(1) [of 1] Suc by simp
    then have u: "u32 (off + ipb) = off + ipb" by (simp add: u32_id)
    have "batch_tiles_from ipb size' n (off + ipb)
          = map (\<lambda>k. (off + ipb + k * ipb, ipb)) [0..<n]"
    proof (rule Suc.IH)
      fix k assume k: "k < n"
      show "off + ipb + k * ipb < 4294967296" using Suc.prems(1) [of "Suc k"] k by (simp add: add.assoc)
      show "u32 (off + ipb + k * ipb + ipb) \<le> size'"
        using Suc.prems(2) [of "Suc k"] k by (simp add: add.assoc)
    qed
    then show ?thesis unfolding m using v u by simp
  qed
qed

lemma length_full_tiles_items:
  "length (concat (map tile_items (map (\<lambda>k. (off + k * ipb, ipb)) ks))) = length ks * ipb"
  by (induction ks) (simp_all add: tile_items_def)

lemma overflow_params_ok: "params_ok overflow_params"
  by (simp add: params_ok_def overflow_params_def radix_size_def)

lemma overflow_sizes:
  "items_per_block overflow_params = 2048" "radix_size overflow_params = 256"
  "RadixBits overflow_params = 8" "BlockSize overflow_params = 256"
  by (simp_all add: items_per_block_def radix_size_def overflow_params_def)

lemma overflow_tiles:
  assumes "b < 1024"
  shows "batch_tiles 2048 4294967295 2048 1024 b
         = map (\<lambda>k. (b * 4194304 + k * 2048, 2048)) [0..<2048]"
proof -
  have n: "blocks_per_batch 2048 1024 b = 2048" using assms by (simp add: blocks_per_batch_def)
  have "b * 2048 < 4294967296" "b * 2048 * 2048 < 4294967296" using assms by simp_all
  then have off: "batch_block_offset 2048 2048 1024 b = b * 4194304"
    using assms by (simp add: batch_block_offset_def batch_first_block_def u32_id)
  have "batch_tiles_from 2048 4294967295 2048 (b * 4194304)
        = map (\<lambda>k. (b * 4194304 + k * 2048, 2048)) [0..<2048]"
  proof (rule batch_tiles_from_full)
    fix k :: nat assume "k < 2048"
    then show "b * 4194304 + k * 2048 < 4294967296" using assms by simp
    have "u32 (b * 4194304 + k * 2048 + 2048) < 4294967296" by (simp add: u32_def)
    then show "u32 (b * 4194304 + k * 2048 + 2048) \<le> 4294967295" by simp
  qed
  then show ?thesis by (simp only: batch_tiles_def n off)
qed

lemma overflow_counts:
  assumes b: "b < 1024" and d: "d < 256"
  shows "fill_digit_counts_launch overflow_params C keys uninit 4294967295
           (replicate 262144 0) bt 8 2048 1024 1024 ! (b * 256 + d)
         = length (filter (\<lambda>g. key_digit C keys bt 8 g = d)
             (concat (map tile_items (batch_tiles 2048 4294967295 2048 1024 b))))"
proof -
  let ?items = "concat (map tile_items (batch_tiles 2048 4294967295 2048 1024 b))"
  let ?t = "replicate 262144 (0::nat)"
  have rs: "radix_size overflow_params \<le> BlockSize overflow_params"
    by (simp add: overflow_sizes)
  have x: "b * 256 + d < length ?t" using b d by simp
  have x': "b * 256 + d < 1024 * radix_size overflow_params" using b d by (simp add: overflow_sizes)
  have dv: "(b * 256 + d) div 256 = b" "(b * 256 + d) mod 256 = d" using d by simp_all
  have "fill_digit_counts_launch overflow_params C keys uninit 4294967295 ?t bt 8 2048 1024 1024
          ! (b * 256 + d)
        = batch_row overflow_params C keys uninit bt 8 (batch_tiles 2048 4294967295 2048 1024 b) d"
    using fill_digit_counts_launch_nth [OF rs x, of C keys uninit 4294967295 bt 8 2048 1024 1024] x'
    by (simp only: overflow_sizes dv if_True)
  also have "\<dots> = u32 (length (filter (\<lambda>g. key_digit C keys bt 8 g = d) ?items))"
  proof (rule batch_row_eq [OF overflow_params_ok])
    show "8 \<le> RadixBits overflow_params" by (simp add: overflow_sizes)
    show "d < radix_size overflow_params" using d by (simp add: overflow_sizes)
    fix tile assume "tile \<in> set (batch_tiles 2048 4294967295 2048 1024 b)"
    then show "snd tile \<le> items_per_block overflow_params"
      unfolding overflow_tiles [OF b] by (auto simp: overflow_sizes)
  qed
  also have "\<dots> = length (filter (\<lambda>g. key_digit C keys bt 8 g = d) ?items)"
  proof (rule u32_id)
    have "length (filter (\<lambda>g. key_digit C keys bt 8 g = d) ?items) \<le> length ?items"
      by (rule length_filter_le)
    also have "length ?items = 4194304"
      unfolding overflow_tiles [OF b] length_full_tiles_items by simp
    finally show "length (filter (\<lambda>g. key_digit C keys bt 8 g = d) ?items) < 4294967296" by simp
  qed
  finally show ?thesis .
qed

lemma overflow_row_sum:
  fixes C :: "('k, 'w::len word) codec"
  assumes b: "b < 1024"
  shows "sum_list (map (\<lambda>d. fill_digit_counts_launch overflow_params C keys uninit 4294967295
           (replicate 262144 0) bt 8 2048 1024 1024 ! (b * 256 + d)) [0..<256]) = 4194304"
proof -
  let ?items = "concat (map tile_items (batch_tiles 2048 4294967295 2048 1024 b))"
  have kd: "key_digit C keys bt 8 g < 256" for g
    using digit_of_less [of 8 8 bt "encode C (keys ! g)"] by (simp add: key_digit_def)
  have "sum_list (map (\<lambda>d. fill_digit_counts_launch overflow_params C keys uninit 4294967295
           (replicate 262144 0) bt 8 2048 1024 1024 ! (b * 256 + d)) [0..<256])
        = sum_list (map (\<lambda>d. length (filter (\<lambda>g. key_digit C keys bt 8 g = d) ?items)) [0..<256])"
    by (intro arg_cong [where f = sum_list] map_cong refl) (simp add: overflow_counts [OF b])
  also have "\<dots> = length (filter (\<lambda>g. key_digit C keys bt 8 g < 256) ?items)"
    by (rule sum_digit_counts)
  also have "\<dots> = length ?items" by (simp add: kd)
  also have "\<dots> = 4194304" unfolding overflow_tiles [OF b] length_full_tiles_items by simp
  finally show ?thesis .
qed

text \<open>
  Claim C3, at a launch the kernel can receive: \<open>size = 2^32 - 1\<close> keys of 32 bits,
  \<open>BlockSize = 256\<close>, \<open>ItemsPerThread = 8\<close>, \<open>RadixBits = 8\<close>, 1024 batches with
  \<open>blocks_per_full_batch = 2048\<close> and \<open>full_batches = 1024\<close>, which satisfies the
  batching equation. In the last iteration of batch 1023, \<open>block_offset = 2^32 - 2048\<close>
  and \<^verbatim>\<open>block_offset + items_per_block\<close> wraps to 0, so the test
  \<^verbatim>\<open>block_offset + items_per_block <= size\<close> holds and the tile is loaded and tallied as
  a full tile of 2048 items, although only 2047 of its positions lie below \<open>size\<close>.
  Whatever the keys, the counts of batch 1023 add up to \<open>4194304\<close>, one more than the
  \<open>4194303\<close> positions of its slice that lie below \<open>size\<close>: position \<open>size\<close> is counted
  for a digit, and the counts of all batches do not add up to \<open>size\<close>.
\<close>

theorem fill_digit_counts_overflow:
  "tile_valid_count (items_per_block overflow_params) 4294967295 4294965248 = 2048
   \<and> sum_list (map (\<lambda>d.
         fill_digit_counts_launch overflow_params overflow_codec keys_input uninit 4294967295
           (replicate 262144 0) 0 8 2048 1024 1024 ! (1023 * radix_size overflow_params + d))
       [0..<radix_size overflow_params]) = 4194304
   \<and> length (filter (\<lambda>g. g < 4294967295)
         [batch_block_offset (items_per_block overflow_params) 2048 1024 1023 ..<
          batch_block_offset (items_per_block overflow_params) 2048 1024 1023 +
          blocks_per_batch 2048 1024 1023 * items_per_block overflow_params]) = 4194303"
proof -
  have v: "tile_valid_count (items_per_block overflow_params) 4294967295 4294965248 = 2048"
    by (simp add: tile_valid_count_def overflow_sizes u32_def)
  have s: "sum_list (map (\<lambda>d.
         fill_digit_counts_launch overflow_params overflow_codec keys_input uninit 4294967295
           (replicate 262144 0) 0 8 2048 1024 1024 ! (1023 * radix_size overflow_params + d))
       [0..<radix_size overflow_params]) = 4194304"
    unfolding overflow_sizes by (rule overflow_row_sum) simp
  have off: "batch_block_offset 2048 2048 1024 1023 = 4290772992"
    by (simp add: batch_block_offset_def batch_first_block_def u32_def)
  have n: "blocks_per_batch 2048 1024 1023 = 2048" by (simp add: blocks_per_batch_def)
  have "length (filter (\<lambda>g. g < 4294967295) [4290772992 ..< 4290772992 + 2048 * 2048])
        = length [4290772992 ..< min (4290772992 + 2048 * 2048) (4294967295::nat)]"
    by (simp only: filter_less_upt)
  also have "\<dots> = min (4290772992 + 2048 * 2048) 4294967295 - (4290772992::nat)"
    by (rule length_upt)
  also have "\<dots> = 4194303" by simp
  finally have r: "length (filter (\<lambda>g. g < 4294967295)
         [batch_block_offset (items_per_block overflow_params) 2048 1024 1023 ..<
          batch_block_offset (items_per_block overflow_params) 2048 1024 1023 +
          blocks_per_batch 2048 1024 1023 * items_per_block overflow_params]) = 4194303"
    by (simp only: overflow_sizes off n)
  from v s r show ?thesis by (intro conjI)
qed

lemma u32_sum_list_u32: "u32 (sum_list (map (\<lambda>x. u32 (f x)) xs)) = u32 (sum_list (map f xs))"
  by (rule u32_sum_list_cong) (simp add: u32_u32)

text \<open>
  Claim C4, at the same launch. The counts of stage 1 include position \<open>size\<close>, so the
  totals \<open>DigitCounts\<close> that stage 2 writes add up to a multiple of \<open>2^32\<close> and not to
  \<open>size = 2^32 - 1\<close>: the ranges \<open>[DigitStarts[d], DigitStarts[d] + DigitCounts[d])\<close>
  cannot be pairwise disjoint with union \<open>[0, size)\<close>.
\<close>

theorem digit_ranges_overflow:
  "sum_list (map (\<lambda>d.
       fst (snd (count_and_scan overflow_params overflow_params overflow_codec keys_input uninit
         4294967295 (replicate 262144 0) (replicate 256 0) 0 8 2048 1024 1024)) ! d)
     [0..<radix_size overflow_params]) mod 4294967296 = 0
   \<and> sum_list (map (\<lambda>d.
       fst (snd (count_and_scan overflow_params overflow_params overflow_codec keys_input uninit
         4294967295 (replicate 262144 0) (replicate 256 0) 0 8 2048 1024 1024)) ! d)
     [0..<radix_size overflow_params]) \<noteq> 4294967295"
proof -
  let ?t1 = "fill_digit_counts_launch overflow_params overflow_codec keys_input uninit 4294967295
           (replicate 262144 0) 0 8 2048 1024 1024"
  let ?D = "fst (snd (count_and_scan overflow_params overflow_params overflow_codec keys_input
         uninit 4294967295 (replicate 262144 0) (replicate 256 0) 0 8 2048 1024 1024))"
  have len: "1024 * radix_size overflow_params \<le> length (replicate 262144 (0::nat))"
    by (simp add: overflow_sizes)
  have so: "scan_ok overflow_params overflow_params 1024"
    by (simp add: scan_ok_def overflow_sizes)
  have D: "?D = scanned_totals 256 ?t1 (replicate 256 0) 1024 256"
    using count_and_scan_eq [OF len so, of overflow_codec keys_input uninit 4294967295
        "replicate 256 0" 0 8 2048 1024]
    by (simp add: overflow_sizes)
  have tot: "?D ! d = u32 (sum_list (map (\<lambda>b. ?t1 ! (b * 256 + d)) [0..<1024]))" if "d < 256" for d
    unfolding D using that by (simp add: scanned_totals_def column_def)
  have "sum_list (map (\<lambda>d. ?D ! d) [0..<256])
        = sum_list (map (\<lambda>d. u32 (sum_list (map (\<lambda>b. ?t1 ! (b * 256 + d)) [0..<1024]))) [0..<256])"
    by (intro arg_cong [where f = sum_list] map_cong refl) (simp add: tot)
  then have "u32 (sum_list (map (\<lambda>d. ?D ! d) [0..<256]))
        = u32 (sum_list (map (\<lambda>d. sum_list (map (\<lambda>b. ?t1 ! (b * 256 + d)) [0..<1024])) [0..<256]))"
    by (simp only: u32_sum_list_u32)
  also have "sum_list (map (\<lambda>d. sum_list (map (\<lambda>b. ?t1 ! (b * 256 + d)) [0..<1024])) [0..<256])
        = sum_list (map (\<lambda>b. sum_list (map (\<lambda>d. ?t1 ! (b * 256 + d)) [0..<256])) [0..<1024])"
    by (rule sum_list_upt_swap)
  also have "\<dots> = sum_list (map (\<lambda>b. 4194304) [0..<1024])"
    by (intro arg_cong [where f = sum_list] map_cong refl) (simp add: overflow_row_sum)
  also have "\<dots> = 4294967296" by (simp add: sum_list_triv)
  finally have "sum_list (map (\<lambda>d. ?D ! d) [0..<256]) mod 4294967296 = 0"
    by (simp add: u32_def)
  then have z: "sum_list (map (\<lambda>d. ?D ! d) [0..<radix_size overflow_params]) mod 4294967296 = 0"
    by (simp only: overflow_sizes)
  then have "sum_list (map (\<lambda>d. ?D ! d) [0..<radix_size overflow_params]) \<noteq> 4294967295"
    by (intro notI) simp
  with z show ?thesis by (intro conjI)
qed

subsection \<open>The number of stores\<close>

lemma length_striped_valid:
  assumes "vc \<le> items_per_block P"
  shows "length (filter (\<lambda>p. p < vc) (striped_order P)) = vc"
proof -
  have "length (filter (\<lambda>p. p < vc) (striped_order P)) = length [0..<vc]"
    using mset_striped_valid [OF assms] by (rule mset_eq_length)
  then show ?thesis by simp
qed

lemma length_scatter:
  assumes "vc \<le> items_per_block P"
  shows "length (scatter with_values P key_out_codec bt crb vc sk sv storage output)
         = length output + vc"
  by (simp add: scatter_eq length_striped_valid [OF assms])

lemma length_sort_and_scatter_block:
  assumes "snd tile \<le> items_per_block P"
  shows "length (snd (sort_and_scatter_block with_values P Ci Co keys vals uninit bt crb tile state))
         = length (snd state) + snd tile"
  unfolding sort_and_scatter_block_def Let_def case_prod_unfold snd_conv
  by (rule length_scatter [OF assms])

lemma length_sort_and_scatter_blocks:
  assumes "\<And>tile. tile \<in> set tiles \<Longrightarrow> snd tile \<le> items_per_block P"
  shows "length (snd (fold (sort_and_scatter_block with_values P Ci Co keys vals uninit bt crb)
           tiles state))
         = length (snd state) + sum_list (map snd tiles)"
  using assms
proof (induction tiles arbitrary: state)
  case Nil
  show ?case by simp
next
  case (Cons tile tiles)
  have "length (snd (sort_and_scatter_block with_values P Ci Co keys vals uninit bt crb tile state))
        = length (snd state) + snd tile"
    using Cons.prems by (intro length_sort_and_scatter_block) simp
  moreover have "length (snd (fold (sort_and_scatter_block with_values P Ci Co keys vals uninit bt crb)
           tiles (sort_and_scatter_block with_values P Ci Co keys vals uninit bt crb tile state)))
        = length (snd (sort_and_scatter_block with_values P Ci Co keys vals uninit bt crb tile state))
          + sum_list (map snd tiles)"
    using Cons.prems by (intro Cons.IH) simp
  ultimately show ?case by simp
qed

lemma length_sort_and_scatter:
  assumes "\<And>tile. tile \<in> set (batch_tiles (items_per_block P) size' bfb fb batch_id)
           \<Longrightarrow> snd tile \<le> items_per_block P"
  shows "length (sort_and_scatter with_values P Ci Co keys vals uninit size' bds ds bt crb bfb fb
           batch_id storage)
         = sum_list (map snd (batch_tiles (items_per_block P) size' bfb fb batch_id))"
  unfolding sort_and_scatter_def Let_def
  using length_sort_and_scatter_blocks [OF assms, where state = "(s, [])" for s] by simp

lemma sum_list_full_tiles: "sum_list (map snd (map (\<lambda>k. (f k, c)) ks)) = length ks * (c::nat)"
  by (induction ks) simp_all

lemma overflow_batch_stores:
  assumes b: "b < 1024"
  shows "length (sort_and_scatter with_values overflow_params Ci Co keys vals uninit 4294967295
           bds ds bt crb 2048 1024 b storage) = 4194304"
proof -
  have "length (sort_and_scatter with_values overflow_params Ci Co keys vals uninit 4294967295
           bds ds bt crb 2048 1024 b storage)
        = sum_list (map snd (batch_tiles (items_per_block overflow_params) 4294967295 2048 1024 b))"
  proof (rule length_sort_and_scatter)
    fix tile assume "tile \<in> set (batch_tiles (items_per_block overflow_params) 4294967295 2048 1024 b)"
    then show "snd tile \<le> items_per_block overflow_params"
      unfolding overflow_sizes overflow_tiles [OF b] by auto
  qed
  also have "\<dots> = 4194304"
    unfolding overflow_sizes overflow_tiles [OF b] sum_list_full_tiles by simp
  finally show ?thesis .
qed

text \<open>
  Claim C10, at the launch at the end of the 32-bit range, with the tables of stages 1
  to 3 as inputs. As in stage 1, the test \<^verbatim>\<open>block_offset + items_per_block <= size\<close>
  wraps in the last iteration of batch 1023, the last tile is scattered as a full tile
  and the pass stores \<open>2^32 = size + 1\<close> keys: the indices written are not a permutation
  of \<open>[0, size)\<close>.
\<close>

theorem scatter_indices_overflow:
  "length (sort_and_scatter_launch True overflow_params overflow_codec overflow_codec
      keys_input values_input uninit_values 4294967295
      (fst (count_and_scan overflow_params overflow_params overflow_codec keys_input uninit
         4294967295 (replicate 262144 0) (replicate 256 0) 0 8 2048 1024 1024))
      (snd (snd (count_and_scan overflow_params overflow_params overflow_codec keys_input uninit
         4294967295 (replicate 262144 0) (replicate 256 0) 0 8 2048 1024 1024)))
      0 8 2048 1024 1024 storage) = 4294967296
   \<and> mset (map fst (sort_and_scatter_launch True overflow_params overflow_codec overflow_codec
      keys_input values_input uninit_values 4294967295
      (fst (count_and_scan overflow_params overflow_params overflow_codec keys_input uninit
         4294967295 (replicate 262144 0) (replicate 256 0) 0 8 2048 1024 1024))
      (snd (snd (count_and_scan overflow_params overflow_params overflow_codec keys_input uninit
         4294967295 (replicate 262144 0) (replicate 256 0) 0 8 2048 1024 1024)))
      0 8 2048 1024 1024 storage))
     \<noteq> mset [0..<4294967295]"
proof -
  let ?bds = "fst (count_and_scan overflow_params overflow_params overflow_codec keys_input uninit
         4294967295 (replicate 262144 0) (replicate 256 0) 0 8 2048 1024 1024)"
  let ?ds = "snd (snd (count_and_scan overflow_params overflow_params overflow_codec keys_input
         uninit 4294967295 (replicate 262144 0) (replicate 256 0) 0 8 2048 1024 1024))"
  let ?log = "sort_and_scatter_launch True overflow_params overflow_codec overflow_codec
      keys_input values_input uninit_values 4294967295 ?bds ?ds 0 8 2048 1024 1024 storage"
  have "length ?log = sum_list (map (\<lambda>b. length (sort_and_scatter True overflow_params
          overflow_codec overflow_codec keys_input values_input uninit_values 4294967295 ?bds ?ds
          0 8 2048 1024 b (storage b))) [0..<1024])"
    by (simp add: sort_and_scatter_launch_def length_concat comp_def)
  also have "\<dots> = sum_list (map (\<lambda>b. 4194304) [0..<1024])"
    by (intro arg_cong [where f = sum_list] map_cong refl) (simp add: overflow_batch_stores)
  also have "\<dots> = 4294967296" by (simp add: sum_list_triv)
  finally have len: "length ?log = 4294967296" .
  have "mset (map fst ?log) \<noteq> mset [0..<4294967295]"
  proof
    assume "mset (map fst ?log) = mset [0..<4294967295]"
    then have "length (map fst ?log) = length [0..<(4294967295::nat)]" by (rule mset_eq_length)
    then have "length ?log = 4294967295 - 0" by (simp only: length_map length_upt)
    then show False using len by simp
  qed
  with len show ?thesis by (intro conjI)
qed

lemma load_bit_keys_rank:
  "flat_id * ItemsPerThread P + i < snd tile \<Longrightarrow>
   load_bit_keys P C keys tile flat_id i = encode C (keys ! (fst tile + (flat_id * ItemsPerThread P + i)))"
  by (simp add: load_bit_keys_def block_load_def Let_def)

text \<open>
  Claim C9, at the launch at the end of the 32-bit range. The final block of the input,
  the last tile of batch 1023, starts at \<open>block_offset = 2^32 - 2048\<close> and has 2047
  positions below \<open>size = 2^32 - 1\<close>. The test \<^verbatim>\<open>block_offset + items_per_block <= size\<close>
  wraps, the loop takes it for a full tile with \<open>valid_count = 2048\<close>, so its
  out-of-range position (item 7 of thread 255) is not filled with the sentinel but with
  the key read at index \<open>size\<close>, and the block stores all 2048 items, the out-of-range
  one among them.
\<close>

theorem padding_overflow:
  "batch_tiles (items_per_block overflow_params) 4294967295 2048 1024 1023 ! 2047
     = (4294965248, 2048)
   \<and> load_bit_keys overflow_params overflow_codec keys_input (4294965248, 2048) 255 7
     = encode overflow_codec (keys_input ! 4294967295)
   \<and> length (snd (sort_and_scatter_block with_values overflow_params overflow_codec
        overflow_codec keys_input values_input uninit 0 8 (4294965248, 2048) (storage, [])))
     = 2048"
proof -
  have "map (\<lambda>k. (1023 * 4194304 + k * 2048, 2048)) [0..<2048] ! 2047
        = (1023 * 4194304 + 2047 * 2048, 2048::nat)"
    by (simp only: nth_map length_upt nth_upt) simp
  then have t: "batch_tiles (items_per_block overflow_params) 4294967295 2048 1024 1023 ! 2047
     = (4294965248, 2048)"
    unfolding overflow_sizes by (simp add: overflow_tiles)
  have k: "load_bit_keys overflow_params overflow_codec keys_input (4294965248, 2048) 255 7
     = encode overflow_codec (keys_input ! 4294967295)"
    using load_bit_keys_rank [of 255 overflow_params 7 "(4294965248, 2048)" overflow_codec keys_input]
    by (simp add: overflow_params_def)
  have s: "length (snd (sort_and_scatter_block with_values overflow_params overflow_codec
        overflow_codec keys_input values_input uninit 0 8 (4294965248, 2048) (storage, [])))
     = 2048"
    using length_sort_and_scatter_block [of "(4294965248, 2048)" overflow_params with_values
        overflow_codec overflow_codec keys_input values_input uninit 0 8 "(storage, [])"]
    by (simp add: overflow_sizes)
  from t k s show ?thesis by (intro conjI)
qed

section \<open>Values travel with their keys\<close>

lemma store_values_none:
  "list_all (\<lambda>w. snd (snd w) = None) writes \<Longrightarrow> store_values writes values_output = values_output"
  unfolding store_values_def by (induction writes arbitrary: values_output) simp_all

text \<open>
  Claim C8. With a value payload, the stores of \<^verbatim>\<open>sort_and_scatter\<close> for a batch pair
  every stored key with the value of the same input position: the pairs (key, value)
  stored at one destination index are, counted with multiplicity, the pairs
  \<open>(decode (encode keys_input[g]), values_input[g])\<close> of the positions \<open>g\<close> that the tiles
  of the batch treat as valid, so the values are permuted as their keys are, whatever the
  registers hold that the value load leaves untouched. With the empty value type the
  overload of \<^verbatim>\<open>sort_block\<close> without values is the one selected, the stores do not
  depend on the value input, no store carries a value, and the value output is left as
  it was. The window lies inside the key, the key codec maps the all-ones bit key to a
  key that encodes to it, the batching covers the blocks of the input, and \<open>size\<close> and
  \<open>items_per_block\<close> are \<^verbatim>\<open>unsigned int\<close>.
\<close>

theorem value_colocation:
  fixes key_in_codec :: "('ki, 'w::len word) codec"
  assumes "current_radix_bits < 32"
    and "window_ok LENGTH('w) bit' current_radix_bits"
    and "encode key_in_codec (decode key_in_codec (- 1)) = - 1"
    and "batching_ok (total_blocks (items_per_block P) size') B blocks_per_full_batch full_batches"
    and "batch_id < B"
    and "0 < items_per_block P" and "items_per_block P < 4294967296"
    and "size' < 4294967296"
  shows "mset (map snd (sort_and_scatter True P key_in_codec key_out_codec keys_input
            values_input uninit size' batch_digit_starts digit_starts bit' current_radix_bits
            blocks_per_full_batch full_batches batch_id storage))
         = mset (map (\<lambda>g. (decode key_out_codec (encode key_in_codec (keys_input ! g)),
                           Some (values_input ! g)))
             (concat (map tile_items (batch_tiles (items_per_block P) size'
                blocks_per_full_batch full_batches batch_id))))
       \<and> sort_block False P bit_keys values begin_bit end_bit
         = (block_radix_sort_keys P bit_keys begin_bit end_bit, values)
       \<and> sort_and_scatter False P key_in_codec key_out_codec keys_input
            values_input uninit size' batch_digit_starts digit_starts bit' current_radix_bits
            blocks_per_full_batch full_batches batch_id storage
         = sort_and_scatter False P key_in_codec key_out_codec keys_input
            values_input' uninit' size' batch_digit_starts digit_starts bit' current_radix_bits
            blocks_per_full_batch full_batches batch_id storage
       \<and> list_all (\<lambda>w. snd (snd w) = None)
           (sort_and_scatter False P key_in_codec key_out_codec keys_input
              values_input uninit size' batch_digit_starts digit_starts bit' current_radix_bits
              blocks_per_full_batch full_batches batch_id storage)
       \<and> store_values
           (sort_and_scatter False P key_in_codec key_out_codec keys_input
              values_input uninit size' batch_digit_starts digit_starts bit' current_radix_bits
              blocks_per_full_batch full_batches batch_id storage) values_output
         = values_output"
proof -
  have bw: "bit' + current_radix_bits < 4294967296" and w: "bit' + current_radix_bits \<le> LENGTH('w)"
    using assms(2) by (simp_all add: window_ok_def)
  have t: "snd tile \<le> items_per_block P"
    if "tile \<in> set (batch_tiles (items_per_block P) size' blocks_per_full_batch full_batches
            batch_id)" for tile
    using batch_tiles_bounds [OF assms(4,5,6) _ assms(8) that] assms(7) by simp
  have e: "mset (map snd (snd (fold (sort_and_scatter_block True P key_in_codec key_out_codec
            keys_input values_input uninit bit' current_radix_bits)
            (batch_tiles (items_per_block P) size' blocks_per_full_batch full_batches batch_id)
            (s, []))))
        = mset (map (stored_pair key_in_codec key_out_codec keys_input values_input)
            (concat (map tile_items (batch_tiles (items_per_block P) size'
                blocks_per_full_batch full_batches batch_id))))" for s
    using blocks_pairs [OF bw assms(1) w t assms(3), where state = "(s, [])"] by simp
  have "mset (map snd (sort_and_scatter True P key_in_codec key_out_codec keys_input
            values_input uninit size' batch_digit_starts digit_starts bit' current_radix_bits
            blocks_per_full_batch full_batches batch_id storage))
        = mset (map (stored_pair key_in_codec key_out_codec keys_input values_input)
            (concat (map tile_items (batch_tiles (items_per_block P) size'
                blocks_per_full_batch full_batches batch_id))))"
    unfolding sort_and_scatter_def Let_def by (rule e)
  then have one: "mset (map snd (sort_and_scatter True P key_in_codec key_out_codec keys_input
            values_input uninit size' batch_digit_starts digit_starts bit' current_radix_bits
            blocks_per_full_batch full_batches batch_id storage))
         = mset (map (\<lambda>g. (decode key_out_codec (encode key_in_codec (keys_input ! g)),
                           Some (values_input ! g)))
             (concat (map tile_items (batch_tiles (items_per_block P) size'
                blocks_per_full_batch full_batches batch_id))))"
    by (simp only: stored_pair_def [abs_def])
  have two: "sort_block False P bit_keys values begin_bit end_bit
         = (block_radix_sort_keys P bit_keys begin_bit end_bit, values)"
    by (simp add: sort_block_def)
  have three: "sort_and_scatter False P key_in_codec key_out_codec keys_input
            values_input uninit size' batch_digit_starts digit_starts bit' current_radix_bits
            blocks_per_full_batch full_batches batch_id storage
         = sort_and_scatter False P key_in_codec key_out_codec keys_input
            values_input' uninit' size' batch_digit_starts digit_starts bit' current_radix_bits
            blocks_per_full_batch full_batches batch_id storage"
    unfolding sort_and_scatter_def
      block_no_values [OF bw assms(1), of P key_in_codec key_out_codec keys_input values_input
        uninit values_input' uninit']
    by (rule refl)
  have four: "list_all (\<lambda>w. snd (snd w) = None)
           (sort_and_scatter False P key_in_codec key_out_codec keys_input
              values_input uninit size' batch_digit_starts digit_starts bit' current_radix_bits
              blocks_per_full_batch full_batches batch_id storage)"
    unfolding sort_and_scatter_def Let_def
    by (rule blocks_no_values [OF bw assms(1)]) simp
  from four have five: "store_values
           (sort_and_scatter False P key_in_codec key_out_codec keys_input
              values_input uninit size' batch_digit_starts digit_starts bit' current_radix_bits
              blocks_per_full_batch full_batches batch_id storage) values_output
         = values_output"
    by (rule store_values_none)
  from one two three four five show ?thesis by (intro conjI)
qed

theorem value_colocation_witness:
  "(2::nat) < 32 \<and> window_ok LENGTH(4) 0 2
   \<and> encode example_codec (decode example_codec (- 1)) = - 1
   \<and> batching_ok (total_blocks (items_per_block example_params) 10) 2 2 1 \<and> (1::nat) < 2
   \<and> 0 < items_per_block example_params \<and> items_per_block example_params < 4294967296
   \<and> (10::nat) < 4294967296
   \<and> mset (map snd (sort_and_scatter True example_params example_codec example_codec example_keys
        [100, 101, 102, 103, 104, 105, 106, 107, 108, 109 :: nat] (\<lambda>_. 0) 10 [0, 0, 0, 0, 1, 3, 3, 1]
        [0, 1, 5, 8] 0 2 2 1 1
        \<lparr>starts = replicate 4 0, ends = replicate 4 0, block_starts = replicate 4 0\<rparr>))
     = {#(15, Some 108), (5, Some 109)#}"
proof -
  have c: "(2::nat) < 32" by simp
  have w: "window_ok LENGTH(4) 0 2" by (simp add: window_ok_def)
  have f: "encode example_codec (decode example_codec (- 1)) = - 1"
    by (simp add: example_codec_def)
  have tiles: "batch_tiles (items_per_block example_params) 10 2 1 1 = [(8, 2)]"
    by (simp add: example_sizes batch_tiles_def blocks_per_batch_def batch_block_offset_def
        batch_first_block_def batch_tiles_from_numeral tile_valid_count_def u32_def u32_sub_def)
  have t: "batching_ok (total_blocks (items_per_block example_params) 10) 2 2 1" "(1::nat) < 2"
    "0 < items_per_block example_params" "items_per_block example_params < 4294967296"
    "(10::nat) < 4294967296"
    by (simp_all add: example_sizes batching_ok_def total_blocks_def)
  have items: "concat (map tile_items [(8, 2)]) = [8, 9]"
    by (simp add: tile_items_def upt_rec)
  note th = value_colocation [where P = example_params and key_in_codec = example_codec
      and key_out_codec = example_codec and keys_input = example_keys
      and values_input = "[100, 101, 102, 103, 104, 105, 106, 107, 108, 109 :: nat]"
      and uninit = "\<lambda>_. 0" and batch_digit_starts = "[0, 0, 0, 0, 1, 3, 3, 1]"
      and digit_starts = "[0, 1, 5, 8]"
      and storage = "\<lparr>starts = replicate 4 0, ends = replicate 4 0, block_starts = replicate 4 0\<rparr>"
      and size' = 10
      and bit' = 0 and current_radix_bits = 2 and blocks_per_full_batch = 2
      and full_batches = 1 and batch_id = 1 and B = 2, OF c w f t, THEN conjunct1]
  have "mset (map snd (sort_and_scatter True example_params example_codec example_codec example_keys
        [100, 101, 102, 103, 104, 105, 106, 107, 108, 109 :: nat] (\<lambda>_. 0) 10 [0, 0, 0, 0, 1, 3, 3, 1]
        [0, 1, 5, 8] 0 2 2 1 1
        \<lparr>starts = replicate 4 0, ends = replicate 4 0, block_starts = replicate 4 0\<rparr>))
     = {#(15, Some 108), (5, Some 109)#}"
    unfolding th tiles items by (simp add: example_codec_def example_keys_def)
  with c w f t show ?thesis by (intro conjI)
qed

section \<open>The running offsets of a batch\<close>


lemma example_scatter_ok: "scatter_ok example_params"
  by (simp add: scatter_ok_def example_sizes)


section \<open>The stores of a batch\<close>

text \<open>The store of the \<open>j\<close>-th of the items \<open>items\<close>, listed in the order of the loop: the
  running offset \<open>base\<close> of its digit at the start, plus the number of items of the same
  digit before it; \<open>pay\<close> gives the key and value stored.\<close>

definition ranked_write ::
  "nat list \<Rightarrow> (nat \<Rightarrow> nat) \<Rightarrow> (nat \<Rightarrow> 'p) \<Rightarrow> nat list \<Rightarrow> nat \<Rightarrow> nat \<times> 'p" where
  "ranked_write base kd pay items j =
     (u32 (base ! kd (items ! j)
           + length (filter (\<lambda>g. kd g = kd (items ! j)) (take j items))),
      pay (items ! j))"

definition ranked_writes ::
  "nat list \<Rightarrow> (nat \<Rightarrow> nat) \<Rightarrow> (nat \<Rightarrow> 'p) \<Rightarrow> nat list \<Rightarrow> (nat \<times> 'p) list" where
  "ranked_writes base kd pay items = map (ranked_write base kd pay items) [0..<length items]"

lemma ranked_writes_append:
  assumes "\<And>g. g \<in> set ys \<Longrightarrow>
             u32 (base' ! kd g) = u32 (base ! kd g + length (filter (\<lambda>x. kd x = kd g) xs))"
  shows "ranked_writes base kd pay (xs @ ys)
         = ranked_writes base kd pay xs @ ranked_writes base' kd pay ys"
proof -
  have l: "[0..<length xs + length ys] = [0..<length xs] @ [length xs..<length xs + length ys]"
    by (rule upt_add_eq_append) simp
  have a: "map (ranked_write base kd pay (xs @ ys)) [0..<length xs]
           = map (ranked_write base kd pay xs) [0..<length xs]"
    by (intro map_cong refl) (simp add: ranked_write_def nth_append)
  have "map (ranked_write base kd pay (xs @ ys)) [length xs..<length xs + length ys]
        = map (\<lambda>j. ranked_write base kd pay (xs @ ys) (length xs + j)) [0..<length ys]"
    by (intro nth_equalityI) simp_all
  also have "\<dots> = map (ranked_write base' kd pay ys) [0..<length ys]"
  proof (intro map_cong refl)
    fix j assume "j \<in> set [0..<length ys]"
    then have j: "j < length ys" by simp
    then have m: "ys ! j \<in> set ys" by simp
    have "u32 (base ! kd (ys ! j)
            + (length (filter (\<lambda>g. kd g = kd (ys ! j)) xs)
               + length (filter (\<lambda>g. kd g = kd (ys ! j)) (take j ys))))
          = u32 (u32 (base ! kd (ys ! j) + length (filter (\<lambda>g. kd g = kd (ys ! j)) xs))
               + length (filter (\<lambda>g. kd g = kd (ys ! j)) (take j ys)))"
      by (simp only: u32_add_left add.assoc)
    also have "\<dots> = u32 (u32 (base' ! kd (ys ! j))
               + length (filter (\<lambda>g. kd g = kd (ys ! j)) (take j ys)))"
      by (simp only: assms [OF m])
    also have "\<dots> = u32 (base' ! kd (ys ! j)
               + length (filter (\<lambda>g. kd g = kd (ys ! j)) (take j ys)))"
      by (simp only: u32_add_left)
    finally show "ranked_write base kd pay (xs @ ys) (length xs + j)
                  = ranked_write base' kd pay ys j"
      by (simp add: ranked_write_def)
  qed
  finally show ?thesis unfolding ranked_writes_def length_append l map_append a by simp
qed

text \<open>The key and value stored for an input position.\<close>

definition stored_item ::
  "bool \<Rightarrow> ('ki, 'w::len word) codec \<Rightarrow> ('ko, 'w word) codec \<Rightarrow> 'ki list \<Rightarrow> 'v list \<Rightarrow> nat \<Rightarrow>
   'ko \<times> 'v option" where
  "stored_item with_values Ci Co keys vals g =
     (decode Co (encode Ci (keys ! g)), if with_values then Some (vals ! g) else None)"

lemma tile_writes_ranked:
  "map (tile_write with_values Ci Co keys vals bt crb base tile) [0..<snd tile]
   = ranked_writes base (key_digit Ci keys bt crb) (stored_item with_values Ci Co keys vals)
       (tile_items tile)"
proof -
  let ?kd = "key_digit Ci keys bt crb"
  have "tile_write with_values Ci Co keys vals bt crb base tile q
        = ranked_write base ?kd (stored_item with_values Ci Co keys vals) (tile_items tile) q"
    if "q < snd tile" for q
  proof -
    have "take q [fst tile..<fst tile + snd tile] = [fst tile..<fst tile + q]"
      using that by (simp add: take_upt)
    moreover have "length (filter (\<lambda>g. ?kd g = ?kd (fst tile + q)) [fst tile..<fst tile + q])
        = length (filter (\<lambda>x. ?kd (fst tile + x) = ?kd (fst tile + q)) [0..<q])"
      by (rule length_filter_shift)
    ultimately show ?thesis
      using that by (simp add: tile_write_def ranked_write_def stored_item_def tile_items_def)
  qed
  then show ?thesis by (simp add: ranked_writes_def tile_items_def)
qed

lemma u32_less: "u32 n < 4294967296"
  by (simp add: u32_def)

lemma blocks_writes_mset:
  fixes Ci :: "('ki, 'w::len word) codec"
  assumes ok: "scatter_ok P" and crb: "crb \<le> RadixBits P"
    and w: "window_ok LENGTH('w) bt crb"
    and fill: "encode Ci (decode Ci (- 1)) = - 1"
  shows "(\<And>tile. tile \<in> set tiles \<Longrightarrow> 0 < snd tile \<and> snd tile \<le> items_per_block P) \<Longrightarrow>
         storage_ok P (fst state) \<Longrightarrow>
         (\<And>d. d < radix_size P \<Longrightarrow> block_starts (fst state) ! d < 4294967296) \<Longrightarrow>
         mset (snd (fold (sort_and_scatter_block with_values P Ci Co keys vals uninit bt crb)
           tiles state))
         = mset (snd state)
           + mset (ranked_writes (block_starts (fst state)) (key_digit Ci keys bt crb)
               (stored_item with_values Ci Co keys vals) (concat (map tile_items tiles)))"
proof (induction tiles arbitrary: state)
  case Nil
  show ?case by (simp add: ranked_writes_def)
next
  case (Cons tile tiles)
  let ?kd = "key_digit Ci keys bt crb"
  let ?pay = "stored_item with_values Ci Co keys vals"
  let ?s = "sort_and_scatter_block with_values P Ci Co keys vals uninit bt crb tile state"
  have c32: "crb < 32" and r32: "RadixBits P < 32" using ok crb by (simp_all add: scatter_ok_def)
  have bw: "bt + crb < 4294967296" using w by (simp add: window_ok_def)
  have vc: "0 < snd tile" "snd tile \<le> items_per_block P" using Cons.prems(1) by simp_all
  have kd: "?kd g < radix_size P" for g
    unfolding key_digit_def radix_size_def using c32 crb by (rule digit_of_less)
  have one: "mset (snd ?s) = mset (snd state)
        + mset (ranked_writes (block_starts (fst state)) ?kd ?pay (tile_items tile))"
    using block_writes_mset [OF ok crb w fill vc(2) Cons.prems(2), of with_values Co keys vals uninit]
    by (simp only: tile_writes_ranked)
  have so: "storage_ok P (fst ?s)" using bw c32 Cons.prems(2) by (rule block_storage_ok)
  have adv: "block_starts (fst ?s) ! d
        = u32 (block_starts (fst state) ! d + length (filter (\<lambda>g. ?kd g = d) (tile_items tile)))"
    if "d < radix_size P" for d
    using ok crb w fill vc Cons.prems(2) that Cons.prems(3) [OF that] by (rule block_advance)
  have b32: "block_starts (fst ?s) ! d < 4294967296" if "d < radix_size P" for d
    unfolding adv [OF that] by (rule u32_less)
  have "mset (snd (fold (sort_and_scatter_block with_values P Ci Co keys vals uninit bt crb)
           tiles ?s))
        = mset (snd ?s)
          + mset (ranked_writes (block_starts (fst ?s)) ?kd ?pay (concat (map tile_items tiles)))"
    using Cons.prems(1) so b32 by (intro Cons.IH) simp_all
  moreover have "ranked_writes (block_starts (fst state)) ?kd ?pay
          (tile_items tile @ concat (map tile_items tiles))
        = ranked_writes (block_starts (fst state)) ?kd ?pay (tile_items tile)
          @ ranked_writes (block_starts (fst ?s)) ?kd ?pay (concat (map tile_items tiles))"
    by (rule ranked_writes_append) (simp add: adv [OF kd] u32_u32)
  ultimately show ?case using one by simp
qed

lemma init_block_starts:
  assumes rs: "radix_size P \<le> BlockSize P" and lb: "length bs = radix_size P"
    and d: "d < radix_size P"
  shows "fold (\<lambda>flat_id s. if flat_id < radix_size P then s[flat_id := v flat_id] else s)
           [0..<BlockSize P] bs ! d = v d"
    and "length (fold (\<lambda>flat_id s. if flat_id < radix_size P then s[flat_id := v flat_id] else s)
           [0..<BlockSize P] bs) = radix_size P"
proof -
  have "d < length bs" using d lb by simp
  then show "fold (\<lambda>flat_id s. if flat_id < radix_size P then s[flat_id := v flat_id] else s)
           [0..<BlockSize P] bs ! d = v d"
    using guarded_updates [where k = 0 and m = "radix_size P" and v = v and n = "BlockSize P"
        and t = bs and x = d, unfolded add_0] rs d
    by simp
  show "length (fold (\<lambda>flat_id s. if flat_id < radix_size P then s[flat_id := v flat_id] else s)
           [0..<BlockSize P] bs) = radix_size P"
    using length_guarded_updates [where k = 0 and m = "radix_size P" and v = v
        and js = "[0..<BlockSize P]" and t = bs, unfolded add_0] lb
    by simp
qed

text \<open>
  Claim C2. For one batch, the stores of \<^verbatim>\<open>sort_and_scatter\<close> are, up to their order,
  one store for each item that the tiles of the batch treat as valid, the items
  \<open>items\<close> listed tile by tile in the order of the loop and by position inside a tile.
  The item \<open>g = items ! j\<close> with digit \<open>d\<close> is stored, key and value, at the index
  \<open>digit_starts[d] + batch_digit_starts[batch_id * radix_size + d] + r\<close> in
  \<^verbatim>\<open>unsigned int\<close> arithmetic, where \<open>r\<close> is the number of items of digit \<open>d\<close> before it in
  \<open>items\<close>: those of the blocks before its block, which the running offset
  \<^verbatim>\<open>block_starts[d]\<close> has accumulated from its initial value
  \<open>digit_starts[d] + batch_digit_starts[batch_id * radix_size + d]\<close>, and those before it
  in its own block, which \<^verbatim>\<open>pos - starts[digit]\<close> counts in the stably sorted tile. The
  kernel has a thread for every digit, the positions of a tile fit \<^verbatim>\<open>unsigned short\<close>,
  the window lies inside \<open>RadixBits\<close> and the key, the codec maps the all-ones bit key to
  a key that encodes to it, the batching covers the blocks of the input, and \<open>size\<close>
  is \<^verbatim>\<open>unsigned int\<close>.
\<close>

theorem scatter_destination:
  fixes key_in_codec :: "('ki, 'w::len word) codec" and key_out_codec :: "('ko, 'w word) codec"
    and values_input :: "'v list"
  assumes "scatter_ok P"
    and "current_radix_bits \<le> RadixBits P"
    and "window_ok LENGTH('w) bit' current_radix_bits"
    and "encode key_in_codec (decode key_in_codec (- 1)) = - 1"
    and "storage_ok P storage"
    and "batching_ok (total_blocks (items_per_block P) size') B blocks_per_full_batch full_batches"
    and "batch_id < B"
    and "0 < items_per_block P" and "size' < 4294967296"
    and "items = concat (map tile_items (batch_tiles (items_per_block P) size'
            blocks_per_full_batch full_batches batch_id))"
  shows "mset (sort_and_scatter with_values P key_in_codec key_out_codec keys_input values_input
            uninit size' batch_digit_starts digit_starts bit' current_radix_bits
            blocks_per_full_batch full_batches batch_id storage)
         = mset (map (\<lambda>j.
             (u32 (digit_starts ! key_digit key_in_codec keys_input bit' current_radix_bits (items ! j)
                   + batch_digit_starts ! (batch_id * radix_size P
                       + key_digit key_in_codec keys_input bit' current_radix_bits (items ! j))
                   + length (filter
                       (\<lambda>g. key_digit key_in_codec keys_input bit' current_radix_bits g
                            = key_digit key_in_codec keys_input bit' current_radix_bits (items ! j))
                       (take j items))),
              decode key_out_codec (encode key_in_codec (keys_input ! (items ! j))),
              if with_values then Some (values_input ! (items ! j)) else None))
             [0..<length items])"
proof -
  let ?kd = "key_digit key_in_codec keys_input bit' current_radix_bits"
  let ?pay = "stored_item with_values key_in_codec key_out_codec keys_input values_input"
  let ?v = "\<lambda>flat_id. u32 (digit_starts ! flat_id
              + batch_digit_starts ! (batch_id * radix_size P + flat_id))"
  let ?bs0 = "fold (\<lambda>flat_id s. if flat_id < radix_size P then s[flat_id := ?v flat_id] else s)
                [0..<BlockSize P] (block_starts storage)"
  let ?st0 = "storage\<lparr>block_starts := ?bs0\<rparr>"
  let ?tiles = "batch_tiles (items_per_block P) size' blocks_per_full_batch full_batches batch_id"
  have rs: "radix_size P \<le> BlockSize P" using assms(1) by (simp add: scatter_ok_def)
  have lb: "length (block_starts storage) = radix_size P"
    using assms(5) by (simp add: storage_ok_def)
  have c32: "current_radix_bits < 32" using assms(1,2) by (simp add: scatter_ok_def)
  have kd: "?kd g < radix_size P" for g
    unfolding key_digit_def radix_size_def using c32 assms(2) by (rule digit_of_less)
  have b0: "?bs0 ! d = ?v d" if "d < radix_size P" for d
    using rs lb that by (rule init_block_starts(1))
  have so: "storage_ok P (fst (?st0, [] :: ('ko, 'v) scatter_write list))"
    using assms(5) init_block_starts(2) [OF rs lb kd, where v = ?v]
    by (simp add: storage_ok_def)
  have n32: "items_per_block P \<le> 4294967296" using assms(1) by (simp add: scatter_ok_def)
  have t: "0 < snd tile \<and> snd tile \<le> items_per_block P" if "tile \<in> set ?tiles" for tile
    using assms(6,7,8) n32 assms(9) that by (rule batch_tiles_bounds)
  have b32: "block_starts (fst (?st0, [] :: ('ko, 'v) scatter_write list)) ! d < 4294967296" if "d < radix_size P" for d
    using b0 [OF that] by (simp add: u32_less)
  have "mset (snd (fold (sort_and_scatter_block with_values P key_in_codec key_out_codec
            keys_input values_input uninit bit' current_radix_bits) ?tiles (?st0, [] :: ('ko, 'v) scatter_write list)))
        = mset (snd (?st0, [] :: ('ko, 'v) scatter_write list))
          + mset (ranked_writes (block_starts (fst (?st0, [] :: ('ko, 'v) scatter_write list))) ?kd ?pay
              (concat (map tile_items ?tiles)))"
    by (rule blocks_writes_mset [OF assms(1-4) t so b32])
  then have "mset (sort_and_scatter with_values P key_in_codec key_out_codec keys_input
            values_input uninit size' batch_digit_starts digit_starts bit' current_radix_bits
            blocks_per_full_batch full_batches batch_id storage)
        = mset (ranked_writes ?bs0 ?kd ?pay items)"
    unfolding sort_and_scatter_def Let_def assms(10) by simp
  also have "ranked_writes ?bs0 ?kd ?pay items
        = map (\<lambda>j. (u32 (digit_starts ! ?kd (items ! j)
                   + batch_digit_starts ! (batch_id * radix_size P + ?kd (items ! j))
                   + length (filter (\<lambda>g. ?kd g = ?kd (items ! j)) (take j items))),
              decode key_out_codec (encode key_in_codec (keys_input ! (items ! j))),
              if with_values then Some (values_input ! (items ! j)) else None))
             [0..<length items]"
    unfolding ranked_writes_def ranked_write_def stored_item_def b0 [OF kd]
    by (simp only: u32_add_left)
  finally show ?thesis .
qed

theorem scatter_destination_witness:
  "scatter_ok example_params \<and> 2 \<le> RadixBits example_params \<and> window_ok LENGTH(4) 0 2
   \<and> encode example_codec (decode example_codec (- 1)) = - 1
   \<and> storage_ok example_params
        \<lparr>starts = replicate 4 0, ends = replicate 4 0, block_starts = replicate 4 0\<rparr>
   \<and> batching_ok (total_blocks (items_per_block example_params) 10) 2 2 1 \<and> (0::nat) < 2
   \<and> 0 < items_per_block example_params \<and> (10::nat) < 4294967296
   \<and> [0, 1, 2, 3, 4, 5, 6, 7]
       = concat (map tile_items (batch_tiles (items_per_block example_params) 10 2 1 0))
   \<and> mset (sort_and_scatter True example_params example_codec example_codec example_keys
        [100, 101, 102, 103, 104, 105, 106, 107, 108, 109 :: nat] (\<lambda>_. 0) 10
        [0, 0, 0, 0, 1, 3, 3, 1] [0, 1, 5, 8] 0 2 2 1 0
        \<lparr>starts = replicate 4 0, ends = replicate 4 0, block_starts = replicate 4 0\<rparr>)
     = mset [(1, 13, Some 100), (5, 2, Some 101), (8, 7, Some 102), (2, 13, Some 103),
             (0, 0, Some 104), (3, 9, Some 105), (6, 6, Some 106), (7, 2, Some 107)]"
proof -
  let ?st = "\<lparr>starts = replicate 4 0, ends = replicate 4 0, block_starts = replicate 4 (0::nat)\<rparr>"
  have h: "2 \<le> RadixBits example_params" "window_ok LENGTH(4) 0 2"
    "encode example_codec (decode example_codec (- 1)) = - 1"
    "storage_ok example_params ?st"
    by (simp_all add: example_sizes window_ok_def example_codec_def storage_ok_def)
  have tiles: "batch_tiles (items_per_block example_params) 10 2 1 0 = [(0, 4), (4, 4)]"
    by (simp add: example_sizes batch_tiles_def blocks_per_batch_def batch_block_offset_def
        batch_first_block_def batch_tiles_from_numeral tile_valid_count_def u32_def u32_sub_def)
  have t: "batching_ok (total_blocks (items_per_block example_params) 10) 2 2 1" "(0::nat) < 2"
    "0 < items_per_block example_params" "(10::nat) < 4294967296"
    by (simp_all add: example_sizes batching_ok_def total_blocks_def)
  have items: "[0, 1, 2, 3, 4, 5, 6, 7]
       = concat (map tile_items (batch_tiles (items_per_block example_params) 10 2 1 0))"
    unfolding tiles by (simp add: tile_items_def upt_rec)
  have kd: "key_digit example_codec example_keys 0 2 0 = 1"
    "key_digit example_codec example_keys 0 2 1 = 2"
    "key_digit example_codec example_keys 0 2 2 = 3"
    "key_digit example_codec example_keys 0 2 3 = 1"
    "key_digit example_codec example_keys 0 2 4 = 0"
    "key_digit example_codec example_keys 0 2 5 = 1"
    "key_digit example_codec example_keys 0 2 6 = 2"
    "key_digit example_codec example_keys 0 2 7 = 2"
    by (simp_all add: key_digit_def digit_of_eq example_codec_def example_keys_def)
  have pay: "decode example_codec (encode example_codec (example_keys ! 0)) = 13"
    "decode example_codec (encode example_codec (example_keys ! 1)) = 2"
    "decode example_codec (encode example_codec (example_keys ! 2)) = 7"
    "decode example_codec (encode example_codec (example_keys ! 3)) = 13"
    "decode example_codec (encode example_codec (example_keys ! 4)) = 0"
    "decode example_codec (encode example_codec (example_keys ! 5)) = 9"
    "decode example_codec (encode example_codec (example_keys ! 6)) = 6"
    "decode example_codec (encode example_codec (example_keys ! 7)) = 2"
    by (simp_all add: example_codec_def example_keys_def)
  have up: "[0..<length [0, 1, 2, 3, 4, 5, 6, 7 :: nat]] = [0, 1, 2, 3, 4, 5, 6, 7]"
    by (simp add: upt_rec)
  note th = scatter_destination [where P = example_params and key_in_codec = example_codec
      and key_out_codec = example_codec and keys_input = example_keys
      and values_input = "[100, 101, 102, 103, 104, 105, 106, 107, 108, 109 :: nat]"
      and uninit = "\<lambda>_. 0" and bit' = 0 and current_radix_bits = 2 and size' = 10
      and blocks_per_full_batch = 2 and full_batches = 1 and batch_id = 0
      and batch_digit_starts = "[0, 0, 0, 0, 1, 3, 3, 1]" and digit_starts = "[0, 1, 5, 8]"
      and storage = ?st and with_values = True and items = "[0, 1, 2, 3, 4, 5, 6, 7]" and B = 2,
      OF example_scatter_ok h t items]
  have "mset (sort_and_scatter True example_params example_codec example_codec example_keys
        [100, 101, 102, 103, 104, 105, 106, 107, 108, 109 :: nat] (\<lambda>_. 0) 10
        [0, 0, 0, 0, 1, 3, 3, 1] [0, 1, 5, 8] 0 2 2 1 0 ?st)
     = mset [(1, 13, Some 100), (5, 2, Some 101), (8, 7, Some 102), (2, 13, Some 103),
             (0, 0, Some 104), (3, 9, Some 105), (6, 6, Some 106), (7, 2, Some 107)]"
    unfolding th up
    by (simp add: kd pay kd [unfolded One_nat_def] pay [unfolded One_nat_def] example_sizes u32_def)
  with example_scatter_ok h t items show ?thesis by (intro conjI)
qed

subsection \<open>The stores of the kernel, by rank\<close>

lemma batch_writes_mset:
  fixes Ci :: "('ki, 'w::len word) codec" and Co :: "('ko, 'w word) codec" and vals :: "'v list"
  assumes ok: "scatter_ok P" and crb: "crb \<le> RadixBits P"
    and w: "window_ok LENGTH('w) bt crb"
    and fill: "encode Ci (decode Ci (- 1)) = - 1"
    and so: "storage_ok P storage"
    and t: "\<And>tile. tile \<in> set (batch_tiles (items_per_block P) size' bfb fb batch_id)
              \<Longrightarrow> 0 < snd tile \<and> snd tile \<le> items_per_block P"
  shows "mset (sort_and_scatter with_values P Ci Co keys vals uninit size' bds ds bt crb bfb fb
            batch_id storage)
         = mset (ranked_writes
             (map (\<lambda>d. u32 (ds ! d + bds ! (batch_id * radix_size P + d))) [0..<radix_size P])
             (key_digit Ci keys bt crb) (stored_item with_values Ci Co keys vals)
             (concat (map tile_items (batch_tiles (items_per_block P) size' bfb fb batch_id))))"
proof -
  let ?kd = "key_digit Ci keys bt crb"
  let ?pay = "stored_item with_values Ci Co keys vals"
  let ?v = "\<lambda>d. u32 (ds ! d + bds ! (batch_id * radix_size P + d))"
  let ?bsa = "fold (\<lambda>flat_id s. if flat_id < radix_size P then s[flat_id := ?v flat_id] else s)
                [0..<BlockSize P] (block_starts storage)"
  let ?sta = "storage\<lparr>block_starts := ?bsa\<rparr>"
  let ?items = "concat (map tile_items (batch_tiles (items_per_block P) size' bfb fb batch_id))"
  have rs: "radix_size P \<le> BlockSize P" using ok by (simp add: scatter_ok_def)
  have lb: "length (block_starts storage) = radix_size P" using so by (simp add: storage_ok_def)
  have c32: "crb < 32" using ok crb by (simp add: scatter_ok_def)
  have kd: "?kd g < radix_size P" for g
    unfolding key_digit_def radix_size_def using c32 crb by (rule digit_of_less)
  have b0: "?bsa ! d = ?v d" if "d < radix_size P" for d
    using rs lb that by (rule init_block_starts(1))
  have soa: "storage_ok P (fst (?sta, [] :: ('ko, 'v) scatter_write list))"
    using so init_block_starts(2) [OF rs lb kd, where v = ?v]
    by (simp add: storage_ok_def)
  have b32: "block_starts (fst (?sta, [] :: ('ko, 'v) scatter_write list)) ! d < 4294967296"
    if "d < radix_size P" for d
    using b0 [OF that] by (simp add: u32_less)
  have "mset (snd (fold (sort_and_scatter_block with_values P Ci Co keys vals uninit bt crb)
            (batch_tiles (items_per_block P) size' bfb fb batch_id)
            (?sta, [] :: ('ko, 'v) scatter_write list)))
        = mset (snd (?sta, [] :: ('ko, 'v) scatter_write list))
          + mset (ranked_writes (block_starts (fst (?sta, [] :: ('ko, 'v) scatter_write list)))
              ?kd ?pay ?items)"
    by (rule blocks_writes_mset [OF ok crb w fill t soa b32])
  then have "mset (sort_and_scatter with_values P Ci Co keys vals uninit size' bds ds bt crb bfb fb
            batch_id storage)
        = mset (ranked_writes ?bsa ?kd ?pay ?items)"
    unfolding sort_and_scatter_def Let_def by simp
  also have "ranked_writes ?bsa ?kd ?pay ?items
        = ranked_writes (map ?v [0..<radix_size P]) ?kd ?pay ?items"
    unfolding ranked_writes_def ranked_write_def using kd by (simp add: b0)
  finally show ?thesis .
qed

lemma mset_map_stable_rank:
  fixes f :: "nat \<Rightarrow> nat"
  shows "mset (map (stable_rank f m) [0..<m]) = mset [0..<m]"
proof -
  have "map (stable_rank f m) (sort_key f [0..<m]) = [0..<m]"
    by (intro nth_equalityI) (simp_all add: sort_key_rank_unique(2))
  then have "mset [0..<m] = mset (map (stable_rank f m) (sort_key f [0..<m]))" by simp
  also have "\<dots> = mset (map (stable_rank f m) [0..<m])" by (simp only: mset_map mset_sort)
  finally show ?thesis by simp
qed

lemma stable_rank_less: "g < m \<Longrightarrow> stable_rank f m g < m"
  for f :: "nat \<Rightarrow> nat"
  by (rule sort_key_stable_rank(2))

lemma ranked_writes_range:
  assumes base: "\<And>g. g \<in> set [a..<c] \<Longrightarrow>
      u32 (base ! kd g + length (filter (\<lambda>x. kd x = kd g) [a..<g])) = r g"
  shows "ranked_writes base kd pay [a..<c] = map (\<lambda>g. (r g, pay g)) [a..<c]"
proof -
  have "ranked_write base kd pay [a..<c] j = (r (a + j), pay (a + j))" if "j < c - a" for j
  proof -
    have "take j [a..<c] = [a..<a + j]" using that by (simp add: take_upt)
    moreover have "[a..<c] ! j = a + j" using that by simp
    moreover have "a + j \<in> set [a..<c]" using that by simp
    ultimately show ?thesis using base [of "a + j"] by (simp add: ranked_write_def)
  qed
  then show ?thesis by (auto simp: ranked_writes_def intro!: nth_equalityI)
qed

section \<open>One pass in 32-bit range: the stable partition\<close>

lemma mset_concat_cong:
  "(\<And>b. b \<in> set bs \<Longrightarrow> mset (f b) = mset (g b)) \<Longrightarrow>
   mset (concat (map f bs)) = mset (concat (map g bs))"
  by (induction bs) simp_all

lemma length_filter_upt_split:
  "a \<le> g \<Longrightarrow> length (filter p [0..<a]) + length (filter p [a..<g]) = length (filter p [0..<g])"
proof -
  assume "a \<le> g"
  then have "[0..<g] = [0..<a] @ [a..<g]"
    by (metis le_add_diff_inverse upt_add_eq_append zero_le)
  then show ?thesis by simp
qed

text \<open>
  One pass on an input in 32-bit range, \<open>size + items_per_block \<le> 2^32\<close>: with the tables
  of stages 1 to 3 the launch of \<^verbatim>\<open>sort_and_scatter\<close> stores every input item once, at
  the rank it has in the stable sort of the input by the digit.
\<close>

lemma pass_stores_in_range:
  fixes Ci :: "('ki, 'w::len word) codec" and Co :: "('ko, 'w word) codec" and vals :: "'v list"
  assumes pok: "params_ok P" and sok: "scatter_ok P"
    and l: "launch_ok (items_per_block P) size' B bfb fb"
    and crb: "crb \<le> RadixBits P"
    and w: "window_ok LENGTH('w) bt crb"
    and fill: "encode Ci (decode Ci (- 1)) = - 1"
    and sto: "\<And>b. b < B \<Longrightarrow> storage_ok P (storage b)"
    and len: "B * radix_size P \<le> length table"
    and lent: "radix_size P \<le> length totals"
    and s: "scan_ok S P B"
    and cs: "cs = count_and_scan P S Ci keys uninit_keys size' table totals bt crb bfb fb B"
  shows "mset (sort_and_scatter_launch with_values P Ci Co keys vals uninit size'
            (fst cs) (snd (snd cs)) bt crb bfb fb B storage)
         = mset (map (\<lambda>g. (stable_rank (key_digit Ci keys bt crb) size' g,
                           stored_item with_values Ci Co keys vals g)) [0..<size'])"
proof -
  let ?kd = "key_digit Ci keys bt crb"
  let ?pay = "stored_item with_values Ci Co keys vals"
  let ?ipb = "items_per_block P"
  let ?A = "\<lambda>b. min (first_block_plain bfb fb b * ?ipb) size'"
  let ?items = "\<lambda>b. concat (map tile_items (batch_tiles ?ipb size' bfb fb b))"
  let ?h = "\<lambda>g. (stable_rank ?kd size' g, ?pay g)"
  have bok: "batching_ok (total_blocks ?ipb size') B bfb fb" and pos: "0 < ?ipb"
    and sz: "size' + ?ipb \<le> 4294967296"
    using l by (simp_all add: launch_ok_def)
  have sz32: "size' < 4294967296" and n32: "?ipb \<le> 4294967296" using sz pos by simp_all
  have c32: "crb < 32" using sok crb by (simp add: scatter_ok_def)
  have kd: "?kd g < radix_size P" for g
    unfolding key_digit_def radix_size_def using c32 crb by (rule digit_of_less)
  note pt = pipeline_tables [OF pok l crb len lent s, where C = Ci and keys = keys
      and uninit = uninit_keys and bt = bt, folded cs]
  have batch: "mset (sort_and_scatter with_values P Ci Co keys vals uninit size'
            (fst cs) (snd (snd cs)) bt crb bfb fb b (storage b))
        = mset (map ?h (?items b))" if b: "b < B" for b
  proof -
    let ?base = "map (\<lambda>d. u32 (snd (snd cs) ! d + fst cs ! (b * radix_size P + d)))
                   [0..<radix_size P]"
    have t: "0 < snd tile \<and> snd tile \<le> ?ipb"
      if "tile \<in> set (batch_tiles ?ipb size' bfb fb b)" for tile
      using bok b pos n32 sz32 that by (rule batch_tiles_bounds)
    have ir: "?items b = [?A b ..< ?A (Suc b)]" using l b by (rule batch_items_range)
    have "mset (sort_and_scatter with_values P Ci Co keys vals uninit size'
            (fst cs) (snd (snd cs)) bt crb bfb fb b (storage b))
          = mset (ranked_writes ?base ?kd ?pay (?items b))"
      by (rule batch_writes_mset [OF sok crb w fill sto [OF b] t])
    then have "mset (sort_and_scatter with_values P Ci Co keys vals uninit size'
            (fst cs) (snd (snd cs)) bt crb bfb fb b (storage b))
          = mset (ranked_writes ?base ?kd ?pay [?A b ..< ?A (Suc b)])"
      by (simp only: ir)
    also have "ranked_writes ?base ?kd ?pay [?A b ..< ?A (Suc b)]
          = map ?h [?A b ..< ?A (Suc b)]"
    proof (rule ranked_writes_range)
      fix g assume "g \<in> set [?A b ..< ?A (Suc b)]"
      then have g: "?A b \<le> g" "g < size'" by simp_all
      let ?d = "?kd g"
      have "?base ! ?d = u32 (snd (snd cs) ! ?d + fst cs ! (b * radix_size P + ?d))"
        using kd [of g] by simp
      also have "\<dots> = u32 (length (filter (\<lambda>x. ?kd x < ?d) [0..<size'])
                          + length (filter (\<lambda>x. ?kd x = ?d) [0..<?A b]))"
        by (simp only: pt(1) [OF kd] pt(3) [OF kd b])
      finally have "u32 (?base ! ?d + length (filter (\<lambda>x. ?kd x = ?d) [?A b..<g]))
          = u32 (length (filter (\<lambda>x. ?kd x < ?d) [0..<size'])
                 + (length (filter (\<lambda>x. ?kd x = ?d) [0..<?A b])
                    + length (filter (\<lambda>x. ?kd x = ?d) [?A b..<g])))"
        by (simp only: u32_add_left add.assoc)
      also have "\<dots> = u32 (stable_rank ?kd size' g)"
        by (simp only: length_filter_upt_split [OF g(1)] stable_rank_def)
      also have "\<dots> = stable_rank ?kd size' g"
      proof (rule u32_id)
        have "stable_rank ?kd size' g < size'" using g(2) by (rule stable_rank_less)
        then show "stable_rank ?kd size' g < 4294967296" using sz32 by simp
      qed
      finally show "u32 (?base ! ?kd g + length (filter (\<lambda>x. ?kd x = ?kd g) [?A b..<g]))
                    = stable_rank ?kd size' g" .
    qed
    finally show ?thesis by (simp only: ir)
  qed
  have "mset (sort_and_scatter_launch with_values P Ci Co keys vals uninit size'
            (fst cs) (snd (snd cs)) bt crb bfb fb B storage)
        = mset (concat (map (\<lambda>b. map ?h (?items b)) [0..<B]))"
    unfolding sort_and_scatter_launch_def by (rule mset_concat_cong) (simp add: batch)
  also have "concat (map (\<lambda>b. map ?h (?items b)) [0..<B]) = map ?h (concat (map ?items [0..<B]))"
    by (simp add: map_concat comp_def)
  also have "concat (map ?items [0..<B]) = [0..<size']"
    using batches_items_prefix [OF l order_refl] first_block_plain_items [OF l] by simp
  finally show ?thesis .
qed

lemma pass_indices_in_range:
  fixes Ci :: "('ki, 'w::len word) codec" and Co :: "('ko, 'w word) codec" and vals :: "'v list"
  assumes pok: "params_ok P" and sok: "scatter_ok P"
    and l: "launch_ok (items_per_block P) size' B bfb fb"
    and crb: "crb \<le> RadixBits P"
    and w: "window_ok LENGTH('w) bt crb"
    and fill: "encode Ci (decode Ci (- 1)) = - 1"
    and sto: "\<And>b. b < B \<Longrightarrow> storage_ok P (storage b)"
    and len: "B * radix_size P \<le> length table"
    and lent: "radix_size P \<le> length totals"
    and s: "scan_ok S P B"
    and cs: "cs = count_and_scan P S Ci keys uninit_keys size' table totals bt crb bfb fb B"
  shows "mset (map fst (sort_and_scatter_launch with_values P Ci Co keys vals uninit size'
            (fst cs) (snd (snd cs)) bt crb bfb fb B storage))
         = mset [0..<size']"
proof -
  have "mset (map fst (sort_and_scatter_launch with_values P Ci Co keys vals uninit size'
            (fst cs) (snd (snd cs)) bt crb bfb fb B storage))
        = mset (map fst (map (\<lambda>g. (stable_rank (key_digit Ci keys bt crb) size' g,
                           stored_item with_values Ci Co keys vals g)) [0..<size']))"
    using pass_stores_in_range [OF assms, where with_values = with_values and Co = Co
        and vals = vals and uninit = uninit]
    by (simp only: mset_map)
  also have "\<dots> = mset (map (stable_rank (key_digit Ci keys bt crb) size') [0..<size'])"
    by (simp add: comp_def)
  also have "\<dots> = mset [0..<size']" by (rule mset_map_stable_rank)
  finally show ?thesis .
qed

text \<open>In 32-bit range, two items of the same digit are stored in the order of the input.\<close>

lemma stable_rank_same_digit:
  fixes f :: "nat \<Rightarrow> nat"
  assumes "i < j" "f i = f j"
  shows "stable_rank f m i < stable_rank f m j"
proof -
  have "[0..<j] = [0..<i] @ i # [Suc i..<j]"
    using assms(1) by (metis le_add_diff_inverse less_imp_le upt_add_eq_append upt_conv_Cons zero_le)
  then have "length (filter (\<lambda>x. f x = f j) [0..<j])
        = length (filter (\<lambda>x. f x = f j) [0..<i]) + 1
          + length (filter (\<lambda>x. f x = f j) [Suc i..<j])"
    using assms(2) by simp
  then show ?thesis using assms(2) by (simp add: stable_rank_def)
qed

section \<open>The pass at the end of the 32-bit range\<close>





end
